(* ===== verification/Ucxx_Prelude.thy ===== *)
theory Ucxx_Prelude
  imports Main "HOL-Library.Word" "HOL-Library.Char_ord" "HOL-Library.List_Lexorder"
begin

text \<open>
  Shared vocabulary of the development: the machine types of the build the Makefile
  describes (g++ on a 64-bit little-endian POSIX platform), the little-endian object
  representation of scalars, and generic lemmas on words and lists.
  A C++ \<open>char\<close> is HOL's \<open>char\<close> (exactly one byte); a \<open>std::string\<close> is a
  \<open>string\<close>, ordered as \<open>char_traits<char>::compare\<close> orders it, by unsigned
  bytes from left to right (\<open>Char_ord\<close>, \<open>List_Lexorder\<close>).
\<close>

section \<open>Machine types\<close>

type_synonym int32 = "32 word"
type_synonym u32 = "32 word"
type_synonym size_t = "64 word"
type_synonym double = "64 word"

named_theorems codec_simps \<open>computation rules of the byte codecs\<close>

section \<open>Object representation of scalars, least significant byte first\<close>

fun le_bytes :: "nat \<Rightarrow> int \<Rightarrow> char list" where
  "le_bytes 0 x = []"
| "le_bytes (Suc n) x = char_of (x mod 256) # le_bytes n (x div 256)"

fun le_val :: "char list \<Rightarrow> int" where
  "le_val [] = 0"
| "le_val (c # cs) = of_char c + 256 * le_val cs"

lemma length_le_bytes [simp, codec_simps]: "length (le_bytes n x) = n"
  by (induction n arbitrary: x) auto

lemma le_val_le_bytes: "le_val (le_bytes n x) = x mod 256 ^ n"
  by (induction n arbitrary: x) (auto simp: zmod_zmult2_eq)

lemma of_char_int_bounds [simp]: "0 \<le> (of_char c :: int)" "(of_char c :: int) < 256"
proof -
  have "(of_char c :: int) mod 256 = of_char c" by simp
  then show "0 \<le> (of_char c :: int)" "(of_char c :: int) < 256"
    by (metis pos_mod_sign zero_less_numeral, metis pos_mod_bound zero_less_numeral)
qed

lemma le_val_nonneg: "0 \<le> le_val cs"
  by (induction cs) simp_all

lemma digit_bound: "d < 256 \<Longrightarrow> x < y \<Longrightarrow> d + 256 * x < 256 * (y::int)"
  by arith

lemma le_val_less: "le_val cs < 256 ^ length cs"
  by (induction cs) (simp_all add: digit_bound)

lemma le_bytes_le_val: "length cs = n \<Longrightarrow> le_bytes n (le_val cs) = cs"
proof (induction cs arbitrary: n)
  case (Cons c cs)
  have "(of_char c + 256 * le_val cs) div 256 = le_val cs"
    by (simp add: div_mult_self1)
  with Cons show ?case by auto
qed simp

lemma word_of_le_bytes [codec_simps]:
  fixes w :: "'a::len word"
  assumes "LENGTH('a) = 8 * n"
  shows "word_of_int (le_val (le_bytes n (uint w))) = w"
proof -
  have "(256::int) ^ n = 2 ^ LENGTH('a)"
    by (simp add: assms power_mult)
  then show ?thesis
    using unsigned_less[of w] by (simp add: le_val_le_bytes)
qed

lemma le_bytes_of_word:
  assumes "length cs = n" and "LENGTH('a::len) = 8 * n"
  shows "le_bytes n (uint (word_of_int (le_val cs) :: 'a word)) = cs"
proof -
  have "(256::int) ^ n = 2 ^ LENGTH('a)"
    by (simp add: assms(2) power_mult)
  then have "uint (word_of_int (le_val cs) :: 'a word) = le_val cs"
    using le_val_less[of cs] le_val_nonneg[of cs]
    by (simp add: unsigned_of_int take_bit_int_eq_self assms(1))
  then show ?thesis by (simp add: le_bytes_le_val assms(1))
qed

section \<open>Integer conversions\<close>

lemma uint_scast64: "uint (scast (i :: int32) :: size_t) = sint i mod 2 ^ 64"
  by transfer (simp add: take_bit_eq_mod)

lemma unat_scast_nonneg:
  fixes i :: int32
  assumes "0 \<le> sint i"
  shows "unat (scast i :: size_t) = nat (sint i)"
proof -
  have "sint i < 2 ^ 31" using sint_less[of i] by simp
  then have "sint i mod 2 ^ 64 = sint i" using assms by simp
  then show ?thesis by (simp only: unat_eq_nat_uint uint_scast64)
qed

lemma int_neg_mod: "- m \<le> x \<Longrightarrow> x < 0 \<Longrightarrow> x mod m = x + (m::int)"
  by (metis add.commute diff_ge_0_iff_ge  add_neg_neg minus_less_iff mod_add_self2 mod_pos_pos_trivial  diff_minus_eq_add add_less_same_cancel1)

lemma unat_scast_neg:
  fixes i :: int32
  assumes "sint i < 0"
  shows "2 ^ 63 \<le> unat (scast i :: size_t)"
proof -
  have ge: "- (2 ^ 31) \<le> sint i" using sint_ge[of i] by simp
  have "uint (scast i :: size_t) = sint i + 2 ^ 64"
    unfolding uint_scast64 by (rule int_neg_mod) (use assms ge in auto)
  then have "2 ^ 63 \<le> uint (scast i :: size_t)" using ge by simp
  then show ?thesis unfolding unat_eq_nat_uint by (simp del: nat_uint_eq)
qed

lemma sint_size_of_nat:
  assumes "n < 2 ^ 63"
  shows "sint (of_nat n :: size_t) = int n"
proof -
  have "int n < 2 ^ 63" using assms by simp
  then show ?thesis by (simp add: signed_of_nat signed_take_bit_int_eq_self)
qed

lemma unat_of_nat_size: "n < 2 ^ 64 \<Longrightarrow> unat (of_nat n :: size_t) = n"
  by (simp add: unat_of_nat)

lemma uint_ucast64: "uint (ucast (i :: u32) :: size_t) = uint i"
  by transfer (simp add: take_bit_take_bit)

lemma unat_ucast64: "unat (ucast (i :: u32) :: size_t) = unat i"
  unfolding unat_eq_nat_uint by (simp only: uint_ucast64)

end
