(* ===== verification/StdMap.thy ===== *)
theory StdMap
  imports Ucxx_Prelude
begin

text \<open>
  \<open>std::map\<close> with a linearly ordered key, as the source uses it: the entries in
  iteration order, lookup by \<open>find\<close>, and assignment through \<open>operator[]\<close>.
  The representation invariant is strictly increasing keys; the locale
  \<open>ordered_map\<close> is the contract the serializer relies on.
\<close>

section \<open>Representation and operations\<close>

type_synonym ('k, 'v) stdmap = "('k \<times> 'v) list"

fun map_find :: "('k, 'v) stdmap \<Rightarrow> 'k \<Rightarrow> 'v option" where
  "map_find [] k = None"
| "map_find ((k', v) # m) k = (if k = k' then Some v else map_find m k)"

fun map_put :: "'k::linorder \<Rightarrow> 'v \<Rightarrow> ('k, 'v) stdmap \<Rightarrow> ('k, 'v) stdmap" where
  "map_put k v [] = [(k, v)]"
| "map_put k v ((k', v') # m) =
     (if k < k' then (k, v) # (k', v') # m
      else if k = k' then (k, v) # m
      else (k', v') # map_put k v m)"

definition map_ok :: "('k::linorder, 'v) stdmap \<Rightarrow> bool" where
  "map_ok m \<longleftrightarrow> sorted_wrt (<) (map fst m)"

definition map_of_entries :: "('k::linorder \<times> 'v) list \<Rightarrow> ('k, 'v) stdmap" where
  "map_of_entries kvs = foldl (\<lambda>m (k, v). map_put k v m) [] kvs"

lemma map_find_map_of: "map_find m = map_of m"
proof
  show "map_find m k = map_of m k" for k
    by (induction m) auto
qed

lemma set_fst_map_put: "fst ` set (map_put k v m) = insert k (fst ` set m)"
  by (induction k v m rule: map_put.induct) (simp_all add: insert_commute)

lemma map_put_entry: "e \<in> set (map_put k v m) \<Longrightarrow> e = (k, v) \<or> e \<in> set m"
  by (induction m) (auto split: if_splits)

lemma map_ok_Cons: "map_ok (e # m) \<longleftrightarrow> (\<forall>x \<in> fst ` set m. fst e < x) \<and> map_ok m"
  by (simp add: map_ok_def)

lemma map_ok_Nil [simp]: "map_ok []"
  by (simp add: map_ok_def)

lemma map_put_ok: "map_ok m \<Longrightarrow> map_ok (map_put k v m)"
proof (induction k v m rule: map_put.induct)
  case (2 k v k' v' m)
  then have "\<forall>x \<in> fst ` set m. k' < x" and m: "map_ok m"
    by (simp_all add: map_ok_Cons)
  with 2 show ?case
    by (simp add: map_ok_Cons set_fst_map_put) (meson linorder_neqE order.strict_trans)
qed (simp add: map_ok_def)

lemma map_find_map_put: "map_ok m \<Longrightarrow> map_find (map_put k v m) k' = (if k' = k then Some v else map_find m k')"
proof (induction m)
  case (Cons e m)
  then have "map_ok m" by (simp add: map_ok_Cons)
  with Cons show ?case by (cases e) auto
qed simp

lemma map_put_last:
  "\<forall>x \<in> fst ` set m. x < k \<Longrightarrow> map_put k v m = m @ [(k, v)]"
  by (induction m) force+

lemma length_map_put: "length (map_put k v m) \<le> Suc (length m)"
  by (induction m) auto

section \<open>The contract of an ordered map\<close>

locale ordered_map =
  fixes empty :: 'm
    and put :: "'k::linorder \<Rightarrow> 'v \<Rightarrow> 'm \<Rightarrow> 'm"
    and find :: "'m \<Rightarrow> 'k \<Rightarrow> 'v option"
    and entries :: "'m \<Rightarrow> ('k \<times> 'v) list"
    and ok :: "'m \<Rightarrow> bool"
  assumes ok_empty: "ok empty"
    and ok_put: "ok m \<Longrightarrow> ok (put k v m)"
    and entries_empty: "entries empty = []"
    and find_put: "ok m \<Longrightarrow> find (put k v m) k' = (if k' = k then Some v else find m k')"
    and find_entries: "ok m \<Longrightarrow> find m k = map_of (entries m) k"
    and entries_sorted: "ok m \<Longrightarrow> sorted_wrt (<) (map fst (entries m))"
    and put_greatest: "ok m \<Longrightarrow> \<forall>x \<in> fst ` set (entries m). x < k \<Longrightarrow>
      entries (put k v m) = entries m @ [(k, v)]"
begin

abbreviation put_all :: "'m \<Rightarrow> ('k \<times> 'v) list \<Rightarrow> 'm" where
  "put_all \<equiv> foldl (\<lambda>m (k, v). put k v m)"

lemma ok_put_all: "ok m \<Longrightarrow> ok (put_all m kvs)"
  by (induction kvs arbitrary: m) (auto simp: ok_put)

lemma find_put_all: "ok m \<Longrightarrow> find (put_all m kvs) k = (map_of (rev kvs) ++ Map.empty) k \<or>
    map_of (rev kvs) k = None \<and> find (put_all m kvs) k = find m k"
proof (induction kvs rule: rev_induct)
  case (snoc e kvs)
  then show ?case by (cases e) (auto simp: find_put ok_put_all)
qed simp

text \<open>The last assignment to a key wins.\<close>

lemma find_put_all_empty: "find (put_all empty kvs) k = map_of (rev kvs) k"
  using find_put_all[OF ok_empty, of kvs k] find_entries[OF ok_empty, of k]
  by (auto simp: entries_empty)

text \<open>Putting entries in increasing key order rebuilds the same sequence of entries.\<close>

lemma entries_put_all_sorted:
  "ok m \<Longrightarrow> sorted_wrt (<) (map fst (entries m @ kvs)) \<Longrightarrow>
     entries (put_all m kvs) = entries m @ kvs"
proof (induction kvs arbitrary: m)
  case (Cons e kvs)
  obtain k v where e: "e = (k, v)" by (cases e)
  from Cons.prems have "\<forall>x \<in> fst ` set (entries m). x < k"
    by (auto simp: e sorted_wrt_append)
  with Cons.prems(1) have *: "entries (put k v m) = entries m @ [(k, v)]"
    by (rule put_greatest)
  with Cons.prems have "sorted_wrt (<) (map fst (entries (put k v m) @ kvs))"
    by (simp add: e)
  with Cons.IH[OF ok_put[OF Cons.prems(1)]] show ?case
    by (simp add: e *)
qed simp

end

interpretation sm: ordered_map "[]" map_put map_find "\<lambda>m. m" map_ok
  by unfold_locales
    (auto simp: map_ok_def map_find_map_of[symmetric] map_put_last map_find_map_put
      intro: map_put_ok[unfolded map_ok_def])

lemma map_of_entries_sorted: "map_ok kvs \<Longrightarrow> map_of_entries kvs = kvs"
  using sm.entries_put_all_sorted[OF sm.ok_empty, of kvs]
  by (simp add: map_of_entries_def map_ok_def)

lemma map_of_entries_ok: "map_ok (map_of_entries kvs)"
  unfolding map_of_entries_def by (rule sm.ok_put_all[OF sm.ok_empty])

lemma set_put_all: "set (foldl (\<lambda>m (k, v). map_put k v m) m kvs) \<subseteq> set m \<union> set kvs"
proof (induction kvs arbitrary: m)
  case (Cons e kvs)
  obtain k v where e: "e = (k, v)" by (cases e)
  have "set (map_put k v m) \<subseteq> insert e (set m)"
    using map_put_entry by (fastforce simp: e)
  with Cons.IH[of "map_put k v m"] show ?case by (auto simp: e)
qed simp

lemma set_map_of_entries: "set (map_of_entries kvs) \<subseteq> set kvs"
  using set_put_all[of "[]" kvs] by (simp add: map_of_entries_def)

end
