(* ===== verification/StringUtils.thy ===== *)
theory StringUtils
  imports Ucxx_Prelude
begin

text \<open>
  Model of \<open>src/src/StringUtils.h\<close> and \<open>src/src/StringUtils.cpp\<close>: trimming, and the
  conversions between numbers and text. The members of \<open>std::string\<close> the code calls
  are modelled with their \<open>size_t\<close> results and \<open>npos\<close>, so that the code's
  \<open>find_last_not_of(...) + 1\<close> and \<open>erase(0, npos)\<close> are computed as written.
\<close>

section \<open>Members of std::string\<close>

definition npos :: size_t where
  "npos = - 1"

text \<open>A C string: the bytes before the terminating zero.\<close>

definition c_str :: "string \<Rightarrow> string" where
  "c_str t = takeWhile (\<lambda>c. c \<noteq> CHR 0x00) t"

fun first_not_of_from :: "string \<Rightarrow> string \<Rightarrow> size_t \<Rightarrow> size_t" where
  "first_not_of_from [] wsc i = npos"
| "first_not_of_from (c # s) wsc i =
     (if c \<in> set wsc then first_not_of_from s wsc (i + 1) else i)"

definition find_first_not_of :: "string \<Rightarrow> string \<Rightarrow> size_t" where
  "find_first_not_of s wsc = first_not_of_from s (c_str wsc) 0"

fun last_not_of_from :: "string \<Rightarrow> string \<Rightarrow> size_t \<Rightarrow> size_t \<Rightarrow> size_t" where
  "last_not_of_from [] wsc i r = r"
| "last_not_of_from (c # s) wsc i r =
     last_not_of_from s wsc (i + 1) (if c \<in> set wsc then r else i)"

definition find_last_not_of :: "string \<Rightarrow> string \<Rightarrow> size_t" where
  "find_last_not_of s wsc = last_not_of_from s (c_str wsc) 0 npos"

text \<open>\<open>erase(pos, n)\<close>: \<open>std::out_of_range\<close> (here \<open>None\<close>) when \<open>pos > size()\<close>.\<close>

definition string_erase :: "string \<Rightarrow> size_t \<Rightarrow> size_t \<Rightarrow> string option" where
  "string_erase s pos n =
     (let len = of_nat (length s)
      in if pos > len then None
         else Some (take (unat pos) s @ drop (unat (pos + min n (len - pos))) s))"

section \<open>Trimming\<close>

definition cWhiteSpaceCharacters :: string where
  "cWhiteSpaceCharacters = [CHR '' '', CHR 0x09, CHR 0x0A, CHR 0x0D, CHR 0x0C, CHR 0x0B]"

definition wsc_of :: "string option \<Rightarrow> string" where
  "wsc_of t = (case t of Some t' \<Rightarrow> t' | None \<Rightarrow> cWhiteSpaceCharacters)"

definition rtrim :: "string \<Rightarrow> string option \<Rightarrow> string option" where
  "rtrim s t = (let wsc = wsc_of t in string_erase s (find_last_not_of s wsc + 1) npos)"

definition ltrim :: "string \<Rightarrow> string option \<Rightarrow> string option" where
  "ltrim s t = (let wsc = wsc_of t in string_erase s 0 (find_first_not_of s wsc))"

definition trim :: "string \<Rightarrow> string option \<Rightarrow> string option" where
  "trim s t = (let wsc = wsc_of t
     in case rtrim s (Some wsc) of None \<Rightarrow> None | Some s' \<Rightarrow> ltrim s' (Some wsc))"

section \<open>Numbers as text\<close>

definition digit_char :: "int \<Rightarrow> char" where
  "digit_char d = char_of (48 + d)"

fun dec_digits :: "int \<Rightarrow> string" where
  "dec_digits n = (if n < 10 then [digit_char n] else dec_digits (n div 10) @ [digit_char (n mod 10)])"

declare dec_digits.simps [simp del]

text \<open>\<open>numberToString<int>\<close>: what \<open>std::ostream << int\<close> writes with the default flags.\<close>

definition numberToString_int :: "int32 \<Rightarrow> string" where
  "numberToString_int number =
     (if sint number < 0 then CHR ''-'' # dec_digits (- sint number)
      else dec_digits (sint number))"

definition is_space :: "char \<Rightarrow> bool" where
  "is_space c \<longleftrightarrow> c \<in> set cWhiteSpaceCharacters"

definition is_digit :: "char \<Rightarrow> bool" where
  "is_digit c \<longleftrightarrow> 48 \<le> (of_char c :: int) \<and> (of_char c :: int) \<le> 57"

definition digit_val :: "char \<Rightarrow> int" where
  "digit_val c = of_char c - 48"

definition digits_val :: "string \<Rightarrow> int" where
  "digits_val ds = foldl (\<lambda>n c. 10 * n + digit_val c) 0 ds"

text \<open>An optional sign, as \<open>num_get\<close> accepts it.\<close>

definition split_sign :: "string \<Rightarrow> bool \<times> string" where
  "split_sign s = (case s of [] \<Rightarrow> (False, [])
     | c # s' \<Rightarrow> if c = CHR ''-'' then (True, s') else if c = CHR ''+'' then (False, s') else (False, c # s'))"

text \<open>Values outside \<open>int\<close> set \<open>failbit\<close> and store the nearest bound.\<close>

definition clamp_int :: "int \<Rightarrow> int32" where
  "clamp_int v = of_int (max (- (2 ^ 31)) (min (2 ^ 31 - 1) v))"

text \<open>
  \<open>stringToNumber<int>\<close>: \<open>T res; ss >> res; return res;\<close>. The stream skips leading
  white space; when nothing is left its sentry fails and \<open>res\<close> keeps its indeterminate
  value (\<open>None\<close>). Otherwise a value is stored: 0 when no digit follows the sign.
\<close>

definition stringToNumber_int :: "string \<Rightarrow> int32 option" where
  "stringToNumber_int s =
     (case dropWhile is_space s of [] \<Rightarrow> None
      | s1 \<Rightarrow> (case split_sign s1 of (neg, s2) \<Rightarrow>
          let n = digits_val (takeWhile is_digit s2)
          in Some (clamp_int (if neg then - n else n))))"

section \<open>Trimming: the searches and the erasures\<close>

lemma first_not_of_from_eq:
  "k + length s < 2 ^ 64 \<Longrightarrow> first_not_of_from s wsc (of_nat k) =
     (if set s \<subseteq> set wsc then npos else of_nat (k + length (takeWhile (\<lambda>c. c \<in> set wsc) s)))"
proof (induction s arbitrary: k)
  case (Cons c s)
  have "first_not_of_from s wsc (of_nat k + 1) =
     (if set s \<subseteq> set wsc then npos else of_nat (Suc (k + length (takeWhile (\<lambda>c. c \<in> set wsc) s))))"
    using Cons.IH[of "Suc k"] Cons.prems by (simp add: add.commute)
  then show ?case by auto
qed simp

lemma last_not_of_from_eq:
  "k + length s < 2 ^ 64 \<Longrightarrow> last_not_of_from s wsc (of_nat k) r =
     (if set s \<subseteq> set wsc then r
      else of_nat (k + length (dropWhile (\<lambda>c. c \<in> set wsc) (rev s)) - 1))"
proof (induction s arbitrary: k r)
  case (Cons c s)
  let ?d = "dropWhile (\<lambda>c. c \<in> set wsc) (rev s)"
  have IH: "last_not_of_from s wsc (of_nat k + 1) r = (if set s \<subseteq> set wsc then r else of_nat (k + length ?d))" for r
    using Cons.IH[of "Suc k" r] Cons.prems by (simp add: add.commute)
  have "dropWhile (\<lambda>c. c \<in> set wsc) (rev (c # s)) =
      (if set s \<subseteq> set wsc then dropWhile (\<lambda>c. c \<in> set wsc) [c] else ?d @ [c])"
    by (auto simp: dropWhile_append subset_iff)
  with IH show ?case by auto
qed simp

lemma string_erase_from:
  assumes "n \<le> length s" and "length s < 2 ^ 64"
  shows "string_erase s (of_nat n) npos = Some (take n s)"
proof -
  let ?len = "of_nat (length s) :: size_t"
  have n: "unat (of_nat n :: size_t) = n" and len: "unat ?len = length s"
    using assms by (simp_all add: unat_of_nat)
  then have le: "\<not> of_nat n > ?len" using assms by (simp add: word_less_nat_alt)
  have "min npos (?len - of_nat n) = ?len - of_nat n"
    by (simp add: min_def npos_def order_eq_iff word_order.extremum)
  with le n len show ?thesis by (simp add: string_erase_def Let_def)
qed

lemma string_erase_prefix:
  assumes "n \<le> length s" and "length s < 2 ^ 64"
  shows "string_erase s 0 (of_nat n) = Some (drop n s)"
proof -
  let ?len = "of_nat (length s) :: size_t"
  have n: "unat (of_nat n :: size_t) = n" and len: "unat ?len = length s"
    using assms by (simp_all add: unat_of_nat)
  then have "min (of_nat n) ?len = (of_nat n :: size_t)"
    using assms by (simp add: min_def word_le_nat_alt)
  with n show ?thesis by (simp add: string_erase_def Let_def)
qed

lemma string_erase_all: "length s < 2 ^ 64 \<Longrightarrow> string_erase s 0 npos = Some []"
  using string_erase_from[of 0 s] by simp

abbreviation in_wsc :: "string option \<Rightarrow> char \<Rightarrow> bool" where
  "in_wsc t c \<equiv> c \<in> set (c_str (wsc_of t))"

lemma dropWhile_rev_take:
  "rev (dropWhile P (rev s)) = take (length (dropWhile P (rev s))) s"
  by (metis (no_types, lifting) append_eq_conv_conj length_rev rev_append rev_rev_ident takeWhile_dropWhile_id)

lemma rtrim_eq:
  assumes "length s < 2 ^ 64"
  shows "rtrim s t = Some (rev (dropWhile (in_wsc t) (rev s)))"
proof (cases "set s \<subseteq> set (c_str (wsc_of t))")
  case True
  then have "find_last_not_of s (wsc_of t) + 1 = of_nat 0"
    using last_not_of_from_eq[of 0 s "c_str (wsc_of t)" npos] assms
    by (simp add: find_last_not_of_def npos_def)
  moreover have "dropWhile (in_wsc t) (rev s) = []" using True by auto
  ultimately show ?thesis using string_erase_from[of 0 s] assms
    by (simp add: rtrim_def Let_def)
next
  case False
  let ?d = "dropWhile (in_wsc t) (rev s)"
  have "?d \<noteq> []" using False by auto
  then have "Suc (length ?d - 1) = length ?d" by simp
  then have "of_nat (length ?d - 1) + 1 = (of_nat (length ?d) :: size_t)"
    by (metis Suc_eq_plus1 of_nat_1 of_nat_add)
  then have "find_last_not_of s (wsc_of t) + 1 = of_nat (length ?d)"
    using last_not_of_from_eq[of 0 s "c_str (wsc_of t)" npos] assms False
    by (simp add: find_last_not_of_def)
  then show ?thesis
    using string_erase_from[of "length ?d" s] assms length_dropWhile_le[of "in_wsc t" "rev s"]
    by (simp add: rtrim_def Let_def dropWhile_rev_take)
qed

lemma ltrim_eq:
  assumes "length s < 2 ^ 64"
  shows "ltrim s t = Some (dropWhile (in_wsc t) s)"
proof (cases "set s \<subseteq> set (c_str (wsc_of t))")
  case True
  then have find: "find_first_not_of s (wsc_of t) = npos"
    using first_not_of_from_eq[of 0 s "c_str (wsc_of t)"] assms by (simp add: find_first_not_of_def)
  have "dropWhile (in_wsc t) s = []" using True by auto
  with find show ?thesis
    using string_erase_all[OF assms] unfolding ltrim_def Let_def by (simp only:)
next
  case False
  let ?k = "length (takeWhile (in_wsc t) s)"
  have "find_first_not_of s (wsc_of t) = of_nat ?k"
    using first_not_of_from_eq[of 0 s "c_str (wsc_of t)"] assms False by (simp add: find_first_not_of_def)
  then show ?thesis
    using string_erase_prefix[of ?k s] assms length_takeWhile_le[of "in_wsc t" s]
    by (simp add: ltrim_def Let_def dropWhile_eq_drop)
qed

lemma trim_eq:
  assumes "length s < 2 ^ 64"
  shows "trim s t = Some (dropWhile (in_wsc t) (rev (dropWhile (in_wsc t) (rev s))))"
proof -
  have "length (rev (dropWhile (in_wsc t) (rev s))) < 2 ^ 64"
    using assms length_dropWhile_le[of "in_wsc t" "rev s"] by simp
  moreover have "wsc_of (Some (wsc_of t)) = wsc_of t" by (simp add: wsc_of_def)
  ultimately show ?thesis
    using rtrim_eq[OF assms, of "Some (wsc_of t)"] ltrim_eq
    by (simp add: trim_def Let_def)
qed

lemma last_dropWhile: "dropWhile P xs \<noteq> [] \<Longrightarrow> last (dropWhile P xs) = last xs"
  by (metis last_appendR takeWhile_dropWhile_id)

lemma hd_dropWhile_rev_last:
  assumes "dropWhile P (rev (dropWhile P (rev s))) \<noteq> []"
  shows "\<not> P (last (dropWhile P (rev (dropWhile P (rev s)))))"
proof -
  have "dropWhile P (rev s) \<noteq> []" using assms by (metis dropWhile.simps(1) rev.simps(1))
  then show ?thesis
    using hd_dropWhile[of P "rev s"] by (simp add: last_dropWhile[OF assms] last_rev)
qed

section \<open>Decimal text\<close>

lemma of_char_digit_char:
  assumes "0 \<le> d" "d < 10"
  shows "of_char (digit_char d) = 48 + d"
proof -
  have "of_char (digit_char d) = (48 + d) mod 256"
    unfolding digit_char_def by (rule of_char_of)
  then show ?thesis using assms by simp
qed

lemma digit_char_facts:
  assumes "0 \<le> d" "d < 10"
  shows "is_digit (digit_char d)" and "digit_val (digit_char d) = d"
  using assms by (simp_all add: is_digit_def digit_val_def of_char_digit_char)

lemma dec_digits_digits:
  assumes "0 \<le> n"
  shows "dec_digits n \<noteq> [] \<and> list_all is_digit (dec_digits n)"
  using assms
proof (induction n rule: dec_digits.induct)
  case (1 n)
  then show ?case
    by (cases "n < 10") (simp_all add: dec_digits.simps[of n] digit_char_facts)
qed

lemma digits_val_snoc: "digits_val (ds @ [c]) = 10 * digits_val ds + digit_val c"
  by (simp add: digits_val_def)

lemma digits_val_dec_digits: "0 \<le> n \<Longrightarrow> digits_val (dec_digits n) = n"
proof (induction n rule: dec_digits.induct)
  case (1 n)
  show ?case
  proof (cases "n < 10")
    case True
    with 1 show ?thesis
      by (simp add: dec_digits.simps[of n] digits_val_def digit_char_facts)
  next
    case False
    with 1 show ?thesis
      by (simp add: dec_digits.simps[of n] digits_val_snoc digit_char_facts)
  qed
qed

lemma is_digit_not_special:
  assumes "is_digit c"
  shows "\<not> is_space c" and "c \<noteq> CHR ''-''" and "c \<noteq> CHR ''+''"
  using assms by (auto simp: is_digit_def is_space_def cWhiteSpaceCharacters_def)

lemma digits_val_nonneg: "list_all is_digit ds \<Longrightarrow> 0 \<le> digits_val ds"
  by (induction ds rule: rev_induct)
    (auto simp: digits_val_snoc is_digit_def digit_val_def, simp add: digits_val_def)

definition starts_digit :: "string \<Rightarrow> bool" where
  "starts_digit s \<longleftrightarrow> (case s of [] \<Rightarrow> False | c # _ \<Rightarrow> is_digit c)"

lemma takeWhile_digits:
  assumes "list_all is_digit ds" "\<not> starts_digit rest"
  shows "takeWhile is_digit (ds @ rest) = ds"
  using assms by (induction ds) (auto simp: starts_digit_def split: list.splits)

lemma dropWhile_spaces: "list_all is_space ws \<Longrightarrow> dropWhile is_space (ws @ s) = dropWhile is_space s"
  by (induction ws) auto

lemma clamp_int_id: "clamp_int (sint i) = i"
proof -
  have "- (2 ^ 31) \<le> sint i" "sint i \<le> 2 ^ 31 - 1"
    using sint_ge[of i] sint_less[of i] by simp_all
  then show ?thesis by (simp add: clamp_int_def min_def max_def)
qed

definition sign_text :: "bool \<Rightarrow> bool \<Rightarrow> string" where
  "sign_text neg explicit = (if neg then ''-'' else if explicit then ''+'' else [])"

lemma stringToNumber_int_step:
  assumes "dropWhile is_space s = s1" and "s1 \<noteq> []" and "split_sign s1 = (neg, s2)"
  shows "stringToNumber_int s = Some (clamp_int
     (if neg then - digits_val (takeWhile is_digit s2) else digits_val (takeWhile is_digit s2)))"
  using assms by (cases s1) (auto simp: stringToNumber_int_def)

text \<open>What the extraction stores for a sign, a digit string and unrelated text after it.\<close>

lemma stringToNumber_int_parses:
  assumes ws: "list_all is_space ws" and ds: "ds \<noteq> []" "list_all is_digit ds"
    and rest: "\<not> starts_digit rest"
  shows "stringToNumber_int (ws @ sign_text neg explicit @ ds @ rest) =
     Some (clamp_int (if neg then - digits_val ds else digits_val ds))"
proof -
  obtain d ds' where d: "ds = d # ds'" "is_digit d" using ds by (cases ds) auto
  let ?s = "sign_text neg explicit @ ds @ rest"
  have "dropWhile is_space (ws @ ?s) = ?s"
    using is_digit_not_special[OF d(2)] d(1)
    by (simp add: dropWhile_spaces[OF ws] sign_text_def is_space_def cWhiteSpaceCharacters_def)
  moreover have "split_sign ?s = (neg, ds @ rest)"
    using is_digit_not_special[OF d(2)] d(1) by (simp add: sign_text_def split_sign_def)
  moreover have "?s \<noteq> []" using ds(1) by simp
  ultimately show ?thesis
    using takeWhile_digits[OF ds(2) rest] stringToNumber_int_step by metis
qed

lemma int_text_parses:
  assumes "list_all is_space ws" and "\<not> starts_digit rest"
  shows "stringToNumber_int (ws @ numberToString_int i @ rest) = Some i"
proof -
  define n where "n = \<bar>sint i\<bar>"
  have n: "0 \<le> n" by (simp add: n_def)
  have "numberToString_int i = sign_text (sint i < 0) False @ dec_digits n"
    by (simp add: numberToString_int_def sign_text_def n_def)
  moreover have "(if sint i < 0 then - n else n) = sint i" by (simp add: n_def)
  ultimately show ?thesis
    using stringToNumber_int_parses[of ws "dec_digits n" rest "sint i < 0" False]
      dec_digits_digits[OF n] digits_val_dec_digits[OF n] assms clamp_int_id[of i]
    by (cases "sint i < 0") simp_all
qed

lemma stringToNumber_int_number: "stringToNumber_int (numberToString_int i) = Some i"
  using int_text_parses[of "[]" "[]" i] by (simp add: starts_digit_def)

section \<open>Properties\<close>

text \<open>\<open>trim\<close> never raises, and splits its input into white space, the result and
  white space, where the result neither starts nor ends with a character of the white-space set.\<close>

theorem trim_strips:
  assumes "length s < 2 ^ 64"
  shows "\<exists>pre r post. trim s t = Some r \<and> s = pre @ r @ post \<and> Ball (set (pre @ post)) (in_wsc t) \<and>
     (r = [] \<or> \<not> in_wsc t (hd r) \<and> \<not> in_wsc t (last r))"
proof -
  define d where "d = rev (dropWhile (in_wsc t) (rev s))"
  define r where "r = dropWhile (in_wsc t) d"
  define pre where "pre = takeWhile (in_wsc t) d"
  define post where "post = rev (takeWhile (in_wsc t) (rev s))"
  have "s = d @ post" unfolding d_def post_def
    by (metis rev_append rev_rev_ident takeWhile_dropWhile_id)
  moreover have "d = pre @ r" by (simp add: pre_def r_def)
  moreover have "trim s t = Some r" using trim_eq[OF assms] by (simp add: r_def d_def)
  moreover have "Ball (set (pre @ post)) (in_wsc t)"
    by (auto simp: pre_def post_def dest: set_takeWhileD)
  moreover have "r = [] \<or> \<not> in_wsc t (hd r) \<and> \<not> in_wsc t (last r)"
    using hd_dropWhile[of "in_wsc t" d] hd_dropWhile_rev_last[of "in_wsc t" s]
    by (auto simp: r_def d_def)
  ultimately show ?thesis by (metis append.assoc)
qed
theorem trim_strips_witness:
  "\<exists>pre r post. trim '' ab '' None = Some r \<and> '' ab '' = pre @ r @ post \<and>
     Ball (set (pre @ post)) (in_wsc None) \<and> (r = [] \<or> \<not> in_wsc None (hd r) \<and> \<not> in_wsc None (last r))"
  using trim_strips[of "'' ab ''" None] by simp

text \<open>Reading back the text of an \<open>int\<close> gives the \<open>int\<close>, also after leading white
  space and before text that does not start with a digit.\<close>

theorem int_text_roundtrip:
  assumes "list_all is_space ws" and "\<not> starts_digit rest"
  shows "stringToNumber_int (ws @ numberToString_int i @ rest) = Some i"
  by (rule int_text_parses[OF assms])

theorem int_text_roundtrip_witness:
  "stringToNumber_int (''  '' @ numberToString_int (- 42) @ ''px'') = Some (- 42)"
  by (rule int_text_roundtrip) (simp_all add: is_space_def cWhiteSpaceCharacters_def starts_digit_def is_digit_def)

text \<open>\<open>stringToNumber<int>\<close> returns an indeterminate value exactly on the strings
  made of white space only (the empty one included): \<open>res\<close> is not initialised.\<close>

theorem stringToNumber_int_indeterminate:
  "stringToNumber_int s = None \<longleftrightarrow> list_all is_space s"
proof -
  have "list_all is_space s \<longleftrightarrow> dropWhile is_space s = []"
    by (simp add: list_all_iff)
  then show ?thesis
    by (simp add: stringToNumber_int_def Let_def split: list.split prod.split del: dropWhile_eq_Nil_conv)
qed


text \<open>A trimmed string is a fixed point of \<open>trim\<close>, \<open>rtrim\<close> and \<open>ltrim\<close> with the
  same white-space set.\<close>

theorem trim_fixed:
  assumes "length s < 2 ^ 64" and "trim s t = Some r"
  shows "trim r t = Some r \<and> rtrim r t = Some r \<and> ltrim r t = Some r"
proof -
  let ?P = "in_wsc t"
  have r: "r = dropWhile ?P (rev (dropWhile ?P (rev s)))" using trim_eq[OF assms(1)] assms(2) by simp
  have "length r \<le> length s"
    unfolding r by (metis length_dropWhile_le length_rev order_trans)
  then have len: "length r < 2 ^ 64" using assms(1) by simp
  have "\<not> ?P (last r)" if "r \<noteq> []" using hd_dropWhile_rev_last that unfolding r by blast
  then have right: "rev (dropWhile ?P (rev r)) = r" by (cases r rule: rev_cases) simp_all
  have "\<not> ?P (hd r)" if "r \<noteq> []" using hd_dropWhile that unfolding r by blast
  then have left: "dropWhile ?P r = r" by (cases r) simp_all
  show ?thesis using trim_eq[OF len] rtrim_eq[OF len] ltrim_eq[OF len] left right by simp
qed

theorem trim_fixed_witness:
  "trim ''ab'' None = Some ''ab'' \<and> rtrim ''ab'' None = Some ''ab'' \<and> ltrim ''ab'' None = Some ''ab''"
  by (rule trim_fixed[of "'' ab ''"]) (simp, subst trim_eq, simp_all add: wsc_of_def c_str_def cWhiteSpaceCharacters_def)

text \<open>A number outside the range of \<open>int\<close>, with any number of digits, is read as the
  nearest bound: reading never wraps around.\<close>

theorem stringToNumber_int_saturates:
  assumes "list_all is_space ws" and "ds \<noteq> []" and "list_all is_digit ds" and "\<not> starts_digit rest"
  shows "\<exists>r. stringToNumber_int (ws @ sign_text neg explicit @ ds @ rest) = Some r \<and>
     sint r = max (- (2 ^ 31)) (min (2 ^ 31 - 1) (if neg then - digits_val ds else digits_val ds))"
proof -
  have "sint (clamp_int v) = max (- (2 ^ 31)) (min (2 ^ 31 - 1) v)" for v
    unfolding clamp_int_def by (subst sint_sbintrunc') (auto intro!: signed_take_bit_int_eq_self)
  then show ?thesis using stringToNumber_int_parses[OF assms] by simp
qed

theorem stringToNumber_int_saturates_witness:
  "\<exists>r. stringToNumber_int ''-99999999999'' = Some r \<and> sint r = - (2 ^ 31)"
  using stringToNumber_int_saturates[of "[]" "''99999999999''" "[]" True False]
  by (simp add: is_digit_def starts_digit_def sign_text_def digits_val_def digit_val_def)

end
