(* ===== verification/Doubles.thy ===== *)
theory Doubles
  imports StringUtils
begin

text \<open>
  The \<open>double\<close> of the source: IEEE 754 binary64 bit patterns, the conversions
  \<open>static_cast<double>(int)\<close> and \<open>static_cast<int>(double)\<close> of
  \<open>src/src/Variant.cpp\<close>, and the two instances \<open>numberToString<double>\<close>,
  \<open>stringToNumber<double>\<close> of the templates of \<open>src/src/StringUtils.h\<close>. All
  rounding is to nearest, ties to even, computed exactly on integers.
\<close>

section \<open>Fields of a bit pattern\<close>

definition d_neg :: "double \<Rightarrow> bool" where
  "d_neg d \<longleftrightarrow> uint d \<ge> 2 ^ 63"

definition d_exp :: "double \<Rightarrow> int" where
  "d_exp d = (uint d div 2 ^ 52) mod 2 ^ 11"

definition d_frac :: "double \<Rightarrow> int" where
  "d_frac d = uint d mod 2 ^ 52"

definition d_is_nan :: "double \<Rightarrow> bool" where
  "d_is_nan d \<longleftrightarrow> d_exp d = 2047 \<and> d_frac d \<noteq> 0"

definition d_is_inf :: "double \<Rightarrow> bool" where
  "d_is_inf d \<longleftrightarrow> d_exp d = 2047 \<and> d_frac d = 0"

text \<open>A finite pattern denotes \<open>(-1)^neg * d_mant * 2^d_scale\<close>.\<close>

definition d_mant :: "double \<Rightarrow> int" where
  "d_mant d = (if d_exp d = 0 then d_frac d else 2 ^ 52 + d_frac d)"

definition d_scale :: "double \<Rightarrow> int" where
  "d_scale d = (if d_exp d = 0 then - 1074 else d_exp d - 1075)"

definition d_pack :: "bool \<Rightarrow> int \<Rightarrow> double" where
  "d_pack neg magnitude = word_of_int ((if neg then 2 ^ 63 else 0) + magnitude)"

fun ilog2 :: "int \<Rightarrow> nat" where
  "ilog2 n = (if n < 2 then 0 else Suc (ilog2 (n div 2)))"

declare ilog2.simps [simp del]

section \<open>Casts\<close>

text \<open>Every \<open>int\<close> has at most 32 significant bits, so the conversion is exact.\<close>

definition double_of_int :: "int32 \<Rightarrow> double" where
  "double_of_int i =
     (let n = sint i; a = \<bar>n\<bar>; e = ilog2 a
      in if n = 0 then 0 else d_pack (n < 0) ((int e + 1022) * 2 ^ 52 + a * 2 ^ (52 - e)))"

text \<open>Truncation towards zero; out of the range of \<open>int\<close> (and for NaN) undefined.\<close>

definition int_of_double :: "double \<Rightarrow> int32 option" where
  "int_of_double d =
     (if d_exp d = 2047 then None
      else let t = (if d_scale d \<ge> 0 then d_mant d * 2 ^ nat (d_scale d) else d_mant d div 2 ^ nat (- d_scale d));
               v = (if d_neg d then - t else t)
           in if - (2 ^ 31) \<le> v \<and> v < 2 ^ 31 then Some (word_of_int v) else None)"

section \<open>Text of a double\<close>

definition round_div :: "int \<Rightarrow> int \<Rightarrow> int" where
  "round_div n d = (let q = n div d; r = n mod d
     in if 2 * r < d \<or> 2 * r = d \<and> even q then q else q + 1)"

function up_exp :: "int \<Rightarrow> int \<Rightarrow> int" where
  "up_exp num den = (if num \<le> 0 \<or> den \<le> num then 0 else 1 + up_exp (10 * num) den)"
  by pat_completeness auto
termination
  by (relation "measure (\<lambda>(num, den). nat (den - num))") auto

declare up_exp.simps [simp del]

text \<open>The decimal exponent of a positive rational.\<close>

definition dec_exp :: "int \<Rightarrow> int \<Rightarrow> int" where
  "dec_exp num den = (if den \<le> num then int (length (dec_digits (num div den))) - 1 else - up_exp num den)"

text \<open>Six significant digits and the exponent of the rounded value.\<close>

definition six_digits :: "int \<Rightarrow> int \<Rightarrow> int \<times> int" where
  "six_digits num den =
     (let x = dec_exp num den;
          q = (if x \<le> 5 then round_div (num * 10 ^ nat (5 - x)) den
               else round_div num (den * 10 ^ nat (x - 5)))
      in if q \<ge> 10 ^ 6 then (q div 10, x + 1) else (q, x))"

definition strip_zeros :: "string \<Rightarrow> string" where
  "strip_zeros s = rev (dropWhile (\<lambda>c. c = CHR ''0'') (rev s))"

definition with_point :: "string \<Rightarrow> string \<Rightarrow> string" where
  "with_point ip fp = (let f = strip_zeros fp in if f = [] then ip else ip @ ''.'' @ f)"

definition exp_text :: "int \<Rightarrow> string" where
  "exp_text x = ''e'' @ (if x < 0 then ''-'' else ''+'') @
     (if \<bar>x\<bar> < 10 then ''0'' else []) @ dec_digits \<bar>x\<bar>"

definition general_text :: "int \<Rightarrow> int \<Rightarrow> string" where
  "general_text num den =
     (case six_digits num den of (q, x) \<Rightarrow>
        let ds = dec_digits q
        in if - 4 \<le> x \<and> x < 6
           then (if 0 \<le> x then with_point (take (nat x + 1) ds) (drop (nat x + 1) ds)
                 else with_point ''0'' (replicate (nat (- x - 1)) (CHR ''0'') @ ds))
           else with_point (take 1 ds) (drop 1 ds) @ exp_text x)"

text \<open>\<open>numberToString<double>\<close>: the \<open>%g\<close> format with precision 6, the stream's default.\<close>

definition numberToString_double :: "double \<Rightarrow> string" where
  "numberToString_double d = (if d_neg d then ''-'' else []) @
     (if d_is_nan d then ''nan'' else if d_is_inf d then ''inf''
      else if d_mant d = 0 then ''0''
      else general_text (d_mant d * 2 ^ nat (d_scale d)) (2 ^ nat (- d_scale d)))"

section \<open>A double from text\<close>

function log2_rat :: "int \<Rightarrow> int \<Rightarrow> int" where
  "log2_rat num den = (if num \<le> 0 \<or> den \<le> num then int (ilog2 (num div den)) else log2_rat (2 * num) den - 1)"
  by pat_completeness auto
termination
  by (relation "measure (\<lambda>(num, den). nat (den - num))") auto

declare log2_rat.simps [simp del]

text \<open>The magnitude bits of the double nearest to a positive rational, subnormals included.\<close>

definition nearest_bits :: "int \<Rightarrow> int \<Rightarrow> int" where
  "nearest_bits num den =
     (let e = max (log2_rat num den) (- 1022);
          q = (if e \<le> 52 then round_div (num * 2 ^ nat (52 - e)) den
               else round_div num (den * 2 ^ nat (e - 52)))
      in (e + 1022) * 2 ^ 52 + q)"

text \<open>An overflowing value is stored as the largest finite double.\<close>

definition nearest_double :: "bool \<Rightarrow> int \<Rightarrow> int \<Rightarrow> double" where
  "nearest_double neg num den =
     (if num = 0 then d_pack neg 0
      else let b = nearest_bits num den in d_pack neg (if b \<ge> 2047 * 2 ^ 52 then 2047 * 2 ^ 52 - 1 else b))"

definition split_fraction :: "string \<Rightarrow> string \<times> string" where
  "split_fraction r = (case r of [] \<Rightarrow> ([], [])
     | c # r' \<Rightarrow> if c = CHR ''.'' then (takeWhile is_digit r', dropWhile is_digit r') else ([], r))"

definition scaled_double :: "bool \<Rightarrow> int \<Rightarrow> int \<Rightarrow> double" where
  "scaled_double neg m x = nearest_double neg (m * 10 ^ nat x) (10 ^ nat (- x))"

text \<open>
  \<open>stringToNumber<double>\<close>. \<open>num_get\<close> collects a sign, digits with one point and an
  exponent part; a collected text that is not a complete number stores 0.
\<close>

definition stringToNumber_double :: "string \<Rightarrow> double option" where
  "stringToNumber_double s =
     (case dropWhile is_space s of [] \<Rightarrow> None
      | s1 \<Rightarrow> (case split_sign s1 of (neg, s2) \<Rightarrow>
          let ip = takeWhile is_digit s2
          in case split_fraction (dropWhile is_digit s2) of (fp, r) \<Rightarrow>
             let m = digits_val (ip @ fp); x = - int (length fp)
             in if ip @ fp = [] then Some 0
                else (case r of [] \<Rightarrow> Some (scaled_double neg m x)
                  | c # r' \<Rightarrow>
                      if c = CHR ''e'' \<or> c = CHR ''E''
                      then (case split_sign r' of (eneg, r2) \<Rightarrow>
                        let ed = takeWhile is_digit r2; k = digits_val ed
                        in if ed = [] then Some 0
                           else Some (scaled_double neg m (if eneg then x - k else x + k)))
                      else Some (scaled_double neg m x))))"

section \<open>Integers as doubles\<close>

lemma ilog2_bounds: "1 \<le> n \<Longrightarrow> 2 ^ ilog2 n \<le> n \<and> n < 2 ^ Suc (ilog2 n)"
proof (induction n rule: ilog2.induct)
  case (1 n)
  show ?case
  proof (cases "n < 2")
    case True
    with 1 show ?thesis by (simp add: ilog2.simps[of n])
  next
    case False
    with 1 have "2 ^ ilog2 (n div 2) \<le> n div 2 \<and> n div 2 < 2 ^ Suc (ilog2 (n div 2))" by simp
    moreover have "2 * x \<le> n \<and> n < 4 * x" if "x \<le> n div 2 \<and> n div 2 < 2 * x" for x
      using that by linarith
    ultimately show ?thesis using False by (simp add: ilog2.simps[of n])
  qed
qed

lemma ilog2_le: "1 \<le> n \<Longrightarrow> n < 2 ^ Suc k \<Longrightarrow> ilog2 n \<le> k"
  using ilog2_bounds[of n] by (meson less_Suc_eq_le order_le_less_trans one_less_numeral_iff power_less_imp_less_exp semiring_norm(76))

lemma scaled_mantissa:
  assumes "1 \<le> n" and "n < 2 ^ 53"
  shows "2 ^ 52 \<le> n * 2 ^ (52 - ilog2 n) \<and> n * 2 ^ (52 - ilog2 n) < 2 ^ 53"
proof -
  have e: "ilog2 n \<le> 52" using ilog2_le[of n 52] assms by simp
  have "2 ^ ilog2 n * 2 ^ (52 - ilog2 n) \<le> n * 2 ^ (52 - ilog2 n)"
    using ilog2_bounds[OF assms(1)] by (intro mult_right_mono) auto
  moreover have "n * 2 ^ (52 - ilog2 n) < 2 ^ Suc (ilog2 n) * 2 ^ (52 - ilog2 n)"
    using ilog2_bounds[OF assms(1)] by (intro mult_strict_right_mono) auto
  ultimately show ?thesis
    unfolding power_add[symmetric] using e by (simp add: le_add_diff_inverse)
qed

lemma uint64_of_int: "0 \<le> v \<Longrightarrow> v < 2 ^ 64 \<Longrightarrow> uint (word_of_int v :: 64 word) = v"
  by (simp add: unsigned_of_int take_bit_int_eq_self)

text \<open>Reading the fields back from a packed normal number.\<close>

lemma d_pack_fields:
  fixes x m :: int and neg :: bool
  assumes "1 \<le> x" "x < 2047" "2 ^ 52 \<le> m" "m < 2 ^ 53"
  defines "d \<equiv> d_pack neg ((x - 1) * 2 ^ 52 + m)"
  shows "d_neg d = neg" "d_exp d = x" "d_frac d = m - 2 ^ 52" "d_mant d = m" "d_scale d = x - 1075"
proof -
  let ?b = "x * 2 ^ 52 + (m - 2 ^ 52)"
  have b: "0 \<le> ?b" "?b < 2 ^ 63" using assms by auto
  have u: "uint d = (if neg then 2 ^ 63 else 0) + ?b"
  proof -
    have "d = word_of_int ((if neg then 2 ^ 63 else 0) + ?b)"
      unfolding d_def d_pack_def by (rule arg_cong[where f = word_of_int]) simp
    then show ?thesis
      using uint64_of_int[of "(if neg then 2 ^ 63 else 0) + ?b"] b by (simp split: if_splits)
  qed
  show neg: "d_neg d = neg" using b u by (simp add: d_neg_def)
  have f: "0 \<le> m - 2 ^ 52" "m - 2 ^ 52 < 2 ^ 52" using assms by auto
  have split: "((if neg then 2 ^ 11 else 0) + x) * 2 ^ 52 + (m - 2 ^ 52) = uint d"
    using u by (simp add: algebra_simps)
  show frac: "d_frac d = m - 2 ^ 52"
    unfolding d_frac_def split[symmetric] by (subst mod_mult_self3) (rule mod_pos_pos_trivial[OF f])
  have "uint d div 2 ^ 52 = (if neg then 2 ^ 11 else 0) + x"
    unfolding split[symmetric] using f by (subst div_mult_self3) auto
  then show exp: "d_exp d = x" using assms by (simp add: d_exp_def)
  show "d_mant d = m" "d_scale d = x - 1075"
    using frac exp assms by (simp_all add: d_mant_def d_scale_def)
qed

lemma sint32_abs: "\<bar>sint (i :: int32)\<bar> \<le> 2 ^ 31"
  using sint_ge[of i] sint_less[of i] by simp

lemma round_div_one [simp]: "round_div n 1 = n"
  by (simp add: round_div_def)

lemma nearest_double_int: "nearest_double (sint i < 0) \<bar>sint i\<bar> 1 = double_of_int i"
proof (cases "sint i = 0")
  case True
  then show ?thesis by (simp add: nearest_double_def double_of_int_def d_pack_def)
next
  case False
  define a where "a = \<bar>sint i\<bar>"
  have a: "1 \<le> a" "a < 2 ^ 53" using False sint32_abs[of i] by (auto simp: a_def)
  have e: "ilog2 a \<le> 31" using ilog2_le[of a 31] a sint32_abs[of i] by (simp add: a_def)
  have "log2_rat a 1 = int (ilog2 a)" using a by (simp add: log2_rat.simps)
  then have "nearest_bits a 1 = (int (ilog2 a) + 1022) * 2 ^ 52 + a * 2 ^ (52 - ilog2 a)"
    using e by (simp add: nearest_bits_def Let_def nat_diff_distrib)
  moreover from this have "nearest_bits a 1 < 2047 * 2 ^ 52"
    using scaled_mantissa[OF a] e by simp
  ultimately show ?thesis using False a(1)
    by (simp add: nearest_double_def double_of_int_def Let_def flip: a_def)
qed

lemma stringToNumber_double_digits:
  assumes ds: "ds \<noteq> []" "list_all is_digit ds"
  shows "stringToNumber_double (sign_text neg explicit @ ds) = Some (scaled_double neg (digits_val ds) 0)"
proof -
  obtain d ds' where d: "ds = d # ds'" "is_digit d" using ds by (cases ds) auto
  let ?s = "sign_text neg explicit @ ds"
  have "dropWhile is_space ?s = ?s"
    using is_digit_not_special[OF d(2)] d(1)
    by (simp add: sign_text_def is_space_def cWhiteSpaceCharacters_def)
  moreover have "split_sign ?s = (neg, ds)"
    using is_digit_not_special[OF d(2)] d(1) by (simp add: sign_text_def split_sign_def)
  moreover obtain c cs where "?s = c # cs" using ds(1) by (cases ?s) auto
  moreover have "takeWhile is_digit ds = ds" "dropWhile is_digit ds = []"
    using ds(2) by (simp_all add: list_all_iff takeWhile_eq_all_conv)
  ultimately show ?thesis
    using ds(1) by (simp add: stringToNumber_double_def split_fraction_def Let_def
      del: takeWhile_eq_all_conv dropWhile_eq_Nil_conv)
qed

section \<open>Integers as doubles\<close>

text \<open>Casting an \<open>int\<close> to \<open>double\<close> and back gives the \<open>int\<close>, for all
  \<open>2^32\<close> values: the conversion is exact and truncation undoes it.\<close>

lemma int_of_double_of_int: "int_of_double (double_of_int i) = Some i"
proof (cases "sint i = 0")
  case True
  then have "i = 0" by (simp add: signed_eq_0_iff)
  moreover have "int_of_double (double_of_int 0) = Some 0" by code_simp
  ultimately show ?thesis by simp
next
  case False
  define a where "a = \<bar>sint i\<bar>"
  define e where "e = ilog2 a"
  define m where "m = a * 2 ^ (52 - e)"
  have a: "1 \<le> a" "a < 2 ^ 53" using False sint32_abs[of i] by (auto simp: a_def)
  have e: "e \<le> 31" using ilog2_le[of a 31] a sint32_abs[of i] by (simp add: e_def a_def)
  have m: "2 ^ 52 \<le> m" "m < 2 ^ 53" using scaled_mantissa[OF a] by (simp_all add: m_def e_def)
  define d where "d = double_of_int i"
  have d: "d = d_pack (sint i < 0) ((int e + 1023 - 1) * 2 ^ 52 + m)"
    using False by (simp add: d_def double_of_int_def Let_def m_def e_def a_def algebra_simps)
  have f: "d_neg d = (sint i < 0)" "d_exp d = int e + 1023" "d_mant d = m" "d_scale d = int e - 52"
    using d_pack_fields[of "int e + 1023" m "sint i < 0"] e m by (simp_all add: d)
  have "nat (- d_scale d) = 52 - e" using e f by simp
  then have "d_mant d div 2 ^ nat (- d_scale d) = a" using f by (simp add: m_def)
  with e f show ?thesis using sint_ge[of i] sint_less[of i]
    by (auto simp: int_of_double_def Let_def a_def simp flip: d_def)
qed

text \<open>Parsing the decimal text of an \<open>int\<close> as a \<open>double\<close> gives the same double
  as the direct cast: the correctly rounded parse is exact on integers.\<close>

lemma stringToNumber_double_number: "stringToNumber_double (numberToString_int i) = Some (double_of_int i)"
proof -
  let ?n = "\<bar>sint i\<bar>"
  have "numberToString_int i = sign_text (sint i < 0) False @ dec_digits ?n"
    by (simp add: numberToString_int_def sign_text_def)
  then show ?thesis
    using stringToNumber_double_digits[of "dec_digits ?n" "sint i < 0" False]
      dec_digits_digits[of ?n] digits_val_dec_digits[of ?n] nearest_double_int[of i]
    by (simp add: scaled_double_def)
qed

end
