(* ===== verification/Variant.thy ===== *)
theory Variant
  imports StdMap Doubles
begin

text \<open>
  The value level of \<open>src/src/Variant.h\<close> and \<open>src/src/Variant.cpp\<close>: the enumeration
  of types, the tagged union, the observers and conversions. The list and the map a variant
  owns through its pointer are part of the value here; \<open>VariantHeap\<close> models the
  pointers, the copies and the deletions and shows that they implement this value semantics.
  A result the C++ standard leaves undefined or indeterminate is \<open>None\<close>.
\<close>

section \<open>Types and values\<close>

datatype vtype = Type_Invalid | Type_Null | Type_Boolean | Type_Integer | Type_Real
  | Type_String | Type_List | Type_Map | MaxTypes

primrec type_index :: "vtype \<Rightarrow> nat" where
  "type_index Type_Invalid = 0"
| "type_index Type_Null = 1"
| "type_index Type_Boolean = 2"
| "type_index Type_Integer = 3"
| "type_index Type_Real = 4"
| "type_index Type_String = 5"
| "type_index Type_List = 6"
| "type_index Type_Map = 7"
| "type_index MaxTypes = 8"

lemma type_index_inject [simp]: "type_index a = type_index b \<longleftrightarrow> a = b"
  by (cases a; cases b) simp_all

instantiation vtype :: linorder
begin

definition less_eq_vtype :: "vtype \<Rightarrow> vtype \<Rightarrow> bool" where
  "less_eq_vtype a b \<longleftrightarrow> type_index a \<le> type_index b"

definition less_vtype :: "vtype \<Rightarrow> vtype \<Rightarrow> bool" where
  "less_vtype a b \<longleftrightarrow> type_index a < type_index b"

instance
  by standard (auto simp: less_eq_vtype_def less_vtype_def)

end

lemma below_MaxTypes: "t < MaxTypes \<longleftrightarrow> t \<noteq> MaxTypes"
  by (cases t) (simp_all add: less_vtype_def)

text \<open>
  \<open>VMaxTypes\<close> is a variant whose tag is the enumerator \<open>MaxTypes\<close>, which
  \<open>Variant(Type)\<close> accepts: it holds no data and takes every \<open>default\<close> branch.
\<close>

datatype variant = VInvalid | VNull | VBoolean bool | VInteger int32 | VReal double
  | VString string | VList "variant list" | VMap "(string \<times> variant) list" | VMaxTypes

fun variant_type :: "variant \<Rightarrow> vtype" where
  "variant_type VInvalid = Type_Invalid"
| "variant_type VNull = Type_Null"
| "variant_type (VBoolean _) = Type_Boolean"
| "variant_type (VInteger _) = Type_Integer"
| "variant_type (VReal _) = Type_Real"
| "variant_type (VString _) = Type_String"
| "variant_type (VList _) = Type_List"
| "variant_type (VMap _) = Type_Map"
| "variant_type VMaxTypes = MaxTypes"

definition isValid :: "variant \<Rightarrow> bool" where
  "isValid v \<longleftrightarrow> variant_type v \<noteq> Type_Invalid"

definition isNull :: "variant \<Rightarrow> bool" where
  "isNull v \<longleftrightarrow> variant_type v = Type_Null"

text \<open>\<open>Variant(Type)\<close>: the data word is zeroed, then \<open>initializeType\<close> allocates.\<close>

fun variant_of_type :: "vtype \<Rightarrow> variant" where
  "variant_of_type Type_Invalid = VInvalid"
| "variant_of_type Type_Null = VNull"
| "variant_of_type Type_Boolean = VBoolean False"
| "variant_of_type Type_Integer = VInteger 0"
| "variant_of_type Type_Real = VReal 0"
| "variant_of_type Type_String = VString []"
| "variant_of_type Type_List = VList []"
| "variant_of_type Type_Map = VMap []"
| "variant_of_type MaxTypes = VMaxTypes"

section \<open>Conversions\<close>

fun toBoolean :: "variant \<Rightarrow> bool \<Rightarrow> bool" where
  "toBoolean (VBoolean b) def = b"
| "toBoolean (VInteger i) def = (i \<noteq> 0)"
| "toBoolean (VString s) def = (s = ''true'')"
| "toBoolean _ def = def"

fun toInteger :: "variant \<Rightarrow> int32 \<Rightarrow> int32 option" where
  "toInteger (VBoolean b) def = Some (if b then 1 else 0)"
| "toInteger (VInteger i) def = Some i"
| "toInteger (VReal r) def = int_of_double r"
| "toInteger (VString s) def = stringToNumber_int s"
| "toInteger _ def = Some def"

definition double_one :: double where
  "double_one = 0x3FF0000000000000"

fun toReal :: "variant \<Rightarrow> double \<Rightarrow> double option" where
  "toReal (VBoolean b) def = Some (if b then double_one else 0)"
| "toReal (VInteger i) def = Some (double_of_int i)"
| "toReal (VReal r) def = Some r"
| "toReal (VString s) def = stringToNumber_double s"
| "toReal _ def = Some def"

text \<open>
  The two loops of \<open>toString\<close>: \<open>append_elems\<close> carries the flag \<open>first\<close>,
  \<open>append_entries\<close> tests for the end after \<open>++i\<close>.
\<close>

fun toString :: "variant \<Rightarrow> string \<Rightarrow> string"
and append_elems :: "bool \<Rightarrow> string \<Rightarrow> variant list \<Rightarrow> string"
and append_entries :: "string \<Rightarrow> (string \<times> variant) list \<Rightarrow> string" where
  "toString VInvalid def = ''invalid''"
| "toString VNull def = ''null''"
| "toString (VBoolean b) def = (if b then ''true'' else ''false'')"
| "toString (VInteger i) def = numberToString_int i"
| "toString (VReal r) def = numberToString_double r"
| "toString (VString s) def = s"
| "toString (VList vs) def = append_elems True ''['' vs @ '']''"
| "toString (VMap m) def = append_entries ''{'' m @ ''}''"
| "toString VMaxTypes def = def"
| "append_elems first res [] = res"
| "append_elems first res (v # vs) =
     append_elems False ((if \<not> first then res @ '', '' else res) @ toString v []) vs"
| "append_entries res [] = res"
| "append_entries res ((k, v) # m) =
     (let res' = res @ k @ '': '' @ toString v []
      in append_entries (if m \<noteq> [] then res' @ '', '' else res') m)"

text \<open>\<open>operator<<\<close>, with a stream that is the text written so far.\<close>

definition variant_output :: "string \<Rightarrow> variant \<Rightarrow> string" where
  "variant_output output variant = output @ toString variant []"

section \<open>References to the owned object\<close>

text \<open>\<open>string()\<close>, \<open>list()\<close> and \<open>map()\<close> do not test the type.\<close>

fun variant_string :: "variant \<Rightarrow> string option" where
  "variant_string (VString s) = Some s"
| "variant_string _ = None"

fun variant_list :: "variant \<Rightarrow> variant list option" where
  "variant_list (VList vs) = Some vs"
| "variant_list _ = None"

fun variant_map :: "variant \<Rightarrow> (string \<times> variant) list option" where
  "variant_map (VMap m) = Some m"
| "variant_map _ = None"

section \<open>Well-formed values\<close>

text \<open>Every map inside is a \<open>std::map\<close>: its keys are strictly increasing.\<close>

fun variant_ok :: "variant \<Rightarrow> bool"
and elems_ok :: "variant list \<Rightarrow> bool"
and entries_ok :: "(string \<times> variant) list \<Rightarrow> bool" where
  "variant_ok (VList vs) = elems_ok vs"
| "variant_ok (VMap m) = (map_ok m \<and> entries_ok m)"
| "variant_ok _ = True"
| "elems_ok [] = True"
| "elems_ok (v # vs) = (variant_ok v \<and> elems_ok vs)"
| "entries_ok [] = True"
| "entries_ok ((k, v) # m) = (variant_ok v \<and> entries_ok m)"

lemma elems_ok_list_all: "elems_ok vs \<longleftrightarrow> list_all variant_ok vs"
  by (induction vs) auto

lemma entries_ok_list_all: "entries_ok m \<longleftrightarrow> list_all (\<lambda>e. variant_ok (snd e)) m"
  by (induction m) auto

lemma variant_of_type_type: "variant_type (variant_of_type t) = t"
  by (cases t) simp_all

fun_cases variant_stringE: "variant_string v = Some s"
fun_cases variant_listE: "variant_list v = Some vs"
fun_cases variant_mapE: "variant_map v = Some m"

section \<open>What the loops of toString compute\<close>

fun joined :: "string \<Rightarrow> string list \<Rightarrow> string" where
  "joined sep [] = []"
| "joined sep [x] = x"
| "joined sep (x # xs) = x @ sep @ joined sep xs"

lemma append_elems_more:
  "append_elems False res vs = res @ concat (map (\<lambda>v. '', '' @ toString v []) vs)"
  by (induction vs arbitrary: res) auto

lemma joined_Cons: "joined sep (x # xs) = x @ concat (map (\<lambda>y. sep @ y) xs)"
  by (induction xs arbitrary: x) auto

lemma append_elems_joined: "append_elems True res vs = res @ joined '', '' (map (\<lambda>v. toString v []) vs)"
  by (cases vs) (simp_all add: append_elems_more joined_Cons comp_def)

lemma append_entries_joined:
  "append_entries res m = res @ joined '', '' (map (\<lambda>(k, v). k @ '': '' @ toString v []) m)"
proof (induction m arbitrary: res)
  case (Cons e m)
  then show ?case by (cases e; cases m) (auto simp: Let_def)
qed simp


section \<open>Properties\<close>

text \<open>The text of a list is the texts of its elements separated by commas in brackets, that
  of a map its keys and texts in key order in braces; the elements' texts use the default argument.\<close>

theorem toString_containers:
  "toString (VList vs) def = ''['' @ joined '', '' (map (\<lambda>v. toString v []) vs) @ '']'' \<and>
   toString (VMap m) def = ''{'' @ joined '', '' (map (\<lambda>(k, v). k @ '': '' @ toString v []) m) @ ''}''"
  by (simp add: append_elems_joined append_entries_joined)

text \<open>The default value passed to \<open>toString\<close> is never used for a variant of a real type,
  also not for an invalid or null one.\<close>

theorem toString_ignores_default:
  "toString v def = toString v def' \<or> variant_type v = MaxTypes"
  by (cases v) simp_all

text \<open>C40: an integer survives the detour through text, stored as a string variant, and through a real, read as
  an integer; its text also converts to the real it would convert to itself. A boolean survives the
  detour through text and through an integer, but not through a real: \<open>toBoolean\<close> of a real is the
  default it is given.\<close>

theorem scalar_text_roundtrip:
  "toInteger (VString (toString (VInteger i) def)) n = Some i \<and>
   toReal (VString (toString (VInteger i) def)) d = toReal (VInteger i) d \<and>
   toInteger (VReal (the (toReal (VInteger i) d))) n = Some i \<and>
   toBoolean (VString (toString (VBoolean b) def)) b' = b \<and>
   toBoolean (VInteger (the (toInteger (VBoolean b) n))) b' = b \<and>
   toBoolean (VReal (the (toReal (VBoolean b) d))) b' = b'"
  by (simp add: stringToNumber_int_number stringToNumber_double_number int_of_double_of_int)

end
