(* ===== verification/VariantHeap.thy ===== *)
theory VariantHeap
  imports Variant
begin

text \<open>
  The memory level of \<open>src/src/Variant.cpp\<close>: a variant is a type tag and an eight-byte
  union, whose pointer member refers to a string, list or map object on the heap. The list and
  map objects contain further variants. Constructors, copies, assignments and deletions are
  translated statement by statement; \<open>reify_cell\<close> reads back the value a cell represents
  together with the addresses it owns, and connects this level to the values of \<open>Variant\<close>.
  Memory is unbounded and addresses are never reused, so a use after a deletion is visible.
\<close>

section \<open>Memory\<close>

type_synonym addr = nat

text \<open>The union: eight bytes of data, or a pointer (a null pointer is the bytes 0).\<close>

datatype udata = Bits "64 word" | Ptr addr

record vcell =
  m_type :: vtype
  m_data :: udata

datatype hobj = OStr string | OList "vcell list" | OMap "(string \<times> vcell) list"

record heap =
  hnext :: addr
  hobjs :: "addr \<Rightarrow> hobj option"

datatype herror = Dangling | OutOfFuel

definition empty_heap :: heap where
  "empty_heap = \<lparr>hnext = 0, hobjs = Map.empty\<rparr>"

definition new_obj :: "hobj \<Rightarrow> heap \<Rightarrow> addr \<times> heap" where
  "new_obj obj h = (hnext h, h\<lparr>hnext := Suc (hnext h), hobjs := (hobjs h)(hnext h := Some obj)\<rparr>)"

definition free_obj :: "addr \<Rightarrow> heap \<Rightarrow> heap" where
  "free_obj a h = h\<lparr>hobjs := (hobjs h)(a := None)\<rparr>"

definition heap_ok :: "heap \<Rightarrow> bool" where
  "heap_ok h \<longleftrightarrow> (\<forall>a \<in> dom (hobjs h). a < hnext h)"

fun deref :: "(addr \<Rightarrow> hobj option) \<Rightarrow> udata \<Rightarrow> (addr \<times> hobj) option" where
  "deref H (Bits w) = None"
| "deref H (Ptr a) = (case H a of None \<Rightarrow> None | Some obj \<Rightarrow> Some (a, obj))"

text \<open>Writing one member of the union leaves its other bytes as they were.\<close>

unbundle bit_operations_syntax

definition write_b :: "bool \<Rightarrow> 64 word \<Rightarrow> 64 word" where
  "write_b b w = (w AND NOT 0xFF) OR (if b then 1 else 0)"

definition read_b :: "64 word \<Rightarrow> bool" where
  "read_b w \<longleftrightarrow> w AND 0xFF \<noteq> 0"

definition write_i :: "int32 \<Rightarrow> 64 word \<Rightarrow> 64 word" where
  "write_i i w = (w AND NOT 0xFFFFFFFF) OR ucast i"

definition read_i :: "64 word \<Rightarrow> int32" where
  "read_i w = ucast w"

definition data_bits :: "udata \<Rightarrow> 64 word" where
  "data_bits d = (case d of Bits w \<Rightarrow> w | Ptr _ \<Rightarrow> 0)"

section \<open>Copying\<close>

text \<open>
  \<open>initFrom\<close>, and the copy constructors of \<open>std::list<Variant>\<close> and of the map, which
  copy every element by \<open>Variant(const Variant&)\<close>. The fuel bounds the nesting depth.
\<close>

function copy_cell :: "nat \<Rightarrow> vcell \<Rightarrow> heap \<Rightarrow> herror + vcell \<times> heap"
and copy_cells :: "nat \<Rightarrow> vcell list \<Rightarrow> heap \<Rightarrow> herror + vcell list \<times> heap" where
  "copy_cell 0 c h = Inl OutOfFuel"
| "copy_cell (Suc f) c h =
     (case m_type c of
        Type_String \<Rightarrow> (case deref (hobjs h) (m_data c) of
            Some (_, OStr s) \<Rightarrow> (case new_obj (OStr s) h of
              (a, h1) \<Rightarrow> Inr (\<lparr>m_type = Type_String, m_data = Ptr a\<rparr>, h1))
          | _ \<Rightarrow> Inl Dangling)
      | Type_List \<Rightarrow> (case deref (hobjs h) (m_data c) of
            Some (_, OList cs) \<Rightarrow> (case copy_cells f cs h of
              Inl e \<Rightarrow> Inl e
            | Inr (cs', h1) \<Rightarrow> (case new_obj (OList cs') h1 of
                (a, h2) \<Rightarrow> Inr (\<lparr>m_type = Type_List, m_data = Ptr a\<rparr>, h2)))
          | _ \<Rightarrow> Inl Dangling)
      | Type_Map \<Rightarrow> (case deref (hobjs h) (m_data c) of
            Some (_, OMap m) \<Rightarrow> (case copy_cells f (map snd m) h of
              Inl e \<Rightarrow> Inl e
            | Inr (cs', h1) \<Rightarrow> (case new_obj (OMap (zip (map fst m) cs')) h1 of
                (a, h2) \<Rightarrow> Inr (\<lparr>m_type = Type_Map, m_data = Ptr a\<rparr>, h2)))
          | _ \<Rightarrow> Inl Dangling)
      | t \<Rightarrow> Inr (\<lparr>m_type = t, m_data = m_data c\<rparr>, h))"
| "copy_cells f [] h = Inr ([], h)"
| "copy_cells f (c # cs) h =
     (case copy_cell f c h of
        Inl e \<Rightarrow> Inl e
      | Inr (c', h1) \<Rightarrow> (case copy_cells f cs h1 of
            Inl e \<Rightarrow> Inl e
          | Inr (cs', h2) \<Rightarrow> Inr (c' # cs', h2)))"
  by pat_completeness auto
termination
  by (relation "measures [case_sum fst fst, case_sum (\<lambda>_. 0) (\<lambda>(f, cs, h). Suc (length cs))]") auto

section \<open>Clearing\<close>

definition cleared :: vcell where
  "cleared = \<lparr>m_type = Type_Invalid, m_data = Bits 0\<rparr>"

text \<open>
  The switch of \<open>clear\<close>: \<open>delete\<close> runs the destructors of the elements, then releases
  the object; deleting a null pointer does nothing, deleting anything else that is not a live
  object of that type is undefined. Afterwards the cell is \<open>cleared\<close>.
\<close>

function clear_cell :: "nat \<Rightarrow> vcell \<Rightarrow> heap \<Rightarrow> herror + heap"
and clear_cells :: "nat \<Rightarrow> vcell list \<Rightarrow> heap \<Rightarrow> herror + heap" where
  "clear_cell 0 c h = Inl OutOfFuel"
| "clear_cell (Suc f) c h =
     (case m_type c of
        Type_String \<Rightarrow>
          if m_data c = Bits 0 then Inr h
          else (case deref (hobjs h) (m_data c) of
            Some (a, OStr s) \<Rightarrow> Inr (free_obj a h)
          | _ \<Rightarrow> Inl Dangling)
      | Type_List \<Rightarrow>
          if m_data c = Bits 0 then Inr h
          else (case deref (hobjs h) (m_data c) of
            Some (a, OList cs) \<Rightarrow> (case clear_cells f cs h of
              Inl e \<Rightarrow> Inl e | Inr h1 \<Rightarrow> Inr (free_obj a h1))
          | _ \<Rightarrow> Inl Dangling)
      | Type_Map \<Rightarrow>
          if m_data c = Bits 0 then Inr h
          else (case deref (hobjs h) (m_data c) of
            Some (a, OMap m) \<Rightarrow> (case clear_cells f (map snd m) h of
              Inl e \<Rightarrow> Inl e | Inr h1 \<Rightarrow> Inr (free_obj a h1))
          | _ \<Rightarrow> Inl Dangling)
      | _ \<Rightarrow> Inr h)"
| "clear_cells f [] h = Inr h"
| "clear_cells f (c # cs) h =
     (case clear_cell f c h of Inl e \<Rightarrow> Inl e | Inr h1 \<Rightarrow> clear_cells f cs h1)"
  by pat_completeness auto
termination
  by (relation "measures [case_sum fst fst, case_sum (\<lambda>_. 0) (\<lambda>(f, cs, h). Suc (length cs))]") auto

section \<open>Constructors\<close>

definition mk_default :: vcell where
  "mk_default = \<lparr>m_type = Type_Invalid, m_data = Bits 0\<rparr>"

text \<open>\<open>Variant(Type)\<close> zeroes the pointer and calls \<open>initializeType\<close>.\<close>

definition mk_type :: "vtype \<Rightarrow> heap \<Rightarrow> vcell \<times> heap" where
  "mk_type t h =
     (case t of
        Type_String \<Rightarrow> (case new_obj (OStr []) h of (a, h1) \<Rightarrow> (\<lparr>m_type = t, m_data = Ptr a\<rparr>, h1))
      | Type_List \<Rightarrow> (case new_obj (OList []) h of (a, h1) \<Rightarrow> (\<lparr>m_type = t, m_data = Ptr a\<rparr>, h1))
      | Type_Map \<Rightarrow> (case new_obj (OMap []) h of (a, h1) \<Rightarrow> (\<lparr>m_type = t, m_data = Ptr a\<rparr>, h1))
      | _ \<Rightarrow> (\<lparr>m_type = t, m_data = Bits 0\<rparr>, h))"

text \<open>The scalar constructors do not initialise the other bytes of the union: \<open>junk\<close>.\<close>

definition mk_bool :: "64 word \<Rightarrow> bool \<Rightarrow> vcell" where
  "mk_bool junk b = \<lparr>m_type = Type_Boolean, m_data = Bits (write_b b junk)\<rparr>"

definition mk_int :: "64 word \<Rightarrow> int32 \<Rightarrow> vcell" where
  "mk_int junk i = \<lparr>m_type = Type_Integer, m_data = Bits (write_i i junk)\<rparr>"

definition mk_real :: "double \<Rightarrow> vcell" where
  "mk_real d = \<lparr>m_type = Type_Real, m_data = Bits d\<rparr>"

definition mk_string :: "string \<Rightarrow> heap \<Rightarrow> vcell \<times> heap" where
  "mk_string s h = (case new_obj (OStr s) h of (a, h1) \<Rightarrow> (\<lparr>m_type = Type_String, m_data = Ptr a\<rparr>, h1))"

text \<open>\<open>Variant(const char*)\<close>: the bytes from the pointer on, up to the first zero byte.\<close>

definition mk_cstring :: "char list \<Rightarrow> heap \<Rightarrow> vcell \<times> heap" where
  "mk_cstring pValue h = mk_string (c_str pValue) h"

text \<open>\<open>Variant(const VariantList&)\<close> and \<open>Variant(const VariantMap&)\<close> copy their argument.\<close>

definition mk_list :: "nat \<Rightarrow> vcell list \<Rightarrow> heap \<Rightarrow> herror + vcell \<times> heap" where
  "mk_list f cs h = (case copy_cells f cs h of
       Inl e \<Rightarrow> Inl e
     | Inr (cs', h1) \<Rightarrow> (case new_obj (OList cs') h1 of
         (a, h2) \<Rightarrow> Inr (\<lparr>m_type = Type_List, m_data = Ptr a\<rparr>, h2)))"

definition mk_map :: "nat \<Rightarrow> (string \<times> vcell) list \<Rightarrow> heap \<Rightarrow> herror + vcell \<times> heap" where
  "mk_map f m h = (case copy_cells f (map snd m) h of
       Inl e \<Rightarrow> Inl e
     | Inr (cs', h1) \<Rightarrow> (case new_obj (OMap (zip (map fst m) cs')) h1 of
         (a, h2) \<Rightarrow> Inr (\<lparr>m_type = Type_Map, m_data = Ptr a\<rparr>, h2)))"

section \<open>Assignments\<close>

text \<open>Where a variant lives: a variable, an element of a list object, an entry of a map object.\<close>

datatype vloc = Slot nat | Elem addr nat | Entry addr nat

record vstate =
  vslots :: "nat \<Rightarrow> vcell option"
  vheap :: heap

fun read_loc :: "vstate \<Rightarrow> vloc \<Rightarrow> vcell option" where
  "read_loc st (Slot x) = vslots st x"
| "read_loc st (Elem a i) = (case hobjs (vheap st) a of
     Some (OList cs) \<Rightarrow> if i < length cs then Some (cs ! i) else None | _ \<Rightarrow> None)"
| "read_loc st (Entry a i) = (case hobjs (vheap st) a of
     Some (OMap m) \<Rightarrow> if i < length m then Some (snd (m ! i)) else None | _ \<Rightarrow> None)"

fun write_loc :: "vloc \<Rightarrow> vcell \<Rightarrow> vstate \<Rightarrow> vstate" where
  "write_loc (Slot x) c st = st\<lparr>vslots := (vslots st)(x := Some c)\<rparr>"
| "write_loc (Elem a i) c st = (case hobjs (vheap st) a of
     Some (OList cs) \<Rightarrow> st\<lparr>vheap := (vheap st)\<lparr>hobjs := (hobjs (vheap st))(a := Some (OList (cs[i := c])))\<rparr>\<rparr>
   | _ \<Rightarrow> st)"
| "write_loc (Entry a i) c st = (case hobjs (vheap st) a of
     Some (OMap m) \<Rightarrow> st\<lparr>vheap := (vheap st)\<lparr>hobjs := (hobjs (vheap st))(a := Some (OMap (m[i := (fst (m ! i), c)])))\<rparr>\<rparr>
   | _ \<Rightarrow> st)"

text \<open>
  \<open>operator=(const Variant&)\<close>: the source is a reference, read after \<open>clear()\<close>; the
  new type is stored before \<open>initFrom\<close> copies the data, so that for a moment the assigned
  variant has the new type and a null pointer.
\<close>

definition clear_loc :: "nat \<Rightarrow> vloc \<Rightarrow> vstate \<Rightarrow> herror + vstate" where
  "clear_loc f this st = (case read_loc st this of
       None \<Rightarrow> Inl Dangling
     | Some c \<Rightarrow> (case clear_cell f c (vheap st) of
           Inl e \<Rightarrow> Inl e
         | Inr h \<Rightarrow> Inr (write_loc this cleared (st\<lparr>vheap := h\<rparr>))))"

definition assign_variant :: "nat \<Rightarrow> vloc \<Rightarrow> vloc \<Rightarrow> vstate \<Rightarrow> herror + vstate" where
  "assign_variant f this variant st =
     (if this \<noteq> variant
      then (case clear_loc f this st of
          Inl e \<Rightarrow> Inl e
        | Inr st1 \<Rightarrow> (case read_loc st1 variant of
              None \<Rightarrow> Inl Dangling
            | Some src \<Rightarrow> (let st2 = write_loc this (cleared\<lparr>m_type := m_type src\<rparr>) st1 in
                case copy_cell f src (vheap st2) of
                  Inl e \<Rightarrow> Inl e
                | Inr (c, h) \<Rightarrow> Inr (write_loc this c (st2\<lparr>vheap := h\<rparr>)))))
      else Inr st)"

text \<open>The scalar assignments keep the union when the type already fits.\<close>

definition retype :: "nat \<Rightarrow> vtype \<Rightarrow> vcell \<Rightarrow> heap \<Rightarrow> herror + vcell \<times> heap" where
  "retype f t c h =
     (if m_type c \<noteq> t
      then (case clear_cell f c h of Inl e \<Rightarrow> Inl e | Inr h1 \<Rightarrow> Inr (cleared\<lparr>m_type := t\<rparr>, h1))
      else Inr (c, h))"

definition assign_bool :: "nat \<Rightarrow> bool \<Rightarrow> vcell \<Rightarrow> heap \<Rightarrow> herror + vcell \<times> heap" where
  "assign_bool f b c h = (case retype f Type_Boolean c h of
       Inl e \<Rightarrow> Inl e
     | Inr (c1, h1) \<Rightarrow> Inr (c1\<lparr>m_data := Bits (write_b b (data_bits (m_data c1)))\<rparr>, h1))"

definition assign_int :: "nat \<Rightarrow> int32 \<Rightarrow> vcell \<Rightarrow> heap \<Rightarrow> herror + vcell \<times> heap" where
  "assign_int f i c h = (case retype f Type_Integer c h of
       Inl e \<Rightarrow> Inl e
     | Inr (c1, h1) \<Rightarrow> Inr (c1\<lparr>m_data := Bits (write_i i (data_bits (m_data c1)))\<rparr>, h1))"

definition assign_real :: "nat \<Rightarrow> double \<Rightarrow> vcell \<Rightarrow> heap \<Rightarrow> herror + vcell \<times> heap" where
  "assign_real f d c h = (case retype f Type_Real c h of
       Inl e \<Rightarrow> Inl e
     | Inr (c1, h1) \<Rightarrow> Inr (c1\<lparr>m_data := Bits d\<rparr>, h1))"

text \<open>
  \<open>operator=(const std::string&)\<close>: the argument is a reference too, to a string outside
  the heap or to a string object some variant owns; it is read after \<open>clear()\<close>.
\<close>

datatype sref = Outside string | Inside addr

fun read_sref :: "heap \<Rightarrow> sref \<Rightarrow> string option" where
  "read_sref h (Outside s) = Some s"
| "read_sref h (Inside a) = (case hobjs h a of Some (OStr s) \<Rightarrow> Some s | _ \<Rightarrow> None)"

definition assign_string :: "nat \<Rightarrow> sref \<Rightarrow> vcell \<Rightarrow> heap \<Rightarrow> herror + vcell \<times> heap" where
  "assign_string f value c h =
     (if m_type c \<noteq> Type_String
      then (case clear_cell f c h of
          Inl e \<Rightarrow> Inl e
        | Inr h1 \<Rightarrow> (case read_sref h1 value of
              None \<Rightarrow> Inl Dangling
            | Some s \<Rightarrow> (case new_obj (OStr s) h1 of
                (a, h2) \<Rightarrow> Inr (\<lparr>m_type = Type_String, m_data = Ptr a\<rparr>, h2))))
      else (case (deref (hobjs h) (m_data c), read_sref h value) of
          (Some (a, OStr _), Some s) \<Rightarrow> Inr (c, h\<lparr>hobjs := (hobjs h)(a := Some (OStr s))\<rparr>)
        | _ \<Rightarrow> Inl Dangling))"

definition assign_cstring :: "nat \<Rightarrow> char list \<Rightarrow> vcell \<Rightarrow> heap \<Rightarrow> herror + vcell \<times> heap" where
  "assign_cstring f pValue c h = assign_string f (Outside (c_str pValue)) c h"

text \<open>
  \<open>operator=(const VariantList&)\<close> and \<open>operator=(const VariantMap&)\<close>, for an
  argument that is not part of the assigned variant. Assigning a container copies the elements
  of the source and destroys the old ones; the object stays where it is.
\<close>

definition assign_list :: "nat \<Rightarrow> vcell list \<Rightarrow> vcell \<Rightarrow> heap \<Rightarrow> herror + vcell \<times> heap" where
  "assign_list f value c h =
     (if m_type c \<noteq> Type_List
      then (case clear_cell f c h of Inl e \<Rightarrow> Inl e | Inr h1 \<Rightarrow> mk_list f value h1)
      else (case deref (hobjs h) (m_data c) of
          Some (a, OList old) \<Rightarrow> (case copy_cells f value h of
              Inl e \<Rightarrow> Inl e
            | Inr (cs, h1) \<Rightarrow> (case clear_cells f old h1 of
                  Inl e \<Rightarrow> Inl e
                | Inr h2 \<Rightarrow> Inr (c, h2\<lparr>hobjs := (hobjs h2)(a := Some (OList cs))\<rparr>)))
        | _ \<Rightarrow> Inl Dangling))"

definition assign_map :: "nat \<Rightarrow> (string \<times> vcell) list \<Rightarrow> vcell \<Rightarrow> heap \<Rightarrow> herror + vcell \<times> heap" where
  "assign_map f value c h =
     (if m_type c \<noteq> Type_Map
      then (case clear_cell f c h of Inl e \<Rightarrow> Inl e | Inr h1 \<Rightarrow> mk_map f value h1)
      else (case deref (hobjs h) (m_data c) of
          Some (a, OMap old) \<Rightarrow> (case copy_cells f (map snd value) h of
              Inl e \<Rightarrow> Inl e
            | Inr (cs, h1) \<Rightarrow> (case clear_cells f (map snd old) h1 of
                  Inl e \<Rightarrow> Inl e
                | Inr h2 \<Rightarrow> Inr (c, h2\<lparr>hobjs := (hobjs h2)(a := Some (OMap (zip (map fst value) cs)))\<rparr>)))
        | _ \<Rightarrow> Inl Dangling))"

section \<open>References to the owned object\<close>

definition cell_string :: "vcell \<Rightarrow> heap \<Rightarrow> string option" where
  "cell_string c h = (case deref (hobjs h) (m_data c) of Some (_, OStr s) \<Rightarrow> Some s | _ \<Rightarrow> None)"

definition cell_list :: "vcell \<Rightarrow> heap \<Rightarrow> vcell list option" where
  "cell_list c h = (case deref (hobjs h) (m_data c) of Some (_, OList cs) \<Rightarrow> Some cs | _ \<Rightarrow> None)"

definition cell_map :: "vcell \<Rightarrow> heap \<Rightarrow> (string \<times> vcell) list option" where
  "cell_map c h = (case deref (hobjs h) (m_data c) of Some (_, OMap m) \<Rightarrow> Some m | _ \<Rightarrow> None)"

section \<open>The value a cell represents, and the objects it owns\<close>

function reify_cell :: "nat \<Rightarrow> (addr \<Rightarrow> hobj option) \<Rightarrow> vcell \<Rightarrow> (variant \<times> addr list) option"
and reify_cells :: "nat \<Rightarrow> (addr \<Rightarrow> hobj option) \<Rightarrow> vcell list \<Rightarrow> (variant list \<times> addr list) option" where
  "reify_cell 0 H c = None"
| "reify_cell (Suc f) H c =
     (case m_type c of
        Type_Invalid \<Rightarrow> Some (VInvalid, [])
      | Type_Null \<Rightarrow> Some (VNull, [])
      | Type_Boolean \<Rightarrow> (case m_data c of Bits w \<Rightarrow> Some (VBoolean (read_b w), []) | Ptr _ \<Rightarrow> None)
      | Type_Integer \<Rightarrow> (case m_data c of Bits w \<Rightarrow> Some (VInteger (read_i w), []) | Ptr _ \<Rightarrow> None)
      | Type_Real \<Rightarrow> (case m_data c of Bits w \<Rightarrow> Some (VReal w, []) | Ptr _ \<Rightarrow> None)
      | Type_String \<Rightarrow> (case deref H (m_data c) of
            Some (a, OStr s) \<Rightarrow> Some (VString s, [a]) | _ \<Rightarrow> None)
      | Type_List \<Rightarrow> (case deref H (m_data c) of
            Some (a, OList cs) \<Rightarrow> (case reify_cells f H cs of
              None \<Rightarrow> None | Some (vs, as) \<Rightarrow> Some (VList vs, a # as))
          | _ \<Rightarrow> None)
      | Type_Map \<Rightarrow> (case deref H (m_data c) of
            Some (a, OMap m) \<Rightarrow> (case reify_cells f H (map snd m) of
              None \<Rightarrow> None | Some (vs, as) \<Rightarrow> Some (VMap (zip (map fst m) vs), a # as))
          | _ \<Rightarrow> None)
      | MaxTypes \<Rightarrow> Some (VMaxTypes, []))"
| "reify_cells f H [] = Some ([], [])"
| "reify_cells f H (c # cs) =
     (case reify_cell f H c of
        None \<Rightarrow> None
      | Some (v, as) \<Rightarrow> (case reify_cells f H cs of
            None \<Rightarrow> None
          | Some (vs, bs) \<Rightarrow> Some (v # vs, as @ bs)))"
  by pat_completeness auto
termination
  by (relation "measures [case_sum fst fst, case_sum (\<lambda>_. 0) (\<lambda>(f, H, cs). Suc (length cs))]") auto

end
