(* ===== verification/VariantHeapProofs.thy ===== *)
theory VariantHeapProofs
  imports VariantHeap
begin

text \<open>
  Ownership in \<open>src/src/Variant.cpp\<close>: a variant owns its heap object and, through it,
  everything its elements own. Copies are deep and share nothing, \<open>clear\<close> frees exactly
  the owned objects, and the assignments replace one value by another without a leak, except
  where the source lies inside the assigned variant.
\<close>

section \<open>Induction over the objects a cell owns\<close>

lemma deref_SomeE: "deref H d = Some (a, obj) \<Longrightarrow> d = Ptr a \<and> H a = Some obj"
  by (cases d) (auto split: option.splits)

definition is_scalar :: "vtype \<Rightarrow> bool" where
  "is_scalar t \<longleftrightarrow> t \<noteq> Type_String \<and> t \<noteq> Type_List \<and> t \<noteq> Type_Map"

lemma reify_induct_raw:
  assumes scalar: "\<And>f c v. is_scalar (m_type c) \<Longrightarrow> reify_cell (Suc f) H c = Some (v, []) \<Longrightarrow>
      \<forall>H'. reify_cell (Suc f) H' c = Some (v, []) \<Longrightarrow> P (Suc f) c v []"
    and string: "\<And>f c a s. m_type c = Type_String \<Longrightarrow> m_data c = Ptr a \<Longrightarrow> H a = Some (OStr s) \<Longrightarrow>
      P (Suc f) c (VString s) [a]"
    and list: "\<And>f c a cs vs as. m_type c = Type_List \<Longrightarrow> m_data c = Ptr a \<Longrightarrow> H a = Some (OList cs) \<Longrightarrow>
      reify_cells f H cs = Some (vs, as) \<Longrightarrow> Q f cs vs as \<Longrightarrow> P (Suc f) c (VList vs) (a # as)"
    and map: "\<And>f c a m vs as. m_type c = Type_Map \<Longrightarrow> m_data c = Ptr a \<Longrightarrow> H a = Some (OMap m) \<Longrightarrow>
      reify_cells f H (map snd m) = Some (vs, as) \<Longrightarrow> Q f (map snd m) vs as \<Longrightarrow>
      P (Suc f) c (VMap (zip (map fst m) vs)) (a # as)"
    and Nil: "\<And>f. Q f [] [] []"
    and Cons: "\<And>f c cs v vs as bs. reify_cell f H c = Some (v, as) \<Longrightarrow> P f c v as \<Longrightarrow>
      reify_cells f H cs = Some (vs, bs) \<Longrightarrow> Q f cs vs bs \<Longrightarrow> Q f (c # cs) (v # vs) (as @ bs)"
  shows "reify_cell f H c = Some (v, as) \<Longrightarrow> P f c v as"
    and "reify_cells f H cs = Some (vs, as) \<Longrightarrow> Q f cs vs as"
proof -
  have cells: "\<forall>cs vs as. reify_cells f H cs = Some (vs, as) \<longrightarrow> Q f cs vs as"
    if cell: "\<forall>c v as. reify_cell f H c = Some (v, as) \<longrightarrow> P f c v as" for f
  proof (intro allI)
    show "reify_cells f H cs = Some (vs, as) \<longrightarrow> Q f cs vs as" for cs vs as
      by (induction cs arbitrary: vs as) (use cell in \<open>auto split: option.splits intro!: Nil Cons\<close>)
  qed
  have cell: "\<forall>c v as. reify_cell f H c = Some (v, as) \<longrightarrow> P f c v as" for f
  proof (induction f)
    case (Suc f)
    show ?case
    proof (intro allI impI)
      fix c v as
      assume r: "reify_cell (Suc f) H c = Some (v, as)"
      show "P (Suc f) c v as"
      proof (cases "is_scalar (m_type c)")
        case True
        with r have "as = []" and "\<forall>H'. reify_cell (Suc f) H' c = Some (v, [])"
          by (cases "m_type c"; auto simp: is_scalar_def split: udata.splits)+
        with scalar[OF True] r show ?thesis by simp
      next
        case False
        with r string[of c] list[of c] map[of c] cells[OF Suc.IH] show ?thesis
          by (auto simp: is_scalar_def split: option.splits hobj.splits prod.splits dest!: deref_SomeE)
      qed
    qed
  qed simp
  show "reify_cell f H c = Some (v, as) \<Longrightarrow> P f c v as" using cell by blast
  show "reify_cells f H cs = Some (vs, as) \<Longrightarrow> Q f cs vs as" using cells[OF cell] by blast
qed

lemmas reify_induct [consumes 1, case_names scalar string list map Nil Cons] =
  reify_induct_raw(1) [rotated -1] reify_induct_raw(2) [rotated -1]

lemma reify_frame:
  "reify_cell f H c = Some (v, as) \<Longrightarrow> (\<forall>a \<in> set as. H' a = H a) \<longrightarrow> reify_cell f H' c = Some (v, as)"
  "reify_cells f H cs = Some (vs, as) \<Longrightarrow> (\<forall>a \<in> set as. H' a = H a) \<longrightarrow> reify_cells f H' cs = Some (vs, as)"
  by (induction rule: reify_induct) simp_all

lemma reify_live:
  "reify_cell f H c = Some (v, as) \<Longrightarrow> set as \<subseteq> dom H"
  "reify_cells f H cs = Some (vs, as) \<Longrightarrow> set as \<subseteq> dom H"
  by (induction rule: reify_induct) auto

lemma length_reify_cells: "reify_cells f H cs = Some (vs, as) \<Longrightarrow> length vs = length cs"
  by (induction cs arbitrary: vs as) (auto split: option.splits)

section \<open>Clearing frees exactly the owned objects\<close>

definition release :: "addr list \<Rightarrow> heap \<Rightarrow> heap" where
  "release as h = h\<lparr>hobjs := hobjs h |` (- set as)\<rparr>"

lemma release_simps [simp]:
  "hobjs (release as h) = hobjs h |` (- set as)" "hnext (release as h) = hnext h"
  "release bs (release as h) = release (as @ bs) h"
  by (auto simp: release_def restrict_map_def fun_eq_iff)

lemma release_none [simp]: "release [] h = h"
  by (cases h) (simp add: release_def restrict_map_def)

lemma free_release: "free_obj a (release as h) = release (a # as) h"
  by (auto simp: free_obj_def release_def restrict_map_def fun_eq_iff)

lemma clear_releases:
  "reify_cell f H c = Some (v, as) \<Longrightarrow> 
     \<forall>h. distinct as \<longrightarrow> (\<forall>a \<in> set as. hobjs h a = H a) \<longrightarrow> clear_cell f c h = Inr (release as h)"
  "reify_cells f H cs = Some (vs, as) \<Longrightarrow>
     \<forall>h. distinct as \<longrightarrow> (\<forall>a \<in> set as. hobjs h a = H a) \<longrightarrow> clear_cells f cs h = Inr (release as h)"
proof (induction rule: reify_induct)
  case (scalar f c v)
  then show ?case by (cases "m_type c") (simp_all add: is_scalar_def)
next
  case (string f c a s)
  then show ?case using free_release[of a "[]"] by simp
next
  case (list f c a cs vs as)
  then show ?case by (auto simp: free_release)
next
  case (map f c a m vs as)
  then show ?case by (auto simp: free_release)
next
  case (Cons f c cs v vs as bs)
  show ?case
  proof (intro allI impI)
    fix h :: heap
    assume d: "distinct (as @ bs)" and live: "\<forall>a \<in> set (as @ bs). hobjs h a = H a"
    then have "clear_cell f c h = Inr (release as h)" using Cons(2) by simp
    moreover have "\<forall>a \<in> set bs. hobjs (release as h) a = H a"
      using d live by (auto simp: restrict_map_def)
    then have "clear_cells f cs (release as h) = Inr (release bs (release as h))"
      using Cons(4) d by (metis distinct_append)
    ultimately show "clear_cells f (c # cs) h = Inr (release (as @ bs) h)" by simp
  qed
qed simp

section \<open>Copying builds a disjoint replica\<close>

text \<open>The heap has only gained the objects \<open>bs\<close>, all at new addresses.\<close>

definition grown :: "heap \<Rightarrow> heap \<Rightarrow> addr list \<Rightarrow> bool" where
  "grown h h' bs \<longleftrightarrow> hnext h \<le> hnext h' \<and> set bs \<subseteq> {hnext h ..< hnext h'} \<and> distinct bs \<and>
     dom (hobjs h') = dom (hobjs h) \<union> set bs \<and> (\<forall>a. a < hnext h \<longrightarrow> hobjs h' a = hobjs h a)"

lemma grown_refl: "grown h h []"
  by (simp add: grown_def)

lemma grown_trans: "grown h h1 as \<Longrightarrow> grown h1 h2 bs \<Longrightarrow> grown h h2 (as @ bs)"
  unfolding grown_def
  by (intro conjI) (force simp: subset_iff dest: order_less_le_trans)+

lemma grown_new: "new_obj obj h = (a, h') \<Longrightarrow> grown h h' [a]"
  by (auto simp: grown_def new_obj_def)

lemma grown_ok: "heap_ok h \<Longrightarrow> grown h h' bs \<Longrightarrow> heap_ok h'"
  unfolding grown_def heap_ok_def by (auto dest: order_less_le_trans)

lemma grown_snoc: "grown h h' (bs @ [b]) \<longleftrightarrow> grown h h' (b # bs)"
  by (auto simp: grown_def)

lemma grown_keeps: "heap_ok h \<Longrightarrow> grown h h' bs \<Longrightarrow> a \<in> dom (hobjs h) \<Longrightarrow> hobjs h' a = hobjs h a"
  by (auto simp: grown_def heap_ok_def)

lemma grown_fresh: "heap_ok h \<Longrightarrow> grown h h' bs \<Longrightarrow> set bs \<inter> dom (hobjs h) = {}"
  unfolding grown_def heap_ok_def disjoint_iff by (meson atLeastLessThan_iff in_mono leD)

lemma grown_distinct: "grown h h' bs \<Longrightarrow> distinct bs"
  and grown_dom: "grown h h' bs \<Longrightarrow> dom (hobjs h') = dom (hobjs h) \<union> set bs"
  unfolding grown_def by blast+

lemma grown_frame:
  assumes "heap_ok h" and "grown h h' bs"
  shows "reify_cell f (hobjs h) c = Some (v, as) \<Longrightarrow> reify_cell f (hobjs h') c = Some (v, as)"
    and "reify_cells f (hobjs h) cs = Some (vs, as) \<Longrightarrow> reify_cells f (hobjs h') cs = Some (vs, as)"
proof -
  assume r: "reify_cell f (hobjs h) c = Some (v, as)"
  have "\<forall>a \<in> set as. hobjs h' a = hobjs h a"
    using reify_live(1)[OF r] grown_keeps[OF assms] by blast
  with reify_frame(1)[OF r] show "reify_cell f (hobjs h') c = Some (v, as)" by blast
next
  assume r: "reify_cells f (hobjs h) cs = Some (vs, as)"
  have "\<forall>a \<in> set as. hobjs h' a = hobjs h a"
    using reify_live(2)[OF r] grown_keeps[OF assms] by blast
  with reify_frame(2)[OF r] show "reify_cells f (hobjs h') cs = Some (vs, as)" by blast
qed

lemma copy_replicates:
  "reify_cell f H c = Some (v, as) \<Longrightarrow>
     \<forall>h. heap_ok h \<longrightarrow> (\<forall>a \<in> set as. hobjs h a = H a) \<longrightarrow>
       (\<exists>c' h' bs. copy_cell f c h = Inr (c', h') \<and> reify_cell f (hobjs h') c' = Some (v, bs) \<and> grown h h' bs)"
  "reify_cells f H cs = Some (vs, as) \<Longrightarrow>
     \<forall>h. heap_ok h \<longrightarrow> (\<forall>a \<in> set as. hobjs h a = H a) \<longrightarrow>
       (\<exists>cs' h' bs. copy_cells f cs h = Inr (cs', h') \<and> reify_cells f (hobjs h') cs' = Some (vs, bs) \<and> grown h h' bs)"
proof (induction rule: reify_induct)
  case (scalar f c v)
  have "copy_cell (Suc f) c h = Inr (c, h)" for h
    using scalar by (cases "m_type c") (simp_all add: is_scalar_def)
  then show ?case using scalar grown_refl by auto
next
  case (string f c a s)
  show ?case
  proof (intro allI impI)
    fix h
    assume h: "heap_ok h" "\<forall>a \<in> set [a]. hobjs h a = H a"
    obtain b h1 where new: "new_obj (OStr s) h = (b, h1)" by (cases "new_obj (OStr s) h")
    then have "hobjs h1 b = Some (OStr s)" by (auto simp: new_obj_def)
    with new h string grown_new[OF new]
    show "\<exists>c' h' bs. copy_cell (Suc f) c h = Inr (c', h') \<and>
        reify_cell (Suc f) (hobjs h') c' = Some (VString s, bs) \<and> grown h h' bs" by simp
  qed
next
  case (list f c a cs vs as)
  show ?case
  proof (intro allI impI)
    fix h
    assume h: "heap_ok h" "\<forall>x \<in> set (a # as). hobjs h x = H x"
    with list(5) obtain cs' h1 bs where copy: "copy_cells f cs h = Inr (cs', h1)"
      "reify_cells f (hobjs h1) cs' = Some (vs, bs)" "grown h h1 bs" by auto
    obtain b h2 where new: "new_obj (OList cs') h1 = (b, h2)" by (cases "new_obj (OList cs') h1")
    have obj: "hobjs h2 b = Some (OList cs')" using new by (auto simp: new_obj_def)
    have keep: "reify_cells f (hobjs h2) cs' = Some (vs, bs)"
      using grown_frame[OF grown_ok[OF h(1) copy(3)] grown_new[OF new]] copy(2) by blast
    have "grown h h2 (b # bs)" using grown_trans[OF copy(3) grown_new[OF new]] by (simp add: grown_snoc)
    with copy new obj keep h list
    show "\<exists>c' h' bs. copy_cell (Suc f) c h = Inr (c', h') \<and>
        reify_cell (Suc f) (hobjs h') c' = Some (VList vs, bs) \<and> grown h h' bs" by simp
  qed
next
  case (map f c a m vs as)
  show ?case
  proof (intro allI impI)
    fix h
    assume h: "heap_ok h" "\<forall>x \<in> set (a # as). hobjs h x = H x"
    with map(5) obtain cs' h1 bs where copy: "copy_cells f (map snd m) h = Inr (cs', h1)"
      "reify_cells f (hobjs h1) cs' = Some (vs, bs)" "grown h h1 bs" by auto
    obtain b h2 where new: "new_obj (OMap (zip (map fst m) cs')) h1 = (b, h2)" by (cases "new_obj (OMap (zip (map fst m) cs')) h1")
    have obj: "hobjs h2 b = Some (OMap (zip (map fst m) cs'))" using new by (auto simp: new_obj_def)
    have keep: "reify_cells f (hobjs h2) cs' = Some (vs, bs)"
      using grown_frame[OF grown_ok[OF h(1) copy(3)] grown_new[OF new]] copy(2) by blast
    have len: "map fst (zip (map fst m) cs') = map fst m" "map snd (zip (map fst m) cs') = cs'"
      using length_reify_cells[OF copy(2)] length_reify_cells[OF map(4)] by simp_all
    have "grown h h2 (b # bs)" using grown_trans[OF copy(3) grown_new[OF new]] by (simp add: grown_snoc)
    with copy new obj keep h map len
    show "\<exists>c' h' bs. copy_cell (Suc f) c h = Inr (c', h') \<and>
        reify_cell (Suc f) (hobjs h') c' = Some (VMap (zip (map fst m) vs), bs) \<and> grown h h' bs" by simp
  qed
next
  case (Cons f c cs v vs as bs)
  show ?case
  proof (intro allI impI)
    fix h
    assume h: "heap_ok h" "\<forall>x \<in> set (as @ bs). hobjs h x = H x"
    with Cons(2) obtain c' h1 as' where c: "copy_cell f c h = Inr (c', h1)"
      "reify_cell f (hobjs h1) c' = Some (v, as')" "grown h h1 as'" by auto
    have "\<forall>x \<in> set bs. hobjs h1 x = H x"
      using h grown_keeps[OF h(1) c(3)] reify_live(2)[OF Cons(3)] by (metis Un_iff domIff in_mono set_append)
    with Cons(4) grown_ok[OF h(1) c(3)] obtain cs' h2 bs' where cs: "copy_cells f cs h1 = Inr (cs', h2)"
      "reify_cells f (hobjs h2) cs' = Some (vs, bs')" "grown h1 h2 bs'" by blast
    have "reify_cell f (hobjs h2) c' = Some (v, as')"
      using grown_frame[OF grown_ok[OF h(1) c(3)] cs(3)] c(2) by blast
    with c cs grown_trans[OF c(3) cs(3)]
    show "\<exists>cs' h' bs. copy_cells f (c # cs) h = Inr (cs', h') \<and>
        reify_cells f (hobjs h') cs' = Some (v # vs, bs) \<and> grown h h' bs" by auto
  qed
qed (auto intro: grown_refl)


section \<open>Values and ownership as an interface\<close>

text \<open>
  What the copy constructor and the destructor promise each other: \<open>holds h c v as\<close> says
  that in \<open>h\<close> the cell \<open>c\<close> represents \<open>v\<close> and owns \<open>as\<close>.
\<close>

locale owned_value =
  fixes holds :: "heap \<Rightarrow> 'c \<Rightarrow> 'v \<Rightarrow> addr list \<Rightarrow> bool"
    and copy :: "'c \<Rightarrow> heap \<Rightarrow> herror + 'c \<times> heap"
    and clear :: "'c \<Rightarrow> heap \<Rightarrow> herror + heap"
  assumes live: "holds h c v as \<Longrightarrow> set as \<subseteq> dom (hobjs h)"
    and frame: "holds h c v as \<Longrightarrow> \<forall>a \<in> set as. hobjs h' a = hobjs h a \<Longrightarrow> holds h' c v as"
    and copied: "holds h c v as \<Longrightarrow> heap_ok h \<Longrightarrow>
      \<exists>c' h' bs. copy c h = Inr (c', h') \<and> holds h' c' v bs \<and> grown h h' bs"
    and cleared: "holds h c v as \<Longrightarrow> distinct as \<Longrightarrow> clear c h = Inr (release as h)"
begin

lemma survives_release:
  "holds h c v as \<Longrightarrow> set as \<inter> set bs = {} \<Longrightarrow> holds (release bs h) c v as"
  by (rule frame) (auto simp: restrict_map_def)

lemma survives_growth:
  assumes "holds h c v as" and "heap_ok h" and "grown h h' bs"
  shows "holds h' c v as"
proof (rule frame[OF assms(1)])
  show "\<forall>a \<in> set as. hobjs h' a = hobjs h a"
    using live[OF assms(1)] grown_keeps[OF assms(2,3)] by blast
qed

lemma copy_deep:
  assumes "holds h c v as" and "heap_ok h"
  shows "\<exists>c' h' bs. copy c h = Inr (c', h') \<and> holds h' c' v bs \<and> holds h' c v as \<and>
      distinct bs \<and> set bs \<inter> dom (hobjs h) = {} \<and> dom (hobjs h') = dom (hobjs h) \<union> set bs \<and> heap_ok h'"
proof -
  obtain c' h' bs where c: "copy c h = Inr (c', h')" "holds h' c' v bs" "grown h h' bs"
    using copied[OF assms] by blast
  then show ?thesis
    using survives_growth[OF assms c(3)] grown_ok[OF assms(2) c(3)] grown_fresh[OF assms(2) c(3)]
      grown_distinct[OF c(3)] grown_dom[OF c(3)] by blast
qed

text \<open>A temporary copy leaves no trace.\<close>

lemma copy_then_clear:
  assumes "holds h c v as" and "heap_ok h"
  shows "\<exists>c' h'. copy c h = Inr (c', h') \<and> (\<exists>h''. clear c' h' = Inr h'' \<and> hobjs h'' = hobjs h)"
proof -
  obtain c' h' bs where c: "copy c h = Inr (c', h')" "holds h' c' v bs" "grown h h' bs"
    using copied[OF assms] by blast
  have "hobjs h' |` (- set bs) = hobjs h"
  proof
    fix a
    show "(hobjs h' |` (- set bs)) a = hobjs h a"
    proof (cases "a \<in> set bs")
      case True
      then have "hobjs h a = None" using grown_fresh[OF assms(2) c(3)] by blast
      with True show ?thesis by simp
    next
      case False
      then have "hobjs h' a = hobjs h a"
        using grown_dom[OF c(3)] grown_keeps[OF assms(2) c(3), of a] by (metis Un_iff domIff)
      with False show ?thesis by simp
    qed
  qed
  moreover have "clear c' h' = Inr (release bs h')"
    using cleared[OF c(2) grown_distinct[OF c(3)]] .
  ultimately show ?thesis using c(1) by auto
qed

text \<open>Replacing one value by a copy of another that shares nothing with it.\<close>

lemma replaced:
  assumes old: "holds h c v as" "distinct as" and src: "holds h d w bs" "set as \<inter> set bs = {}"
    and ok: "heap_ok h"
  shows "\<exists>c' h' cs. clear c h = Inr (release as h) \<and> copy d (release as h) = Inr (c', h') \<and>
      holds h' c' w cs \<and> distinct cs \<and> set cs \<inter> dom (hobjs h) = {} \<and> holds h' d w bs \<and>
      dom (hobjs h') = (dom (hobjs h) - set as) \<union> set cs \<and>
      (\<forall>x \<in> dom (hobjs h) - set as. hobjs h' x = hobjs h x) \<and> heap_ok h'"
proof -
  have ok1: "heap_ok (release as h)" using ok by (auto simp: heap_ok_def)
  have d: "holds (release as h) d w bs" using survives_release[OF src(1)] src(2) by blast
  obtain c' h' cs where c: "copy d (release as h) = Inr (c', h')" "holds h' c' w cs"
    "grown (release as h) h' cs" using copied[OF d ok1] by blast
  have dom: "dom (hobjs h') = (dom (hobjs h) - set as) \<union> set cs"
    unfolding grown_dom[OF c(3)] by auto
  have keep: "hobjs h' x = hobjs h x" if "x \<in> dom (hobjs h) - set as" for x
    using that grown_keeps[OF ok1 c(3), of x] by (simp add: dom_def)
  have "set cs \<inter> dom (hobjs h) = {}"
    using c(3) ok unfolding grown_def heap_ok_def disjoint_iff release_simps
    by (meson atLeastLessThan_iff in_mono leD)
  with c dom keep cleared[OF old] survives_growth[OF d ok1 c(3)] grown_ok[OF ok1 c(3)] grown_distinct[OF c(3)]
  show ?thesis by blast
qed

end

interpretation val: owned_value
  "\<lambda>h c v as. reify_cell f (hobjs h) c = Some (v, as)" "copy_cell f" "clear_cell f" for f
proof unfold_locales
  fix h h' :: heap and c v as
  assume r: "reify_cell f (hobjs h) c = Some (v, as)"
  show "set as \<subseteq> dom (hobjs h)" using reify_live(1)[OF r] .
  show "\<forall>a \<in> set as. hobjs h' a = hobjs h a \<Longrightarrow> reify_cell f (hobjs h') c = Some (v, as)"
    using reify_frame(1)[OF r] by blast
  show "heap_ok h \<Longrightarrow> \<exists>c' h' bs. copy_cell f c h = Inr (c', h') \<and>
      reify_cell f (hobjs h') c' = Some (v, bs) \<and> grown h h' bs"
    using copy_replicates(1)[OF r] by blast
  show "distinct as \<Longrightarrow> clear_cell f c h = Inr (release as h)"
    using clear_releases(1)[OF r] by blast
qed

interpretation vals: owned_value
  "\<lambda>h cs vs as. reify_cells f (hobjs h) cs = Some (vs, as)" "copy_cells f" "clear_cells f" for f
proof unfold_locales
  fix h h' :: heap and c v as
  assume r: "reify_cells f (hobjs h) c = Some (v, as)"
  show "set as \<subseteq> dom (hobjs h)" using reify_live(2)[OF r] .
  show "\<forall>a \<in> set as. hobjs h' a = hobjs h a \<Longrightarrow> reify_cells f (hobjs h') c = Some (v, as)"
    using reify_frame(2)[OF r] by blast
  show "heap_ok h \<Longrightarrow> \<exists>c' h' bs. copy_cells f c h = Inr (c', h') \<and>
      reify_cells f (hobjs h') c' = Some (v, bs) \<and> grown h h' bs"
    using copy_replicates(2)[OF r] by blast
  show "distinct as \<Longrightarrow> clear_cells f c h = Inr (release as h)"
    using clear_releases(2)[OF r] by blast
qed

section \<open>Properties\<close>

lemma low_word: "(0xFFFFFFFF :: 64 word) = mask 32"
  by (simp add: mask_eq_exp_minus_1)

lemma union_bytes [simp]:
  "read_b (write_b b w) = b" "read_i (write_i i w) = i"
proof -
  show "read_b (write_b b w) = b"
    unfolding read_b_def write_b_def by (cases b) (simp_all add: bit.conj_disj_distrib2 and.assoc)
  show "read_i (write_i i w) = i"
    unfolding read_i_def write_i_def low_word
    by (rule bit_word_eqI) (auto simp: bit_simps)
qed

text \<open>Copying a variant (\<open>Variant(const Variant&)\<close>) succeeds, yields the same value, leaves
  the source as it was, and the copy owns only new objects, each once.\<close>
theorem copy_is_deep:
  assumes "heap_ok h" and "reify_cell f (hobjs h) c = Some (v, as)"
  shows "\<exists>c' h' bs. copy_cell f c h = Inr (c', h') \<and> reify_cell f (hobjs h') c' = Some (v, bs) \<and>
      reify_cell f (hobjs h') c = Some (v, as) \<and> distinct bs \<and> set bs \<inter> dom (hobjs h) = {} \<and>
      dom (hobjs h') = dom (hobjs h) \<union> set bs \<and> heap_ok h'"
  using val.copy_deep[OF assms(2,1)] .

definition sample_heap :: heap where
  "sample_heap = \<lparr>hnext = 3, hobjs = [0 \<mapsto> OList [\<lparr>m_type = Type_String, m_data = Ptr 1\<rparr>],
     1 \<mapsto> OStr ''hi'', 2 \<mapsto> OStr ''x'']\<rparr>"

lemma sample_heap_ok: "heap_ok sample_heap"
  by (simp add: heap_ok_def sample_heap_def)

lemma sample_list: "reify_cell 3 (hobjs sample_heap) \<lparr>m_type = Type_List, m_data = Ptr 0\<rparr> =
    Some (VList [VString ''hi''], [0, 1])"
  and sample_string: "reify_cell 3 (hobjs sample_heap) \<lparr>m_type = Type_String, m_data = Ptr 2\<rparr> =
    Some (VString ''x'', [2])"
  by (simp_all add: sample_heap_def eval_nat_numeral)

lemma copy_is_deep_witness:
  "\<exists>c' h' bs. copy_cell 3 \<lparr>m_type = Type_List, m_data = Ptr 0\<rparr> sample_heap = Inr (c', h') \<and>
      reify_cell 3 (hobjs h') c' = Some (VList [VString ''hi''], bs)"
  using copy_is_deep[OF sample_heap_ok sample_list] by blast

text \<open>C19: \<open>clear\<close>, and so the destructor, frees exactly the objects the variant owns: none
  leaks, none is freed twice, nothing else is touched.\<close>
theorem clear_frees_owned:
  assumes "reify_cell f (hobjs h) c = Some (v, as)" and "distinct as"
  shows "\<exists>h'. clear_cell f c h = Inr h' \<and> hobjs h' = hobjs h |` (- set as) \<and> hnext h' = hnext h"
  using val.cleared[OF assms] by simp

lemma clear_frees_owned_witness:
  "\<exists>h'. clear_cell 3 \<lparr>m_type = Type_List, m_data = Ptr 0\<rparr> sample_heap = Inr h' \<and>
     hobjs h' = hobjs sample_heap |` (- {0, 1})"
  using clear_frees_owned[OF sample_list] by auto

text \<open>A copy that is destroyed again leaves the objects of the heap as they were.\<close>
theorem copy_then_destroy:
  assumes "heap_ok h" and "reify_cell f (hobjs h) c = Some (v, as)"
  shows "\<exists>c' h' h''. copy_cell f c h = Inr (c', h') \<and> clear_cell f c' h' = Inr h'' \<and> hobjs h'' = hobjs h"
  using val.copy_then_clear[OF assms(2,1)] by blast

lemma copy_then_destroy_witness:
  "\<exists>c' h' h''. copy_cell 3 \<lparr>m_type = Type_List, m_data = Ptr 0\<rparr> sample_heap = Inr (c', h') \<and>
     clear_cell 3 c' h' = Inr h'' \<and> hobjs h'' = hobjs sample_heap"
  using copy_then_destroy[OF sample_heap_ok sample_list] .

text \<open>C18: assigning one variable to another that shares nothing with it gives the target the
  source's value in new objects, keeps the source, frees the target's old objects and changes no
  other object.\<close>
theorem assign_variant_correct:
  assumes "x \<noteq> y" and "vslots st x = Some c" and "vslots st y = Some d" and "heap_ok (vheap st)"
    and "reify_cell f (hobjs (vheap st)) c = Some (v, as)" and "distinct as"
    and "reify_cell f (hobjs (vheap st)) d = Some (w, bs)" and "set as \<inter> set bs = {}"
  shows "\<exists>c' h' cs. assign_variant f (Slot x) (Slot y) st = Inr (st\<lparr>vslots := (vslots st)(x \<mapsto> c'), vheap := h'\<rparr>) \<and>
      reify_cell f (hobjs h') c' = Some (w, cs) \<and> reify_cell f (hobjs h') d = Some (w, bs) \<and>
      distinct cs \<and> set cs \<inter> dom (hobjs (vheap st)) = {} \<and>
      dom (hobjs h') = (dom (hobjs (vheap st)) - set as) \<union> set cs \<and>
      (\<forall>a \<in> dom (hobjs (vheap st)) - set as. hobjs h' a = hobjs (vheap st) a)"
proof -
  from val.replaced[OF assms(5,6,7,8,4)] obtain c' h' cs where
    "clear_cell f c (vheap st) = Inr (release as (vheap st))"
    "copy_cell f d (release as (vheap st)) = Inr (c', h')" and rest:
    "reify_cell f (hobjs h') c' = Some (w, cs)" "distinct cs" "set cs \<inter> dom (hobjs (vheap st)) = {}"
    "reify_cell f (hobjs h') d = Some (w, bs)" "dom (hobjs h') = (dom (hobjs (vheap st)) - set as) \<union> set cs"
    "\<forall>a \<in> dom (hobjs (vheap st)) - set as. hobjs h' a = hobjs (vheap st) a" by blast
  then have "assign_variant f (Slot x) (Slot y) st = Inr (st\<lparr>vslots := (vslots st)(x \<mapsto> c'), vheap := h'\<rparr>)"
    using assms(1-3) by (cases st) (simp add: assign_variant_def clear_loc_def Let_def)
  with rest show ?thesis by blast
qed

definition sample_state :: vstate where
  "sample_state = \<lparr>vslots = [0 \<mapsto> \<lparr>m_type = Type_List, m_data = Ptr 0\<rparr>, 1 \<mapsto> \<lparr>m_type = Type_String, m_data = Ptr 2\<rparr>],
     vheap = sample_heap\<rparr>"

lemma sample_state_simps [simp]:
  "vslots sample_state 0 = Some \<lparr>m_type = Type_List, m_data = Ptr 0\<rparr>"
  "vslots sample_state (Suc 0) = Some \<lparr>m_type = Type_String, m_data = Ptr 2\<rparr>"
  "vheap sample_state = sample_heap"
  by (simp_all add: sample_state_def)

lemma assign_variant_correct_witness:
  "\<exists>c' h' cs. assign_variant 3 (Slot 0) (Slot 1) sample_state =
      Inr (sample_state\<lparr>vslots := (vslots sample_state)(0 \<mapsto> c'), vheap := h'\<rparr>) \<and>
     reify_cell 3 (hobjs h') c' = Some (VString ''x'', cs)"
proof -
  have "vslots sample_state 1 = Some \<lparr>m_type = Type_String, m_data = Ptr 2\<rparr>" by simp
  from assign_variant_correct[OF _ sample_state_simps(1) this, of 3] show ?thesis
    using sample_heap_ok sample_list sample_string unfolding sample_state_simps by fastforce
qed

text \<open>C37: assigning a variant from a part of itself, an element or an entry of a list or map it
  owns at any depth (\<open>v = v.list()[i]\<close>), reads the part after \<open>clear\<close> has deleted it.\<close>
theorem assign_from_inside_dangling:
  assumes "vslots st x = Some c" and "reify_cell f (hobjs (vheap st)) c = Some (v, as)"
    and "distinct as" and "a \<in> set as"
  shows "assign_variant f (Slot x) (Elem a i) st = Inl Dangling \<and>
    assign_variant f (Slot x) (Entry a i) st = Inl Dangling"
  using val.cleared[OF assms(2,3)] assms(1,4) by (simp add: assign_variant_def clear_loc_def)

lemma assign_from_inside_dangling_witness:
  "assign_variant 3 (Slot 0) (Elem 0 0) sample_state = Inl Dangling"
  using assign_from_inside_dangling[OF sample_state_simps(1), of 3 _ "[0, 1]" 0 0] sample_list by auto



section \<open>Typed assignments\<close>

text \<open>The objects \<open>as\<close> have been replaced by \<open>bs\<close>; every other object is as it was.\<close>

definition swapped :: "heap \<Rightarrow> heap \<Rightarrow> addr list \<Rightarrow> addr list \<Rightarrow> bool" where
  "swapped h h' as bs \<longleftrightarrow> distinct bs \<and> set bs \<inter> (dom (hobjs h) - set as) = {} \<and>
     dom (hobjs h') = (dom (hobjs h) - set as) \<union> set bs \<and>
     (\<forall>a \<in> dom (hobjs h) - set as. hobjs h' a = hobjs h a) \<and> (heap_ok h \<longrightarrow> heap_ok h')"

lemma release_ok: "heap_ok h \<Longrightarrow> heap_ok (release as h)"
  by (simp add: heap_ok_def)

lemma swapped_release: "swapped h (release as h) as []"
  by (auto simp: swapped_def release_ok)

lemma swapped_grown:
  assumes "heap_ok h" and "grown (release as h) h' bs"
  shows "swapped h h' as bs"
  unfolding swapped_def
proof (intro conjI)
  have dom: "dom (hobjs (release as h)) = dom (hobjs h) - set as" by auto
  show "distinct bs" using grown_distinct[OF assms(2)] .
  show "set bs \<inter> (dom (hobjs h) - set as) = {}" using grown_fresh[OF release_ok[OF assms(1)] assms(2)] dom by simp
  show "dom (hobjs h') = (dom (hobjs h) - set as) \<union> set bs" using grown_dom[OF assms(2)] dom by simp
  show "\<forall>a \<in> dom (hobjs h) - set as. hobjs h' a = hobjs h a"
  proof
    fix a assume a: "a \<in> dom (hobjs h) - set as"
    then have "hobjs h' a = hobjs (release as h) a"
      using grown_keeps[OF release_ok[OF assms(1)] assms(2)] dom by blast
    with a show "hobjs h' a = hobjs h a" by simp
  qed
  show "heap_ok h \<longrightarrow> heap_ok h'" using grown_ok[OF release_ok[OF assms(1)] assms(2)] by blast
qed

lemma fuel_Suc: "Suc f \<le> g \<Longrightarrow> \<exists>k. g = Suc k \<and> f \<le> k"
  by (cases g) auto

lemma reify_mono:
  "reify_cell f H c = Some (v, as) \<Longrightarrow> \<forall>g \<ge> f. reify_cell g H c = Some (v, as)"
  "reify_cells f H cs = Some (vs, as) \<Longrightarrow> \<forall>g \<ge> f. reify_cells g H cs = Some (vs, as)"
proof (induction rule: reify_induct)
  case (scalar f c v)
  show ?case
  proof (intro allI impI)
    fix g assume "Suc f \<le> g"
    then obtain k where "g = Suc k" by (auto dest: fuel_Suc)
    with scalar(1,2) show "reify_cell g H c = Some (v, [])"
      by (cases "m_type c") (simp_all add: is_scalar_def)
  qed
next
  case (string f c a s) then show ?case by (auto dest!: fuel_Suc)
next
  case (list f c a cs vs as) then show ?case by (auto dest!: fuel_Suc)
next
  case (map f c a m vs as) then show ?case by (auto dest!: fuel_Suc)
qed auto

lemma reify_scalar:
  assumes "reify_cell f H c = Some (v, as)" and "is_scalar (m_type c)"
  shows "as = []"
  using assms by (cases f; cases "m_type c") (auto simp: is_scalar_def split: udata.splits)

lemma assign_variant_swaps:
  assumes "x \<noteq> y" and "vslots st x = Some c" and "vslots st y = Some d" and "heap_ok (vheap st)"
    and "reify_cell f (hobjs (vheap st)) c = Some (v, as)" and "distinct as"
    and "reify_cell f (hobjs (vheap st)) d = Some (w, bs)" and "set as \<inter> set bs = {}"
  shows "\<exists>c' h' cs. assign_variant f (Slot x) (Slot y) st = Inr (st\<lparr>vslots := (vslots st)(x \<mapsto> c'), vheap := h'\<rparr>) \<and>
      swapped (vheap st) h' as cs \<and> reify_cell f (hobjs h') c' = Some (w, cs)"
proof -
  have d: "reify_cell f (hobjs (release as (vheap st))) d = Some (w, bs)"
    using val.survives_release[OF assms(7)] assms(8) by blast
  obtain c' h' cs where n: "copy_cell f d (release as (vheap st)) = Inr (c', h')" "reify_cell f (hobjs h') c' = Some (w, cs)"
    "grown (release as (vheap st)) h' cs" using val.copied[OF d release_ok[OF assms(4)]] by blast
  have "assign_variant f (Slot x) (Slot y) st = Inr (st\<lparr>vslots := (vslots st)(x \<mapsto> c'), vheap := h'\<rparr>)"
    using assms(1-3) n(1) val.cleared[OF assms(5,6)] by (cases st) (simp add: assign_variant_def clear_loc_def Let_def)
  then show ?thesis using n(2) swapped_grown[OF assms(4) n(3)] by blast
qed

lemma retype_holds:
  assumes "reify_cell f (hobjs h) c = Some (v, as)" and "distinct as" and "is_scalar t"
  shows "\<exists>c'. retype f t c h = Inr (c', release as h) \<and> m_type c' = t"
proof (cases "m_type c = t")
  case True
  with reify_scalar[OF assms(1)] assms(3) show ?thesis by (simp add: retype_def)
next
  case False
  then show ?thesis using val.cleared[OF assms(1,2)] by (simp add: retype_def)
qed

text \<open>Assigning a boolean, an integer or a real to any variant frees what it owned and makes
  it that value, whatever bytes the union held before.\<close>
theorem assign_scalar_correct:
  assumes "reify_cell f (hobjs h) c = Some (v, as)" and "distinct as"
  shows "(\<exists>c' h'. assign_bool f b c h = Inr (c', h') \<and> swapped h h' as [] \<and>
        reify_cell 1 (hobjs h') c' = Some (VBoolean b, [])) \<and>
    (\<exists>c' h'. assign_int f i c h = Inr (c', h') \<and> swapped h h' as [] \<and>
        reify_cell 1 (hobjs h') c' = Some (VInteger i, [])) \<and>
    (\<exists>c' h'. assign_real f d c h = Inr (c', h') \<and> swapped h h' as [] \<and>
        reify_cell 1 (hobjs h') c' = Some (VReal d, []))"
proof -
  have "\<exists>c'. retype f t c h = Inr (c', release as h) \<and> m_type c' = t" if "is_scalar t" for t
    using retype_holds[OF assms that] .
  from this[of Type_Boolean] this[of Type_Integer] this[of Type_Real] show ?thesis
    by (auto simp: is_scalar_def assign_bool_def assign_int_def assign_real_def swapped_release)
qed

lemma assign_scalar_correct_witness:
  "\<exists>c' h'. assign_int 3 7 \<lparr>m_type = Type_List, m_data = Ptr 0\<rparr> sample_heap = Inr (c', h') \<and>
     swapped sample_heap h' [0, 1] [] \<and> reify_cell 1 (hobjs h') c' = Some (VInteger 7, [])"
  using assign_scalar_correct[OF sample_list] by simp


lemma mk_list_holds:
  assumes "reify_cells f (hobjs h) cs = Some (ws, bs)" and "heap_ok h"
  shows "\<exists>c' h' bs'. mk_list f cs h = Inr (c', h') \<and> grown h h' bs' \<and>
     reify_cell (Suc f) (hobjs h') c' = Some (VList ws, bs')"
proof -
  obtain cs' h1 bs' where c: "copy_cells f cs h = Inr (cs', h1)"
    "reify_cells f (hobjs h1) cs' = Some (ws, bs')" "grown h h1 bs'" using vals.copied[OF assms] by blast
  obtain a h2 where new: "new_obj (OList cs') h1 = (a, h2)" by (cases "new_obj (OList cs') h1")
  have "reify_cells f (hobjs h2) cs' = Some (ws, bs')"
    using vals.survives_growth[OF c(2) grown_ok[OF assms(2) c(3)] grown_new[OF new]] .
  moreover have "hobjs h2 a = Some (OList cs')" using new by (auto simp: new_obj_def)
  moreover have "grown h h2 (a # bs')" using grown_trans[OF c(3) grown_new[OF new]] by (simp add: grown_snoc)
  ultimately show ?thesis using c new by (simp add: mk_list_def)
qed

lemma mk_map_holds:
  assumes "reify_cells f (hobjs h) (map snd m) = Some (ws, bs)" and "heap_ok h"
  shows "\<exists>c' h' bs'. mk_map f m h = Inr (c', h') \<and> grown h h' bs' \<and>
     reify_cell (Suc f) (hobjs h') c' = Some (VMap (zip (map fst m) ws), bs')"
proof -
  obtain cs' h1 bs' where c: "copy_cells f (map snd m) h = Inr (cs', h1)"
    "reify_cells f (hobjs h1) cs' = Some (ws, bs')" "grown h h1 bs'" using vals.copied[OF assms] by blast
  let ?m = "zip (map fst m) cs'"
  obtain a h2 where new: "new_obj (OMap ?m) h1 = (a, h2)" by (cases "new_obj (OMap ?m) h1")
  have "length cs' = length m"
    using length_reify_cells[OF assms(1)] length_reify_cells[OF c(2)] by simp
  then have m: "map fst ?m = map fst m" "map snd ?m = cs'" by simp_all
  have "reify_cells f (hobjs h2) cs' = Some (ws, bs')"
    using vals.survives_growth[OF c(2) grown_ok[OF assms(2) c(3)] grown_new[OF new]] .
  moreover have "hobjs h2 a = Some (OMap ?m)" using new by (auto simp: new_obj_def)
  moreover have "grown h h2 (a # bs')" using grown_trans[OF c(3) grown_new[OF new]] by (simp add: grown_snoc)
  ultimately show ?thesis using c new m by (simp add: mk_map_def)
qed

text \<open>The assignment of a container to a container of the same type.\<close>

lemma overwrite:
  assumes old: "reify_cells f (hobjs h) old = Some (vs, as)" "distinct (a # as)"
    and src: "reify_cells f (hobjs h) cs = Some (ws, bs)" and ok: "heap_ok h" and a: "hobjs h a = Some obj"
  shows "\<exists>cs' h1 h2 bs'. copy_cells f cs h = Inr (cs', h1) \<and> clear_cells f old h1 = Inr h2 \<and>
     length cs' = length cs \<and> (\<forall>obj'. swapped h (h2\<lparr>hobjs := (hobjs h2)(a := Some obj')\<rparr>) (a # as) (a # bs') \<and>
     reify_cells f ((hobjs h2)(a := Some obj')) cs' = Some (ws, bs'))"
proof -
  obtain cs' h1 bs' where c: "copy_cells f cs h = Inr (cs', h1)"
    "reify_cells f (hobjs h1) cs' = Some (ws, bs')" "grown h h1 bs'" using vals.copied[OF src ok] by blast
  have clear: "clear_cells f old h1 = Inr (release as h1)"
    using vals.cleared[OF vals.survives_growth[OF old(1) ok c(3)]] old(2) by simp
  have fresh: "set bs' \<inter> dom (hobjs h) = {}" using grown_fresh[OF ok c(3)] .
  have owned: "set as \<subseteq> dom (hobjs h)" using vals.live[OF old(1)] .
  have na: "a \<notin> set bs'" using fresh a by blast
  have len: "length cs' = length cs" using length_reify_cells[OF src] length_reify_cells[OF c(2)] by simp
  let ?h = "\<lambda>obj'. (release as h1)\<lparr>hobjs := (hobjs (release as h1))(a := Some obj')\<rparr>"
  have "reify_cells f (hobjs (?h obj')) cs' = Some (ws, bs')" for obj'
    by (rule vals.frame[OF c(2)]) (use fresh owned na in \<open>auto simp: disjoint_iff restrict_map_def\<close>)
  moreover have "swapped h (?h obj') (a # as) (a # bs')" for obj'
    unfolding swapped_def
  proof (intro conjI ballI)
    show "distinct (a # bs')" using na grown_distinct[OF c(3)] by simp
    show "set (a # bs') \<inter> (dom (hobjs h) - set (a # as)) = {}" using fresh by auto
    have "dom (hobjs (?h obj')) = insert a (dom (hobjs h1) - set as)" by auto
    then show "dom (hobjs (?h obj')) = dom (hobjs h) - set (a # as) \<union> set (a # bs')"
      using grown_dom[OF c(3)] fresh owned by auto
    show "heap_ok h \<longrightarrow> heap_ok (?h obj')"
    proof
      have "heap_ok h1" using grown_ok[OF ok c(3)] .
      moreover have "hobjs h1 a = Some obj" using grown_keeps[OF ok c(3), of a] a by auto
      ultimately show "heap_ok (?h obj')" by (auto simp: heap_ok_def)
    qed
    fix x assume "x \<in> dom (hobjs h) - set (a # as)"
    then show "hobjs (?h obj') x = hobjs h x" using grown_keeps[OF ok c(3), of x] by simp
  qed
  ultimately show ?thesis using c(1) clear len by auto
qed


lemma reify_typed:
  assumes "reify_cell f (hobjs h) c = Some (v, as)"
  shows "m_type c = Type_String \<Longrightarrow> \<exists>a s. m_data c = Ptr a \<and> hobjs h a = Some (OStr s) \<and> as = [a]"
    and "m_type c = Type_List \<Longrightarrow> \<exists>a cs vs bs. m_data c = Ptr a \<and> hobjs h a = Some (OList cs) \<and>
      as = a # bs \<and> reify_cells f (hobjs h) cs = Some (vs, bs)"
    and "m_type c = Type_Map \<Longrightarrow> \<exists>a m vs bs. m_data c = Ptr a \<and> hobjs h a = Some (OMap m) \<and>
      as = a # bs \<and> reify_cells f (hobjs h) (map snd m) = Some (vs, bs)"
proof -
  obtain g where g: "f = Suc g" using assms by (cases f) auto
  have more: "reify_cells g (hobjs h) cs = Some r \<Longrightarrow> reify_cells (Suc g) (hobjs h) cs = Some r" for cs r
    using reify_mono(2)[of g "hobjs h" cs "fst r" "snd r"] by simp
  show "m_type c = Type_String \<Longrightarrow> \<exists>a s. m_data c = Ptr a \<and> hobjs h a = Some (OStr s) \<and> as = [a]"
    using assms unfolding g by (auto split: option.splits hobj.splits prod.splits dest!: deref_SomeE)
  show "m_type c = Type_List \<Longrightarrow> \<exists>a cs vs bs. m_data c = Ptr a \<and> hobjs h a = Some (OList cs) \<and>
      as = a # bs \<and> reify_cells f (hobjs h) cs = Some (vs, bs)"
    using assms unfolding g
    by (auto split: option.splits hobj.splits prod.splits dest!: deref_SomeE dest: more)
  show "m_type c = Type_Map \<Longrightarrow> \<exists>a m vs bs. m_data c = Ptr a \<and> hobjs h a = Some (OMap m) \<and>
      as = a # bs \<and> reify_cells f (hobjs h) (map snd m) = Some (vs, bs)"
    using assms unfolding g
    by (auto split: option.splits hobj.splits prod.splits dest!: deref_SomeE dest: more)
qed

text \<open>Assigning a list that is not part of the variant gives it a deep copy of that list,
  and frees what it owned; a variant that already was a list keeps its list object.\<close>
theorem assign_list_correct:
  assumes "reify_cell f (hobjs h) c = Some (v, as)" and "distinct as" and "heap_ok h"
    and "reify_cells f (hobjs h) cs = Some (ws, bs)" and "set as \<inter> set bs = {}"
  shows "\<exists>c' h' bs'. assign_list f cs c h = Inr (c', h') \<and> swapped h h' as bs' \<and>
     reify_cell (Suc f) (hobjs h') c' = Some (VList ws, bs')"
proof (cases "m_type c = Type_List")
  case True
  obtain a old vs rest where old: "m_data c = Ptr a" "hobjs h a = Some (OList old)" "as = a # rest"
    "reify_cells f (hobjs h) old = Some (vs, rest)" using reify_typed(2)[OF assms(1) True] by blast
  from assms(2) old(3) have d: "distinct (a # rest)" by simp
  obtain cs' h1 h2 bs' where new: "copy_cells f cs h = Inr (cs', h1)" "clear_cells f old h1 = Inr h2"
    "\<And>obj'. swapped h (h2\<lparr>hobjs := (hobjs h2)(a := Some obj')\<rparr>) as (a # bs')"
    "\<And>obj'. reify_cells f ((hobjs h2)(a := Some obj')) cs' = Some (ws, bs')"
    using overwrite[OF old(4) d assms(4,3) old(2)] old(3) by blast
  let ?h = "h2\<lparr>hobjs := (hobjs h2)(a := Some (OList cs'))\<rparr>"
  have "assign_list f cs c h = Inr (c, ?h)" using True old new(1,2) by (simp add: assign_list_def)
  moreover have "reify_cell (Suc f) (hobjs ?h) c = Some (VList ws, a # bs')" using True old new(4) by simp
  ultimately show ?thesis using new(3) by blast
next
  case False
  have src: "reify_cells f (hobjs (release as h)) cs = Some (ws, bs)"
    using vals.survives_release[OF assms(4)] assms(5) by blast
  from mk_list_holds[OF src release_ok[OF assms(3)]] show ?thesis
    using False val.cleared[OF assms(1,2)] swapped_grown[OF assms(3)]
    by (simp add: assign_list_def del: reify_cell.simps) blast
qed

text \<open>Assigning a map that is not part of the variant gives it a deep copy of that map with
  the same keys, and frees what it owned.\<close>
theorem assign_map_correct:
  assumes "reify_cell f (hobjs h) c = Some (v, as)" and "distinct as" and "heap_ok h"
    and "reify_cells f (hobjs h) (map snd m) = Some (ws, bs)" and "set as \<inter> set bs = {}"
  shows "\<exists>c' h' bs'. assign_map f m c h = Inr (c', h') \<and> swapped h h' as bs' \<and>
     reify_cell (Suc f) (hobjs h') c' = Some (VMap (zip (map fst m) ws), bs')"
proof (cases "m_type c = Type_Map")
  case True
  obtain a old vs rest where old: "m_data c = Ptr a" "hobjs h a = Some (OMap old)" "as = a # rest"
    "reify_cells f (hobjs h) (map snd old) = Some (vs, rest)" using reify_typed(3)[OF assms(1) True] by blast
  from assms(2) old(3) have d: "distinct (a # rest)" by simp
  obtain cs' h1 h2 bs' where new: "copy_cells f (map snd m) h = Inr (cs', h1)"
    "clear_cells f (map snd old) h1 = Inr h2" "length cs' = length (map snd m)"
    "\<And>obj'. swapped h (h2\<lparr>hobjs := (hobjs h2)(a := Some obj')\<rparr>) as (a # bs')"
    "\<And>obj'. reify_cells f ((hobjs h2)(a := Some obj')) cs' = Some (ws, bs')"
    using overwrite[OF old(4) d assms(4,3) old(2)] old(3) by blast
  let ?h = "h2\<lparr>hobjs := (hobjs h2)(a := Some (OMap (zip (map fst m) cs')))\<rparr>"
  have "assign_map f m c h = Inr (c, ?h)" using True old new(1,2) by (simp add: assign_map_def)
  moreover have "reify_cell (Suc f) (hobjs ?h) c = Some (VMap (zip (map fst m) ws), a # bs')"
    using True old new(3,5) by simp
  ultimately show ?thesis using new(4) by blast
next
  case False
  have src: "reify_cells f (hobjs (release as h)) (map snd m) = Some (ws, bs)"
    using vals.survives_release[OF assms(4)] assms(5) by blast
  from mk_map_holds[OF src release_ok[OF assms(3)]] show ?thesis
    using False val.cleared[OF assms(1,2)] swapped_grown[OF assms(3)]
    by (simp add: assign_map_def del: reify_cell.simps) blast
qed


lemma sample_elems: "reify_cells 3 (hobjs sample_heap) [\<lparr>m_type = Type_String, m_data = Ptr 2\<rparr>] =
    Some ([VString ''x''], [2])"
  by (simp add: sample_heap_def eval_nat_numeral)

lemma assign_list_correct_witness:
  "\<exists>c' h' bs'. assign_list 3 [\<lparr>m_type = Type_String, m_data = Ptr 2\<rparr>] \<lparr>m_type = Type_List, m_data = Ptr 0\<rparr>
       sample_heap = Inr (c', h') \<and> swapped sample_heap h' [0, 1] bs' \<and>
     reify_cell (Suc 3) (hobjs h') c' = Some (VList [VString ''x''], bs')"
  by (rule assign_list_correct[OF sample_list _ sample_heap_ok sample_elems]) simp_all

lemma assign_map_correct_witness:
  "\<exists>c' h' bs'. assign_map 3 [(''k'', \<lparr>m_type = Type_String, m_data = Ptr 2\<rparr>)]
       \<lparr>m_type = Type_List, m_data = Ptr 0\<rparr> sample_heap = Inr (c', h') \<and>
     swapped sample_heap h' [0, 1] bs' \<and>
     reify_cell (Suc 3) (hobjs h') c' = Some (VMap [(''k'', VString ''x'')], bs')"
  using assign_map_correct[OF sample_list _ sample_heap_ok, of "[(''k'', \<lparr>m_type = Type_String, m_data = Ptr 2\<rparr>)]"]
    sample_elems by (simp del: reify_cell.simps)

text \<open>Assigning a string gives the variant that string in an object of its own and frees what
  it owned before, if the argument does not refer to a string the variant owns, or the variant is
  itself a string.\<close>
theorem assign_string_correct:
  assumes "reify_cell f (hobjs h) c = Some (v, as)" and "distinct as" and "heap_ok h"
    and "read_sref h arg = Some s"
    and "m_type c = Type_String \<or> (\<forall>a \<in> set as. arg \<noteq> Inside a)"
  shows "\<exists>c' h' bs. assign_string f arg c h = Inr (c', h') \<and> swapped h h' as bs \<and>
     reify_cell 1 (hobjs h') c' = Some (VString s, bs)"
proof (cases "m_type c = Type_String")
  case True
  obtain a old where old: "m_data c = Ptr a" "hobjs h a = Some (OStr old)" "as = [a]"
    using reify_typed(1)[OF assms(1) True] by blast
  let ?h = "h\<lparr>hobjs := (hobjs h)(a := Some (OStr s))\<rparr>"
  have "assign_string f arg c h = Inr (c, ?h)" using True old assms(4) by (simp add: assign_string_def)
  moreover have "swapped h ?h as [a]" using old by (auto simp: swapped_def heap_ok_def)
  ultimately show ?thesis using True old by simp
next
  case False
  have read: "read_sref (release as h) arg = Some s"
    using assms(4,5) False by (cases arg) (auto simp: restrict_map_def)
  obtain a h2 where new: "new_obj (OStr s) (release as h) = (a, h2)" by (cases "new_obj (OStr s) (release as h)")
  then have "hobjs h2 a = Some (OStr s)" by (auto simp: new_obj_def)
  with new read False val.cleared[OF assms(1,2)] swapped_grown[OF assms(3) grown_new[OF new]]
  show ?thesis by (simp add: assign_string_def)
qed

lemma assign_string_correct_witness:
  "\<exists>c' h' bs. assign_string 3 (Inside 2) \<lparr>m_type = Type_List, m_data = Ptr 0\<rparr> sample_heap = Inr (c', h') \<and>
     swapped sample_heap h' [0, 1] bs \<and> reify_cell 1 (hobjs h') c' = Some (VString ''x'', bs)"
  by (rule assign_string_correct[OF sample_list _ sample_heap_ok]) (simp_all add: sample_heap_def)

text \<open>Assigning a string variant's text to a list or map variant that owns that string, as in
  \<open>v = v.list().front().string()\<close>, reads the string after it has been deleted.\<close>
theorem assign_own_string_dangling:
  assumes "reify_cell f (hobjs h) c = Some (v, as)" and "distinct as"
    and "m_type c \<noteq> Type_String" and "a \<in> set as"
  shows "assign_string f (Inside a) c h = Inl Dangling"
  using val.cleared[OF assms(1,2)] assms(3,4) by (simp add: assign_string_def)

lemma assign_own_string_dangling_witness:
  "assign_string 3 (Inside 1) \<lparr>m_type = Type_List, m_data = Ptr 0\<rparr> sample_heap = Inl Dangling"
  by (rule assign_own_string_dangling[OF sample_list]) simp_all

text \<open>Every constructor yields the value it is called for, in new objects: the default one an
  invalid variant, \<open>Variant(Type)\<close> the empty value of the type, the others their argument,
  whatever bytes the union held.\<close>
theorem constructors_correct:
  "reify_cell 1 H mk_default = Some (VInvalid, []) \<and>
   (\<exists>c h' as. mk_type t h = (c, h') \<and> grown h h' as \<and>
      reify_cell 2 (hobjs h') c = Some (variant_of_type t, as)) \<and>
   reify_cell 1 H (mk_bool junk b) = Some (VBoolean b, []) \<and>
   reify_cell 1 H (mk_int junk i) = Some (VInteger i, []) \<and>
   reify_cell 1 H (mk_real d) = Some (VReal d, []) \<and>
   (\<exists>c h' as. mk_string s h = (c, h') \<and> grown h h' as \<and> reify_cell 1 (hobjs h') c = Some (VString s, as))"
proof -
  have obj: "\<exists>a h'. new_obj ob h = (a, h') \<and> grown h h' [a] \<and> hobjs h' a = Some ob" for ob
    using grown_new[of ob h] by (auto simp: new_obj_def)
  have "\<exists>c h' as. mk_type t h = (c, h') \<and> grown h h' as \<and>
      reify_cell 2 (hobjs h') c = Some (variant_of_type t, as)"
    using obj[of "OStr []"] obj[of "OList []"] obj[of "OMap []"] grown_refl[of h]
    by (cases t) (auto simp: mk_type_def eval_nat_numeral read_b_def read_i_def)
  moreover have "\<exists>c h' as. mk_string s h = (c, h') \<and> grown h h' as \<and>
      reify_cell 1 (hobjs h') c = Some (VString s, as)"
    using obj[of "OStr s"] by (auto simp: mk_string_def)
  ultimately show ?thesis
    by (simp add: mk_default_def mk_bool_def mk_int_def mk_real_def)
qed



section \<open>A list assigned to its own element\<close>

lemma reify_cells_append:
  "reify_cells f H (xs @ ys) = Some (vs, as) \<Longrightarrow> \<exists>vs1 vs2 as1 as2. as = as1 @ as2 \<and>
     reify_cells f H xs = Some (vs1, as1) \<and> reify_cells f H ys = Some (vs2, as2)"
proof (induction xs arbitrary: vs as)
  case (Cons x xs)
  then obtain v bs ws cs where x: "reify_cell f H x = Some (v, bs)" "as = bs @ cs"
    "reify_cells f H (xs @ ys) = Some (ws, cs)" by (auto split: option.splits)
  with Cons.IH[OF x(3)] show ?case by fastforce
qed simp

lemma copy_cells_append:
  "copy_cells f xs h = Inr (xs', h1) \<Longrightarrow> copy_cells f ys h1 = Inl e \<Longrightarrow> copy_cells f (xs @ ys) h = Inl e"
  by (induction xs arbitrary: h xs') (auto split: sum.splits)

lemma reify_cells_nth:
  assumes "reify_cells f H cs = Some (vs, as)" and "i < length cs"
  shows "\<exists>vs1 v as1 as2 as3. as = as1 @ as2 @ as3 \<and> reify_cells f H (take i cs) = Some (vs1, as1) \<and>
    reify_cell f H (cs ! i) = Some (v, as2)"
proof -
  have "cs = take i cs @ cs ! i # drop (Suc i) cs" using id_take_nth_drop[OF assms(2)] .
  then obtain vs1 vs2 as1 bs where s: "as = as1 @ bs" "reify_cells f H (take i cs) = Some (vs1, as1)"
    "reify_cells f H (cs ! i # drop (Suc i) cs) = Some (vs2, bs)"
    using reify_cells_append[of f H "take i cs" "cs ! i # drop (Suc i) cs" vs as] assms(1) by metis
  from s(3) obtain v as2 as3 where "reify_cell f H (cs ! i) = Some (v, as2)" "bs = as2 @ as3"
    by (auto split: option.splits)
  with s(1,2) show ?thesis by blast
qed

text \<open>Assigning a list variant to one of its own elements (\<open>v.list()[i] = v\<close>) copies a
  list that contains the element being assigned, whose type is already that of a list while its
  pointer is null: a null pointer is dereferenced.\<close>
theorem assign_to_own_element_dangling:
  assumes "vslots st x = Some c" and "m_type c = Type_List" and "m_data c = Ptr a"
    and "hobjs (vheap st) a = Some (OList cs)" and "i < length cs" and "heap_ok (vheap st)"
    and "reify_cell f (hobjs (vheap st)) c = Some (v, as)" and "distinct as"
  shows "assign_variant f (Elem a i) (Slot x) st = Inl Dangling"
proof -
  let ?h = "vheap st" and ?bad = "cleared\<lparr>m_type := Type_List\<rparr>"
  obtain g where g: "f = Suc g" using assms(7) by (cases f) auto
  obtain vs bs where cells: "reify_cells g (hobjs ?h) cs = Some (vs, bs)" and as: "as = a # bs"
    using assms(2-4,7) unfolding g by (auto split: option.splits)
  from reify_cells_nth[OF cells assms(5)] obtain vs1 w as1 as2 as3 where
    parts: "bs = as1 @ as2 @ as3" "reify_cells g (hobjs ?h) (take i cs) = Some (vs1, as1)"
    "reify_cell g (hobjs ?h) (cs ! i) = Some (w, as2)" by blast
  obtain k where k: "g = Suc k" using parts(3) by (cases g) auto
  have "reify_cell f (hobjs ?h) (cs ! i) = Some (w, as2)" using reify_mono(1)[OF parts(3)] g by (metis le_SucI order_refl)
  then have clear: "clear_cell f (cs ! i) ?h = Inr (release as2 ?h)"
    using val.cleared assms(8) as parts(1) by simp
  let ?g = "(release as2 ?h)\<lparr>hobjs := (hobjs (release as2 ?h))(a := Some (OList (cs[i := ?bad])))\<rparr>"
  have ok: "heap_ok ?g" using assms(4,6) by (auto simp: heap_ok_def)
  have na: "a \<notin> set as2" "a \<notin> set as1" "set as1 \<inter> set as2 = {}" using assms(8) as parts(1) by auto
  have "reify_cells g (hobjs ?g) (take i cs) = Some (vs1, as1)"
    by (rule vals.frame[OF parts(2)]) (use na in \<open>auto simp: disjoint_iff restrict_map_def\<close>)
  from vals.copied[OF this ok] obtain pre h1 where "copy_cells g (take i cs) ?g = Inr (pre, h1)" by blast
  moreover have "copy_cells g (?bad # drop (Suc i) cs) h1 = Inl Dangling"
    unfolding k by (simp add: cleared_def)
  ultimately have "copy_cells g (cs[i := ?bad]) ?g = Inl Dangling"
    unfolding upd_conv_take_nth_drop[OF assms(5)] by (rule copy_cells_append)
  then have copy: "copy_cell f c ?g = Inl Dangling" using assms(2,3) g by simp
  show ?thesis
    using assms(1-5) clear copy na(1) by (simp add: assign_variant_def clear_loc_def Let_def)
qed

lemma assign_to_own_element_dangling_witness:
  "assign_variant 3 (Elem 0 0) (Slot 0) sample_state = Inl Dangling"
proof -
  have "hobjs sample_heap 0 = Some (OList [\<lparr>m_type = Type_String, m_data = Ptr 1\<rparr>])"
    by (simp add: sample_heap_def)
  from assign_to_own_element_dangling[OF sample_state_simps(1), of 0 _ 0 3, unfolded sample_state_simps, OF _ _ this]
  show ?thesis using sample_heap_ok sample_list by force
qed


end
