(* ===== verification/VariantPrograms.thy ===== *)
theory VariantPrograms
  imports VariantHeapProofs
begin

text \<open>
  Programs over variables of type \<open>Variant\<close>: any sequence of declarations, copies, assignments
  and ends of scope, run on the memory model of \<open>VariantHeap\<close> and on plain values. The
  result is that the memory model is type safe and refines the values: no such program gets stuck,
  every variable represents its value, no two variables share an object, and every object on the
  heap is owned by a variable.
\<close>

section \<open>Programs\<close>

text \<open>
  \<open>VSetList x ys\<close> stands for \<open>{ VariantList l; l.push_back(y); ... x = l; }\<close>, and \<open>VSetMap\<close> for the
  same with a map, whose entries are given in the order of their keys. \<open>junk\<close> is what the union
  of a new scalar holds.
\<close>

datatype vstmt =
    VNew nat
  | VNewType nat vtype
  | VNewBool nat "64 word" bool
  | VNewInt nat "64 word" int32
  | VNewReal nat double
  | VNewString nat string
  | VNewCString nat "char list"
  | VCopy nat nat
  | VDelete nat
  | VAssign nat nat
  | VSetBool nat bool
  | VSetInt nat int32
  | VSetReal nat double
  | VSetString nat string
  | VSetCString nat "char list"
  | VSetList nat "nat list"
  | VSetMap nat "(string \<times> nat) list"

definition declared :: "nat \<Rightarrow> vcell \<times> heap \<Rightarrow> vstate \<Rightarrow> herror + vstate" where
  "declared x r st = (case r of (c, h) \<Rightarrow> Inr (st\<lparr>vslots := (vslots st)(x \<mapsto> c), vheap := h\<rparr>))"

definition stored :: "nat \<Rightarrow> herror + vcell \<times> heap \<Rightarrow> vstate \<Rightarrow> herror + vstate" where
  "stored x r st = (case r of Inl e \<Rightarrow> Inl e | Inr ch \<Rightarrow> declared x ch st)"

definition with_var :: "nat \<Rightarrow> (vcell \<Rightarrow> herror + vstate) \<Rightarrow> vstate \<Rightarrow> herror + vstate" where
  "with_var x k st = (case vslots st x of None \<Rightarrow> Inl Dangling | Some c \<Rightarrow> k c)"

fun cells_of :: "vstate \<Rightarrow> nat list \<Rightarrow> vcell list option" where
  "cells_of st [] = Some []"
| "cells_of st (y # ys) = (case (vslots st y, cells_of st ys) of (Some c, Some cs) \<Rightarrow> Some (c # cs) | _ \<Rightarrow> None)"

text \<open>A container of copies, its use, and its destruction.\<close>

definition with_temp :: "nat \<Rightarrow> vcell list \<Rightarrow> heap \<Rightarrow> (vcell list \<Rightarrow> heap \<Rightarrow> herror + vcell \<times> heap) \<Rightarrow> herror + vcell \<times> heap" where
  "with_temp f cs h k = (case copy_cells f cs h of
     Inl e \<Rightarrow> Inl e
   | Inr (tmp, h1) \<Rightarrow> (case k tmp h1 of
       Inl e \<Rightarrow> Inl e
     | Inr (c, h2) \<Rightarrow> (case clear_cells f tmp h2 of Inl e \<Rightarrow> Inl e | Inr h3 \<Rightarrow> Inr (c, h3))))"

fun exec_vstmt :: "nat \<Rightarrow> vstmt \<Rightarrow> vstate \<Rightarrow> herror + vstate" where
  "exec_vstmt f (VNew x) st = declared x (mk_default, vheap st) st"
| "exec_vstmt f (VNewType x t) st = declared x (mk_type t (vheap st)) st"
| "exec_vstmt f (VNewBool x junk b) st = declared x (mk_bool junk b, vheap st) st"
| "exec_vstmt f (VNewInt x junk i) st = declared x (mk_int junk i, vheap st) st"
| "exec_vstmt f (VNewReal x d) st = declared x (mk_real d, vheap st) st"
| "exec_vstmt f (VNewString x s) st = declared x (mk_string s (vheap st)) st"
| "exec_vstmt f (VNewCString x p) st = declared x (mk_cstring p (vheap st)) st"
| "exec_vstmt f (VCopy x y) st = with_var y (\<lambda>c. stored x (copy_cell f c (vheap st)) st) st"
| "exec_vstmt f (VDelete x) st = with_var x (\<lambda>c. case clear_cell f c (vheap st) of
     Inl e \<Rightarrow> Inl e | Inr h \<Rightarrow> Inr (st\<lparr>vslots := (vslots st)(x := None), vheap := h\<rparr>)) st"
| "exec_vstmt f (VAssign x y) st = assign_variant f (Slot x) (Slot y) st"
| "exec_vstmt f (VSetBool x b) st = with_var x (\<lambda>c. stored x (assign_bool f b c (vheap st)) st) st"
| "exec_vstmt f (VSetInt x i) st = with_var x (\<lambda>c. stored x (assign_int f i c (vheap st)) st) st"
| "exec_vstmt f (VSetReal x d) st = with_var x (\<lambda>c. stored x (assign_real f d c (vheap st)) st) st"
| "exec_vstmt f (VSetString x s) st = with_var x (\<lambda>c. stored x (assign_string f (Outside s) c (vheap st)) st) st"
| "exec_vstmt f (VSetCString x p) st = with_var x (\<lambda>c. stored x (assign_cstring f p c (vheap st)) st) st"
| "exec_vstmt f (VSetList x ys) st = with_var x (\<lambda>c. case cells_of st ys of
     None \<Rightarrow> Inl Dangling
   | Some cs \<Rightarrow> stored x (with_temp f cs (vheap st) (\<lambda>tmp h. assign_list f tmp c h)) st) st"
| "exec_vstmt f (VSetMap x kys) st = with_var x (\<lambda>c. case cells_of st (map snd kys) of
     None \<Rightarrow> Inl Dangling
   | Some cs \<Rightarrow> stored x (with_temp f cs (vheap st) (\<lambda>tmp h. assign_map f (zip (map fst kys) tmp) c h)) st) st"

primrec exec_vprog :: "nat \<Rightarrow> vstmt list \<Rightarrow> vstate \<Rightarrow> herror + vstate" where
  "exec_vprog f [] st = Inr st"
| "exec_vprog f (s # p) st = (case exec_vstmt f s st of Inl e \<Rightarrow> Inl e | Inr st' \<Rightarrow> exec_vprog f p st')"

section \<open>What they mean\<close>

text \<open>
  The same on values. \<open>None\<close>: a variable is declared twice or used outside its scope, which a
  compiler rejects.
\<close>

type_synonym venv = "nat \<Rightarrow> variant option"

definition declare_val :: "nat \<Rightarrow> variant \<Rightarrow> venv \<Rightarrow> venv option" where
  "declare_val x v env = (if env x = None then Some (env(x \<mapsto> v)) else None)"

definition set_val :: "nat \<Rightarrow> variant \<Rightarrow> venv \<Rightarrow> venv option" where
  "set_val x v env = (if env x = None then None else Some (env(x \<mapsto> v)))"

fun vals_of :: "venv \<Rightarrow> nat list \<Rightarrow> variant list option" where
  "vals_of env [] = Some []"
| "vals_of env (y # ys) = (case (env y, vals_of env ys) of (Some v, Some vs) \<Rightarrow> Some (v # vs) | _ \<Rightarrow> None)"

fun mean_vstmt :: "vstmt \<Rightarrow> venv \<Rightarrow> venv option" where
  "mean_vstmt (VNew x) env = declare_val x VInvalid env"
| "mean_vstmt (VNewType x t) env = declare_val x (variant_of_type t) env"
| "mean_vstmt (VNewBool x junk b) env = declare_val x (VBoolean b) env"
| "mean_vstmt (VNewInt x junk i) env = declare_val x (VInteger i) env"
| "mean_vstmt (VNewReal x d) env = declare_val x (VReal d) env"
| "mean_vstmt (VNewString x s) env = declare_val x (VString s) env"
| "mean_vstmt (VNewCString x p) env = declare_val x (VString (c_str p)) env"
| "mean_vstmt (VCopy x y) env = (case env y of None \<Rightarrow> None | Some v \<Rightarrow> declare_val x v env)"
| "mean_vstmt (VDelete x) env = (if env x = None then None else Some (env(x := None)))"
| "mean_vstmt (VAssign x y) env = (case env y of None \<Rightarrow> None | Some v \<Rightarrow> set_val x v env)"
| "mean_vstmt (VSetBool x b) env = set_val x (VBoolean b) env"
| "mean_vstmt (VSetInt x i) env = set_val x (VInteger i) env"
| "mean_vstmt (VSetReal x d) env = set_val x (VReal d) env"
| "mean_vstmt (VSetString x s) env = set_val x (VString s) env"
| "mean_vstmt (VSetCString x p) env = set_val x (VString (c_str p)) env"
| "mean_vstmt (VSetList x ys) env = (case vals_of env ys of None \<Rightarrow> None | Some vs \<Rightarrow> set_val x (VList vs) env)"
| "mean_vstmt (VSetMap x kys) env = (case vals_of env (map snd kys) of
     None \<Rightarrow> None | Some vs \<Rightarrow> set_val x (VMap (zip (map fst kys) vs)) env)"

primrec mean_vprog :: "vstmt list \<Rightarrow> venv \<Rightarrow> venv option" where
  "mean_vprog [] env = Some env"
| "mean_vprog (s # p) env = (case mean_vstmt s env of None \<Rightarrow> None | Some env' \<Rightarrow> mean_vprog p env')"

definition no_variables :: vstate where
  "no_variables = \<lparr>vslots = Map.empty, vheap = empty_heap\<rparr>"

section \<open>Nesting depth\<close>

fun vdepth :: "variant \<Rightarrow> nat" where
  "vdepth (VList vs) = Suc (foldr max (map vdepth vs) 0)"
| "vdepth (VMap es) = Suc (foldr max (map (\<lambda>e. vdepth (snd e)) es) 0)"
| "vdepth _ = 1"

definition vdepths :: "variant list \<Rightarrow> nat" where
  "vdepths vs = foldr max (map vdepth vs) 0"

lemma vdepths_simps [simp]: "vdepths [] = 0" "vdepths (v # vs) = max (vdepth v) (vdepths vs)"
  by (simp_all add: vdepths_def)

lemma vdepths_le: "vdepths vs \<le> k \<longleftrightarrow> (\<forall>v \<in> set vs. vdepth v \<le> k)"
  by (induction vs) auto

lemma vdepth_zip: "length ks = length vs \<Longrightarrow> map (\<lambda>e. vdepth (snd e)) (zip ks vs) = map vdepth vs"
  by (induction ks vs rule: list_induct2) simp_all

lemma vdepth_containers:
  "vdepth (VList vs) = Suc (vdepths vs)"
  "length ks = length vs \<Longrightarrow> vdepth (VMap (zip ks vs)) = Suc (vdepths vs)"
  by (simp_all add: vdepths_def vdepth_zip)

lemma reify_depth:
  "reify_cell f H c = Some (v, as) \<Longrightarrow> reify_cell (vdepth v) H c = Some (v, as)"
  "reify_cells f H cs = Some (vs, as) \<Longrightarrow> reify_cells (vdepths vs) H cs = Some (vs, as)"
proof (induction rule: reify_induct)
  case (scalar f c v)
  then show ?case by (cases "m_type c") (auto simp: is_scalar_def split: udata.splits)
next
  case (map f c a m vs as)
  have "length (map fst m) = length vs" using length_reify_cells[OF map(4)] by simp
  then show ?case using map by (simp only: vdepth_containers) simp
next
  case (Cons f c cs v vs as bs)
  have "reify_cell (max (vdepth v) (vdepths vs)) H c = Some (v, as)" using reify_mono(1)[OF Cons(2)] by simp
  moreover have "reify_cells (max (vdepth v) (vdepths vs)) H cs = Some (vs, bs)" using reify_mono(2)[OF Cons(4)] by simp
  ultimately show ?case by simp
qed (simp_all only: vdepth_containers, simp_all)

section \<open>Representation\<close>

text \<open>
  Every variable represents its value and owns the objects \<open>own x\<close>; these are distinct, also from
  those of other variables, and there are no others on the heap.
\<close>

definition represents :: "nat \<Rightarrow> vstate \<Rightarrow> (nat \<Rightarrow> addr list) \<Rightarrow> venv \<Rightarrow> bool" where
  "represents k st own env \<longleftrightarrow> heap_ok (vheap st) \<and>
     (\<forall>x. case vslots st x of
        None \<Rightarrow> env x = None \<and> own x = []
      | Some c \<Rightarrow> (\<exists>v. env x = Some v \<and> vdepth v \<le> k \<and> reify_cell (vdepth v) (hobjs (vheap st)) c = Some (v, own x))) \<and>
     (\<forall>x. distinct (own x)) \<and> (\<forall>x y. x \<noteq> y \<longrightarrow> set (own x) \<inter> set (own y) = {}) \<and>
     dom (hobjs (vheap st)) = (\<Union>x. set (own x))"

lemma represents_init: "represents k no_variables (\<lambda>_. []) Map.empty"
  by (simp add: represents_def no_variables_def empty_heap_def heap_ok_def)

lemma represents_ok: "represents k st own env \<Longrightarrow> heap_ok (vheap st)"
  by (simp add: represents_def)

lemma represents_none: "represents k st own env \<Longrightarrow> env x = None \<Longrightarrow> vslots st x = None \<and> own x = []"
  unfolding represents_def by (elim conjE allE[of _ x]) (auto split: option.splits)

lemma represents_some:
  assumes "represents k st own env" and "env x = Some v"
  shows "\<exists>c. vslots st x = Some c \<and> vdepth v \<le> k \<and> distinct (own x) \<and>
    (\<forall>f \<ge> k. reify_cell f (hobjs (vheap st)) c = Some (v, own x))"
proof -
  have "case vslots st x of None \<Rightarrow> env x = None \<and> own x = []
      | Some c \<Rightarrow> (\<exists>v. env x = Some v \<and> vdepth v \<le> k \<and> reify_cell (vdepth v) (hobjs (vheap st)) c = Some (v, own x))"
    and d: "distinct (own x)" using assms(1) unfolding represents_def by blast+
  then obtain c where c: "vslots st x = Some c" "vdepth v \<le> k" "reify_cell (vdepth v) (hobjs (vheap st)) c = Some (v, own x)"
    using assms(2) by (auto split: option.splits)
  have "reify_cell f (hobjs (vheap st)) c = Some (v, own x)" if "f \<ge> k" for f
    using reify_mono(1)[OF c(3)] c(2) that by (meson order_trans)
  then show ?thesis using c d by blast
qed

text \<open>A step that exchanges what one variable owns and leaves everything else as it was.\<close>

lemma represents_update:
  assumes rep: "represents k st own env" and sw: "swapped (vheap st) h' (own x) bs"
    and new: "case c' of None \<Rightarrow> v' = None \<and> bs = []
      | Some c \<Rightarrow> (\<exists>v g. v' = Some v \<and> vdepth v \<le> Suc k \<and> reify_cell g (hobjs h') c = Some (v, bs))"
  shows "represents (Suc k) (st\<lparr>vslots := (vslots st)(x := c'), vheap := h'\<rparr>) (own(x := bs)) (env(x := v'))"
proof -
  have disj: "x \<noteq> y \<Longrightarrow> set (own x) \<inter> set (own y) = {}" for x y using rep by (simp add: represents_def)
  have dom: "dom (hobjs (vheap st)) = (\<Union>x. set (own x))" using rep by (simp add: represents_def)
  have sub: "set (own y) \<subseteq> dom (hobjs (vheap st)) - set (own x)" if "y \<noteq> x" for y using dom disj[OF that] by blast
  have bs: "set bs \<inter> (dom (hobjs (vheap st)) - set (own x)) = {}" "distinct bs" "heap_ok h'"
    "dom (hobjs h') = (dom (hobjs (vheap st)) - set (own x)) \<union> set bs"
    "\<forall>a \<in> dom (hobjs (vheap st)) - set (own x). hobjs h' a = hobjs (vheap st) a"
    using sw represents_ok[OF rep] by (simp_all add: swapped_def)
  have others: "case vslots st y of None \<Rightarrow> env y = None \<and> own y = []
      | Some c \<Rightarrow> (\<exists>v. env y = Some v \<and> vdepth v \<le> Suc k \<and> reify_cell (vdepth v) (hobjs h') c = Some (v, own y))"
    if y: "y \<noteq> x" for y
  proof -
    have r: "case vslots st y of None \<Rightarrow> env y = None \<and> own y = []
      | Some c \<Rightarrow> (\<exists>v. env y = Some v \<and> vdepth v \<le> k \<and> reify_cell (vdepth v) (hobjs (vheap st)) c = Some (v, own y))"
      using rep unfolding represents_def by blast
    have "\<forall>a \<in> set (own y). hobjs h' a = hobjs (vheap st) a" using bs(5) sub[OF y] by blast
    then have frame: "reify_cell f (hobjs (vheap st)) c = Some (v, own y) \<Longrightarrow> reify_cell f (hobjs h') c = Some (v, own y)" for f c v
      using reify_frame(1) by blast
    show ?thesis
    proof (cases "vslots st y")
      case (Some c)
      with r obtain v where "env y = Some v" "vdepth v \<le> k" "reify_cell (vdepth v) (hobjs (vheap st)) c = Some (v, own y)" by auto
      with frame Some show ?thesis by simp
    qed (use r in simp)
  qed
  have own: "case c' of None \<Rightarrow> v' = None \<and> bs = []
      | Some c \<Rightarrow> (\<exists>v. v' = Some v \<and> vdepth v \<le> Suc k \<and> reify_cell (vdepth v) (hobjs h') c = Some (v, bs))"
    using new reify_depth(1) by (auto split: option.splits)
  have cases: "case ((vslots st)(x := c')) y of None \<Rightarrow> (env(x := v')) y = None \<and> (own(x := bs)) y = []
      | Some c \<Rightarrow> (\<exists>v. (env(x := v')) y = Some v \<and> vdepth v \<le> Suc k \<and>
          reify_cell (vdepth v) (hobjs h') c = Some (v, (own(x := bs)) y))" for y
    using others[of y] own by (cases "y = x") (simp_all cong: option.case_cong)
  have dist: "distinct ((own(x := bs)) y)" for y using rep bs(2) by (simp add: represents_def)
  have sep: "y \<noteq> z \<Longrightarrow> set ((own(x := bs)) y) \<inter> set ((own(x := bs)) z) = {}" for y z
    using disj[of y z] sub[of y] sub[of z] bs(1) by (cases "y = x"; cases "z = x"; simp; blast)
  have total: "dom (hobjs h') = (\<Union>y. set ((own(x := bs)) y))"
  proof -
    have "(\<Union>y. set ((own(x := bs)) y)) = set bs \<union> (\<Union>y \<in> - {x}. set (own y))" by (auto simp: fun_upd_def split: if_splits)
    moreover have "(\<Union>y. set (own y)) - set (own x) = (\<Union>y \<in> - {x}. set (own y))" using disj by blast
    ultimately show ?thesis unfolding bs(4) dom by (simp only: Un_commute)
  qed
  let ?st = "st\<lparr>vslots := (vslots st)(x := c'), vheap := h'\<rparr>"
  have st: "vslots ?st = (vslots st)(x := c')" "vheap ?st = h'" by simp_all
  show ?thesis
    unfolding represents_def st by (intro conjI allI impI bs(3) cases dist sep total)
qed

lemma swapped_keep:
  "swapped h h' as bs \<Longrightarrow> a \<in> dom (hobjs h) \<Longrightarrow> a \<notin> set as \<Longrightarrow> hobjs h' a = hobjs h a \<and> a \<notin> set bs"
  by (simp add: swapped_def disjoint_iff) blast

lemma remove_temp: "T \<inter> D = {} \<Longrightarrow> B \<inter> T = {} \<Longrightarrow> D \<union> T - A \<union> B - T = D - A \<union> B"
  by blast

lemma temp_used:
  assumes c: "reify_cell f (hobjs h) c = Some (v, as)" and ok: "heap_ok h"
    and cs: "reify_cells f (hobjs h) cs = Some (ws, bs)"
    and k: "\<And>tmp h1 tb. reify_cells f (hobjs h1) tmp = Some (ws, tb) \<Longrightarrow> length tmp = length cs \<Longrightarrow>
      reify_cell f (hobjs h1) c = Some (v, as) \<Longrightarrow>
      heap_ok h1 \<Longrightarrow> set as \<inter> set tb = {} \<Longrightarrow>
      \<exists>c' h2 bs'. k tmp h1 = Inr (c', h2) \<and> swapped h1 h2 as bs' \<and> reify_cell g (hobjs h2) c' = Some (u, bs')"
  shows "\<exists>c' h' bs'. with_temp f cs h k = Inr (c', h') \<and> swapped h h' as bs' \<and> reify_cell g (hobjs h') c' = Some (u, bs')"
proof -
  obtain tmp h1 tb where t: "copy_cells f cs h = Inr (tmp, h1)" "reify_cells f (hobjs h1) tmp = Some (ws, tb)" "grown h h1 tb"
    using vals.copied[OF cs ok] by blast
  have ok1: "heap_ok h1" using grown_ok[OF ok t(3)] .
  have fresh: "set tb \<inter> dom (hobjs h) = {}" "distinct tb" "dom (hobjs h1) = dom (hobjs h) \<union> set tb"
    using grown_fresh[OF ok t(3)] grown_distinct[OF t(3)] grown_dom[OF t(3)] by blast+
  have as: "set as \<subseteq> dom (hobjs h)" using val.live[OF c] .
  have len: "length tmp = length cs" using length_reify_cells[OF cs] length_reify_cells[OF t(2)] by simp
  obtain c' h2 bs' where r: "k tmp h1 = Inr (c', h2)" "swapped h1 h2 as bs'" "reify_cell g (hobjs h2) c' = Some (u, bs')"
    using k[OF t(2) len val.survives_growth[OF c ok t(3)] ok1] as fresh(1) by blast
  have "a \<in> dom (hobjs h1) \<and> a \<notin> set as" if "a \<in> set tb" for a using that fresh(1,3) as by blast
  then have tb: "hobjs h2 a = hobjs h1 a \<and> a \<notin> set bs'" if "a \<in> set tb" for a using swapped_keep[OF r(2)] that by blast
  then have keep: "\<forall>a \<in> set tb. hobjs h2 a = hobjs h1 a" and sep: "set bs' \<inter> set tb = {}" by blast+
  have "reify_cells f (hobjs h2) tmp = Some (ws, tb)" using vals.frame[OF t(2) keep] .
  then have clear: "clear_cells f tmp h2 = Inr (release tb h2)" using vals.cleared fresh(2) by blast
  have "reify_cell g (hobjs (release tb h2)) c' = Some (u, bs')" using val.survives_release[OF r(3) sep] .
  moreover have "swapped h (release tb h2) as bs'"
    unfolding swapped_def
  proof (intro conjI)
    show "distinct bs'" using r(2) by (simp add: swapped_def)
    have "a \<notin> set bs'" if "a \<in> dom (hobjs h) - set as" for a
      using swapped_keep[OF r(2), of a] that fresh(3) by simp
    then show "set bs' \<inter> (dom (hobjs h) - set as) = {}" by blast
    have "dom (hobjs (release tb h2)) = dom (hobjs h2) - set tb" by auto
    also have "dom (hobjs h2) = dom (hobjs h) \<union> set tb - set as \<union> set bs'" using r(2) fresh(3) by (simp add: swapped_def)
    also have "\<dots> - set tb = dom (hobjs h) - set as \<union> set bs'" using fresh(1) sep by (rule remove_temp)
    finally show "dom (hobjs (release tb h2)) = dom (hobjs h) - set as \<union> set bs'" .
    show "\<forall>a \<in> dom (hobjs h) - set as. hobjs (release tb h2) a = hobjs h a"
    proof
      fix a assume a: "a \<in> dom (hobjs h) - set as"
      then have "hobjs h2 a = hobjs h1 a" using swapped_keep[OF r(2), of a] fresh(3) by blast
      moreover have "hobjs h1 a = hobjs h a" using grown_keeps[OF ok t(3)] a by blast
      moreover have "a \<notin> set tb" using a fresh(1) by blast
      ultimately show "hobjs (release tb h2) a = hobjs h a" by simp
    qed
    show "heap_ok h \<longrightarrow> heap_ok (release tb h2)" using r(2) ok1 release_ok by (simp add: swapped_def)
  qed
  ultimately show ?thesis using t(1) r(1) clear by (simp add: with_temp_def)
qed

section \<open>Every step\<close>

lemma represents_later: "represents k st own env \<Longrightarrow> represents (Suc k) st own env"
proof -
  assume rep: "represents k st own env"
  have "case vslots st x of None \<Rightarrow> env x = None \<and> own x = []
      | Some c \<Rightarrow> (\<exists>v. env x = Some v \<and> vdepth v \<le> Suc k \<and> reify_cell (vdepth v) (hobjs (vheap st)) c = Some (v, own x))" for x
  proof -
    from rep have "case vslots st x of None \<Rightarrow> env x = None \<and> own x = []
      | Some c \<Rightarrow> (\<exists>v. env x = Some v \<and> vdepth v \<le> k \<and> reify_cell (vdepth v) (hobjs (vheap st)) c = Some (v, own x))"
      unfolding represents_def by blast
    then show ?thesis by (cases "vslots st x") auto
  qed
  with rep show ?thesis by (simp add: represents_def)
qed

lemma reify_type: "reify_cell f H c = Some (v, as) \<Longrightarrow> m_type c = variant_type v"
  by (cases f; cases "m_type c") (auto split: udata.splits option.splits hobj.splits prod.splits)

lemma represents_declared:
  assumes rep: "represents k st own env" and free: "env x = None" and gr: "grown (vheap st) h' bs"
    and r: "reify_cell g (hobjs h') c = Some (v, bs)" and d: "vdepth v \<le> Suc k"
  shows "\<exists>st' own'. declared x (c, h') st = Inr st' \<and> represents (Suc k) st' own' (env(x \<mapsto> v))"
proof -
  have "swapped (vheap st) h' (own x) bs"
    using swapped_grown[OF represents_ok[OF rep], of "[]"] gr represents_none[OF rep free] by simp
  from represents_update[OF rep this, where c' = "Some c" and v' = "Some v"] show ?thesis using r d by (auto simp: declared_def)
qed

lemma represents_stored:
  assumes rep: "represents k st own env" and sw: "swapped (vheap st) h' (own x) bs"
    and r: "reify_cell g (hobjs h') c = Some (v, bs)" and d: "vdepth v \<le> Suc k"
  shows "\<exists>st' own'. stored x (Inr (c, h')) st = Inr st' \<and> represents (Suc k) st' own' (env(x \<mapsto> v))"
  using represents_update[OF rep sw, where c' = "Some c" and v' = "Some v"] r d by (auto simp: stored_def declared_def)

lemma cells_of_vals:
  assumes rep: "represents k st own env" and f: "k \<le> f"
  shows "vals_of env ys = Some vs \<Longrightarrow> \<exists>cs bs. cells_of st ys = Some cs \<and> length cs = length ys \<and> vdepths vs \<le> k \<and>
    reify_cells f (hobjs (vheap st)) cs = Some (vs, bs)"
proof (induction ys arbitrary: vs)
  case (Cons y ys)
  then obtain v ws where v: "env y = Some v" "vals_of env ys = Some ws" "vs = v # ws" by (auto split: option.splits)
  from Cons.IH[OF v(2)] represents_some[OF rep v(1)] v(3) f show ?case by auto
qed simp

lemma vdepth_type: "vdepth (variant_of_type t) \<le> 1"
  by (cases t) simp_all

lemma fresh_objects:
  "\<exists>a h'. new_obj ob h = (a, h') \<and> grown h h' [a] \<and> hobjs h' a = Some ob"
  using grown_new[of ob h] by (auto simp: new_obj_def)

lemma refines_VNew:
  assumes rep: "represents k st own env" and f: "k \<le> f" and m: "mean_vstmt (VNew x) env = Some env'"
  shows "\<exists>st' own'. exec_vstmt f (VNew x) st = Inr st' \<and> represents (Suc k) st' own' env'"
proof -
  note decl = represents_declared[OF rep]
  note con = constructors_correct[of "hobjs (vheap st)" _ "vheap st"]
  show ?thesis using m decl[OF _ grown_refl, of x 1 mk_default VInvalid] con
    by (auto simp: declare_val_def split: if_splits)
qed

lemma refines_VNewType:
  assumes rep: "represents k st own env" and f: "k \<le> f" and m: "mean_vstmt (VNewType x t) env = Some env'"
  shows "\<exists>st' own'. exec_vstmt f (VNewType x t) st = Inr st' \<and> represents (Suc k) st' own' env'"
proof -
  note decl = represents_declared[OF rep]
  note con = constructors_correct[of "hobjs (vheap st)" _ "vheap st"]
  obtain c h' as where c: "mk_type t (vheap st) = (c, h')" "grown (vheap st) h' as"
    "reify_cell 2 (hobjs h') c = Some (variant_of_type t, as)" using con[of t] by blast
  show ?thesis using m decl[OF _ c(2,3)] c(1) vdepth_type[of t]
    by (auto simp: declare_val_def split: if_splits)
qed

lemma refines_VNewBool:
  assumes rep: "represents k st own env" and f: "k \<le> f" and m: "mean_vstmt (VNewBool x junk b) env = Some env'"
  shows "\<exists>st' own'. exec_vstmt f (VNewBool x junk b) st = Inr st' \<and> represents (Suc k) st' own' env'"
proof -
  note decl = represents_declared[OF rep]
  note con = constructors_correct[of "hobjs (vheap st)" _ "vheap st"]
  show ?thesis using m decl[OF _ grown_refl, of x 1 "mk_bool junk b" "VBoolean b"] con
    by (auto simp: declare_val_def split: if_splits)
qed

lemma refines_VNewInt:
  assumes rep: "represents k st own env" and f: "k \<le> f" and m: "mean_vstmt (VNewInt x junk i) env = Some env'"
  shows "\<exists>st' own'. exec_vstmt f (VNewInt x junk i) st = Inr st' \<and> represents (Suc k) st' own' env'"
proof -
  note decl = represents_declared[OF rep]
  note con = constructors_correct[of "hobjs (vheap st)" _ "vheap st"]
  show ?thesis using m decl[OF _ grown_refl, of x 1 "mk_int junk i" "VInteger i"] con
    by (auto simp: declare_val_def split: if_splits)
qed

lemma refines_VNewReal:
  assumes rep: "represents k st own env" and f: "k \<le> f" and m: "mean_vstmt (VNewReal x d) env = Some env'"
  shows "\<exists>st' own'. exec_vstmt f (VNewReal x d) st = Inr st' \<and> represents (Suc k) st' own' env'"
proof -
  note decl = represents_declared[OF rep]
  note con = constructors_correct[of "hobjs (vheap st)" _ "vheap st"]
  show ?thesis using m decl[OF _ grown_refl, of x 1 "mk_real d" "VReal d"] con
    by (auto simp: declare_val_def split: if_splits)
qed

lemma refines_VNewString:
  assumes rep: "represents k st own env" and f: "k \<le> f" and m: "mean_vstmt (VNewString x t) env = Some env'"
  shows "\<exists>st' own'. exec_vstmt f (VNewString x t) st = Inr st' \<and> represents (Suc k) st' own' env'"
proof -
  note decl = represents_declared[OF rep]
  note con = constructors_correct[of "hobjs (vheap st)" _ "vheap st"]
  obtain c h' as where c: "mk_string t (vheap st) = (c, h')" "grown (vheap st) h' as"
    "reify_cell 1 (hobjs h') c = Some (VString t, as)" using con by blast
  show ?thesis using m decl[OF _ c(2,3)] c(1)
    by (auto simp: declare_val_def split: if_splits)
qed

lemma refines_VNewCString:
  assumes "represents k st own env" and "k \<le> f" and "mean_vstmt (VNewCString x p) env = Some env'"
  shows "\<exists>st' own'. exec_vstmt f (VNewCString x p) st = Inr st' \<and> represents (Suc k) st' own' env'"
  using refines_VNewString[OF assms(1,2), of x "c_str p" env'] assms(3) by (simp add: mk_cstring_def)

lemma refines_VCopy:
  assumes rep: "represents k st own env" and f: "k \<le> f" and m: "mean_vstmt (VCopy x y) env = Some env'"
  shows "\<exists>st' own'. exec_vstmt f (VCopy x y) st = Inr st' \<and> represents (Suc k) st' own' env'"
proof -
  note ok = represents_ok[OF rep]
  note some = represents_some[OF rep]
  note decl = represents_declared[OF rep]
  obtain v where v: "env y = Some v" "env x = None" "env' = env(x \<mapsto> v)"
    using m by (auto simp: declare_val_def split: option.splits if_splits)
  obtain c where c: "vslots st y = Some c" "vdepth v \<le> k" "reify_cell f (hobjs (vheap st)) c = Some (v, own y)"
    using some[OF v(1)] f by blast
  obtain c' h' bs where n: "copy_cell f c (vheap st) = Inr (c', h')" "reify_cell f (hobjs h') c' = Some (v, bs)"
    "grown (vheap st) h' bs" using val.copied[OF c(3) ok] by blast
  show ?thesis using decl[OF v(2) n(3,2)] c n v by (simp add: with_var_def stored_def)
qed

lemma refines_VDelete:
  assumes rep: "represents k st own env" and f: "k \<le> f" and m: "mean_vstmt (VDelete x) env = Some env'"
  shows "\<exists>st' own'. exec_vstmt f (VDelete x) st = Inr st' \<and> represents (Suc k) st' own' env'"
proof -
  note some = represents_some[OF rep]
  obtain v where v: "env x = Some v" "env' = env(x := None)"
    using m by (auto split: if_splits)
  obtain c where c: "vslots st x = Some c" "reify_cell f (hobjs (vheap st)) c = Some (v, own x)" "distinct (own x)"
    using some[OF v(1)] f by blast
  have "clear_cell f c (vheap st) = Inr (release (own x) (vheap st))" by (rule val.cleared[OF c(2,3)])
  then show ?thesis
    using represents_update[OF rep swapped_release, where c' = None and v' = None] c(1) v(2)
    by (auto simp: with_var_def)
qed

lemma refines_VAssign:
  assumes rep: "represents k st own env" and f: "k \<le> f" and m: "mean_vstmt (VAssign x y) env = Some env'"
  shows "\<exists>st' own'. exec_vstmt f (VAssign x y) st = Inr st' \<and> represents (Suc k) st' own' env'"
proof -
  note ok = represents_ok[OF rep]
  note some = represents_some[OF rep]
  note sto = represents_stored[OF rep]
  obtain v w where v: "env y = Some v" "env x = Some w" "env' = env(x \<mapsto> v)"
    using m by (auto simp: set_val_def split: option.splits if_splits)
  show ?thesis
  proof (cases "x = y")
    case True
    then have "env' = env" using v by auto
    moreover have "exec_vstmt f (VAssign x y) st = Inr st" using True by (simp add: assign_variant_def)
    ultimately show ?thesis using represents_later[OF rep] by auto
  next
    case False
    obtain c where c: "vslots st x = Some c" "reify_cell f (hobjs (vheap st)) c = Some (w, own x)" "distinct (own x)"
      using some[OF v(2)] f by blast
    obtain d where d: "vslots st y = Some d" "reify_cell f (hobjs (vheap st)) d = Some (v, own y)" "vdepth v \<le> k"
      using some[OF v(1)] f by blast
    have "set (own x) \<inter> set (own y) = {}" using rep False by (simp add: represents_def)
    from assign_variant_swaps[OF False c(1) d(1) ok c(2,3) d(2) this] obtain c' h' cs where
      n: "assign_variant f (Slot x) (Slot y) st = Inr (st\<lparr>vslots := (vslots st)(x \<mapsto> c'), vheap := h'\<rparr>)"
      "swapped (vheap st) h' (own x) cs" "reify_cell f (hobjs h') c' = Some (v, cs)" by blast
    show ?thesis
      using sto[OF n(2,3)] d(3) n(1) v(3) by (simp add: stored_def declared_def)
  qed
qed

lemma refines_VSetBool:
  assumes rep: "represents k st own env" and f: "k \<le> f" and m: "mean_vstmt (VSetBool x b) env = Some env'"
  shows "\<exists>st' own'. exec_vstmt f (VSetBool x b) st = Inr st' \<and> represents (Suc k) st' own' env'"
proof -
  note some = represents_some[OF rep]
  note sto = represents_stored[OF rep]
  obtain v where v: "env x = Some v" "env' = env(x \<mapsto> VBoolean b)"
    using m by (auto simp: set_val_def split: if_splits)
  obtain c where c: "vslots st x = Some c" "reify_cell f (hobjs (vheap st)) c = Some (v, own x)" "distinct (own x)"
    using some[OF v(1)] f by blast
  obtain c' h' where n: "assign_bool f b c (vheap st) = Inr (c', h')" "swapped (vheap st) h' (own x) []"
    "reify_cell 1 (hobjs h') c' = Some (VBoolean b, [])" using assign_scalar_correct[OF c(2,3)] by blast
  show ?thesis using sto[OF n(2,3)] c(1) n(1) v(2) by (simp add: with_var_def)
qed

lemma refines_VSetInt:
  assumes rep: "represents k st own env" and f: "k \<le> f" and m: "mean_vstmt (VSetInt x i) env = Some env'"
  shows "\<exists>st' own'. exec_vstmt f (VSetInt x i) st = Inr st' \<and> represents (Suc k) st' own' env'"
proof -
  note some = represents_some[OF rep]
  note sto = represents_stored[OF rep]
  obtain v where v: "env x = Some v" "env' = env(x \<mapsto> VInteger i)"
    using m by (auto simp: set_val_def split: if_splits)
  obtain c where c: "vslots st x = Some c" "reify_cell f (hobjs (vheap st)) c = Some (v, own x)" "distinct (own x)"
    using some[OF v(1)] f by blast
  obtain c' h' where n: "assign_int f i c (vheap st) = Inr (c', h')" "swapped (vheap st) h' (own x) []"
    "reify_cell 1 (hobjs h') c' = Some (VInteger i, [])" using assign_scalar_correct[OF c(2,3)] by blast
  show ?thesis using sto[OF n(2,3)] c(1) n(1) v(2) by (simp add: with_var_def)
qed

lemma refines_VSetReal:
  assumes rep: "represents k st own env" and f: "k \<le> f" and m: "mean_vstmt (VSetReal x d) env = Some env'"
  shows "\<exists>st' own'. exec_vstmt f (VSetReal x d) st = Inr st' \<and> represents (Suc k) st' own' env'"
proof -
  note some = represents_some[OF rep]
  note sto = represents_stored[OF rep]
  obtain v where v: "env x = Some v" "env' = env(x \<mapsto> VReal d)"
    using m by (auto simp: set_val_def split: if_splits)
  obtain c where c: "vslots st x = Some c" "reify_cell f (hobjs (vheap st)) c = Some (v, own x)" "distinct (own x)"
    using some[OF v(1)] f by blast
  obtain c' h' where n: "assign_real f d c (vheap st) = Inr (c', h')" "swapped (vheap st) h' (own x) []"
    "reify_cell 1 (hobjs h') c' = Some (VReal d, [])" using assign_scalar_correct[OF c(2,3)] by blast
  show ?thesis using sto[OF n(2,3)] c(1) n(1) v(2) by (simp add: with_var_def)
qed

lemma refines_VSetString:
  assumes rep: "represents k st own env" and f: "k \<le> f" and m: "mean_vstmt (VSetString x t) env = Some env'"
  shows "\<exists>st' own'. exec_vstmt f (VSetString x t) st = Inr st' \<and> represents (Suc k) st' own' env'"
proof -
  note ok = represents_ok[OF rep]
  note some = represents_some[OF rep]
  note sto = represents_stored[OF rep]
  obtain v where v: "env x = Some v" "env' = env(x \<mapsto> VString t)"
    using m by (auto simp: set_val_def split: if_splits)
  obtain c where c: "vslots st x = Some c" "reify_cell f (hobjs (vheap st)) c = Some (v, own x)" "distinct (own x)"
    using some[OF v(1)] f by blast
  obtain c' h' bs where n: "assign_string f (Outside t) c (vheap st) = Inr (c', h')" "swapped (vheap st) h' (own x) bs"
    "reify_cell 1 (hobjs h') c' = Some (VString t, bs)"
    using assign_string_correct[OF c(2,3) ok, of "Outside t" t] by auto
  show ?thesis using sto[OF n(2,3)] c(1) n(1) v(2) by (simp add: with_var_def)
qed

lemma refines_VSetCString:
  assumes "represents k st own env" and "k \<le> f" and "mean_vstmt (VSetCString x p) env = Some env'"
  shows "\<exists>st' own'. exec_vstmt f (VSetCString x p) st = Inr st' \<and> represents (Suc k) st' own' env'"
  using refines_VSetString[OF assms(1,2), of x "c_str p" env'] assms(3) by (simp add: assign_cstring_def)

lemma refines_VSetList:
  assumes rep: "represents k st own env" and f: "k \<le> f" and m: "mean_vstmt (VSetList x ys) env = Some env'"
  shows "\<exists>st' own'. exec_vstmt f (VSetList x ys) st = Inr st' \<and> represents (Suc k) st' own' env'"
proof -
  note ok = represents_ok[OF rep]
  note some = represents_some[OF rep]
  note sto = represents_stored[OF rep]
  obtain v vs where v: "env x = Some v" "vals_of env ys = Some vs" "env' = env(x \<mapsto> VList vs)"
    using m by (auto simp: set_val_def split: if_splits option.splits)
  obtain c where c: "vslots st x = Some c" "reify_cell f (hobjs (vheap st)) c = Some (v, own x)" "distinct (own x)"
    using some[OF v(1)] f by blast
  obtain cs bs where cs: "cells_of st ys = Some cs" "vdepths vs \<le> k" "reify_cells f (hobjs (vheap st)) cs = Some (vs, bs)"
    using cells_of_vals[OF rep f v(2)] by blast
  have "\<exists>c' h' bs'. with_temp f cs (vheap st) (\<lambda>tmp h. assign_list f tmp c h) = Inr (c', h') \<and>
      swapped (vheap st) h' (own x) bs' \<and> reify_cell (Suc f) (hobjs h') c' = Some (VList vs, bs')"
    by (rule temp_used[OF c(2) ok cs(3)]) (rule assign_list_correct, (assumption | rule c(3))+)
  then obtain c' h' bs' where n: "with_temp f cs (vheap st) (\<lambda>tmp h. assign_list f tmp c h) = Inr (c', h')"
    "swapped (vheap st) h' (own x) bs'" "reify_cell (Suc f) (hobjs h') c' = Some (VList vs, bs')" by blast
  show ?thesis using sto[OF n(2,3)] c(1) n(1) v(3) cs(1,2) by (simp add: with_var_def vdepth_containers del: vdepth.simps)
qed

lemma refines_VSetMap:
  assumes rep: "represents k st own env" and f: "k \<le> f" and m: "mean_vstmt (VSetMap x kys) env = Some env'"
  shows "\<exists>st' own'. exec_vstmt f (VSetMap x kys) st = Inr st' \<and> represents (Suc k) st' own' env'"
proof -
  note ok = represents_ok[OF rep]
  note some = represents_some[OF rep]
  note sto = represents_stored[OF rep]
  obtain v vs where v: "env x = Some v" "vals_of env (map snd kys) = Some vs"
    "env' = env(x \<mapsto> VMap (zip (map fst kys) vs))"
    using m by (auto simp: set_val_def split: if_splits option.splits)
  obtain c where c: "vslots st x = Some c" "reify_cell f (hobjs (vheap st)) c = Some (v, own x)" "distinct (own x)"
    using some[OF v(1)] f by blast
  obtain cs bs where cs: "cells_of st (map snd kys) = Some cs" "length cs = length (map snd kys)" "vdepths vs \<le> k"
    "reify_cells f (hobjs (vheap st)) cs = Some (vs, bs)"
    using cells_of_vals[OF rep f v(2)] by blast
  let ?k = "\<lambda>tmp h. assign_map f (zip (map fst kys) tmp) c h"
  have "\<exists>c' h' bs'. with_temp f cs (vheap st) ?k = Inr (c', h') \<and>
      swapped (vheap st) h' (own x) bs' \<and> reify_cell (Suc f) (hobjs h') c' = Some (VMap (zip (map fst kys) vs), bs')"
  proof (rule temp_used[OF c(2) ok cs(4)])
    fix tmp h1 tb
    assume t: "reify_cells f (hobjs h1) tmp = Some (vs, tb)" "length tmp = length cs"
      "reify_cell f (hobjs h1) c = Some (v, own x)" "heap_ok h1" "set (own x) \<inter> set tb = {}"
    have z: "map snd (zip (map fst kys) tmp) = tmp" "map fst (zip (map fst kys) tmp) = map fst kys"
      using t(2) cs(2) by simp_all
    show "\<exists>c' h2 bs'. ?k tmp h1 = Inr (c', h2) \<and> swapped h1 h2 (own x) bs' \<and>
        reify_cell (Suc f) (hobjs h2) c' = Some (VMap (zip (map fst kys) vs), bs')"
      using assign_map_correct[OF t(3) c(3) t(4), of "zip (map fst kys) tmp" vs tb] t(1,5) unfolding z by blast
  qed
  then obtain c' h' bs' where n: "with_temp f cs (vheap st) ?k = Inr (c', h')"
    "swapped (vheap st) h' (own x) bs'" "reify_cell (Suc f) (hobjs h') c' = Some (VMap (zip (map fst kys) vs), bs')" by blast
  have "length (map fst kys) = length vs" using length_reify_cells[OF cs(4)] cs(2) by simp
  then have "vdepth (VMap (zip (map fst kys) vs)) \<le> Suc k" using cs(3) by (simp add: vdepth_containers del: vdepth.simps)
  then show ?thesis using sto[OF n(2,3)] c(1) n(1) v(3) cs(1) by (simp add: with_var_def)
qed

lemmas refines_stmts = refines_VNew refines_VNewType refines_VNewBool refines_VNewInt refines_VNewReal refines_VNewString refines_VNewCString refines_VCopy refines_VDelete refines_VAssign refines_VSetBool refines_VSetInt refines_VSetReal refines_VSetString refines_VSetCString refines_VSetList refines_VSetMap

lemma exec_refines:
  assumes "represents k st own env" and "k \<le> f" and "mean_vstmt s env = Some env'"
  shows "\<exists>st' own'. exec_vstmt f s st = Inr st' \<and> represents (Suc k) st' own' env'"
  using assms(3) by (cases s) (simp_all only: refines_stmts[OF assms(1,2)])

lemma program_refines:
  "represents k st own env \<Longrightarrow> mean_vprog p env = Some env' \<Longrightarrow> k + length p \<le> f \<Longrightarrow>
     \<exists>st' own'. exec_vprog f p st = Inr st' \<and> represents (k + length p) st' own' env'"
proof (induction p arbitrary: k st own env)
  case (Cons s p)
  then obtain env1 where e: "mean_vstmt s env = Some env1" "mean_vprog p env1 = Some env'" by (auto split: option.splits)
  obtain st1 own1 where s: "exec_vstmt f s st = Inr st1" "represents (Suc k) st1 own1 env1"
    using exec_refines[OF Cons.prems(1) _ e(1), of f] Cons.prems(3) by auto
  from Cons.IH[OF s(2) e(2)] Cons.prems(3) show ?case by (simp add: s(1))
qed auto

section \<open>Properties\<close>

text \<open>C3: programs that handle whole variables of type \<open>Variant\<close> are type safe and leak nothing. The programs meant
  are the sequences of statements \<open>vstmt\<close>: they declare variables with any constructor, copy them, assign
  to them a variable, a scalar, a string, or a list or map of copies of variables, and end their scopes; they
  do not reach into a variant through the references that \<open>string\<close>, \<open>list\<close> and \<open>map\<close> return. Such a
  program, if it uses its variables within their scopes, runs to its end without touching freed memory;
  afterwards every variable's tag, union and objects represent the value it should have, different variables
  share no object, and the objects on the heap are exactly those that variables own.\<close>

theorem variant_programs_sound:
  assumes "mean_vprog p Map.empty = Some env" and "length p \<le> f"
  shows "\<exists>st own. exec_vprog f p no_variables = Inr st \<and> dom (vslots st) = dom env \<and>
    (\<forall>x v. env x = Some v \<longrightarrow> (\<exists>c. vslots st x = Some c \<and> m_type c = variant_type v \<and>
       reify_cell f (hobjs (vheap st)) c = Some (v, own x))) \<and>
    (\<forall>x y. x \<noteq> y \<longrightarrow> set (own x) \<inter> set (own y) = {}) \<and> dom (hobjs (vheap st)) = (\<Union>x \<in> dom env. set (own x))"
proof -
  obtain st own where r: "exec_vprog f p no_variables = Inr st" "represents (length p) st own env"
    using program_refines[OF represents_init[of 0] assms(1), of f] assms(2) by auto
  have "(vslots st x = None) = (env x = None)" for x
    using represents_some[OF r(2), of x] represents_none[OF r(2), of x] by fastforce
  then have dom: "dom (vslots st) = dom env" by (simp add: set_eq_iff domIff)
  have cell: "\<exists>c. vslots st x = Some c \<and> m_type c = variant_type v \<and> reify_cell f (hobjs (vheap st)) c = Some (v, own x)"
    if "env x = Some v" for x v
    using represents_some[OF r(2) that] reify_type assms(2) by blast
  have "set (own x) \<inter> set (own y) = {}" if "x \<noteq> y" for x y using r(2) that by (simp add: represents_def)
  moreover have "dom (hobjs (vheap st)) = (\<Union>x. set (own x))" using r(2) by (simp add: represents_def)
  moreover have "(\<Union>x. set (own x)) = (\<Union>x \<in> dom env. set (own x))"
    using represents_none[OF r(2)] by (auto simp: dom_def) fastforce
  ultimately show ?thesis using r(1) dom cell by (intro exI[of _ st] exI[of _ own]) simp
qed

text \<open>A string, a list of two copies of it, and that list assigned back to the variable of the string.\<close>

definition sample_program :: "vstmt list" where
  "sample_program = [VNewString 0 ''a'', VNew 1, VSetList 1 [0, 0], VAssign 0 1, VSetInt 1 7, VDelete 1]"

theorem variant_programs_sound_witness:
  "\<exists>st as. exec_vprog 6 sample_program no_variables = Inr st \<and> dom (vslots st) = {0} \<and>
     (\<exists>c. vslots st 0 = Some c \<and> m_type c = Type_List \<and>
        reify_cell 6 (hobjs (vheap st)) c = Some (VList [VString ''a'', VString ''a''], as)) \<and>
     dom (hobjs (vheap st)) = set as"
proof -
  let ?env = "[0 \<mapsto> VList [VString ''a'', VString ''a'']]"
  have m: "mean_vprog sample_program Map.empty = Some ?env"
    by (simp add: sample_program_def declare_val_def set_val_def fun_eq_iff)
  have "length sample_program \<le> 6" by (simp add: sample_program_def)
  from variant_programs_sound[OF m this] obtain st own where r: "exec_vprog 6 sample_program no_variables = Inr st"
    "dom (vslots st) = dom ?env" "dom (hobjs (vheap st)) = (\<Union>x \<in> dom ?env. set (own x))"
    and all: "\<forall>x v. ?env x = Some v \<longrightarrow> (\<exists>c. vslots st x = Some c \<and> m_type c = variant_type v \<and>
       reify_cell 6 (hobjs (vheap st)) c = Some (v, own x))" by (elim exE conjE)
  have "?env 0 = Some (VList [VString ''a'', VString ''a''])" by (rule fun_upd_same)
  with all obtain c where c: "vslots st 0 = Some c" "m_type c = variant_type (VList [VString ''a'', VString ''a''])"
    "reify_cell 6 (hobjs (vheap st)) c = Some (VList [VString ''a'', VString ''a''], own 0)" by blast
  moreover have "dom ?env = {0}" by simp
  ultimately show ?thesis using r unfolding variant_type.simps by (intro exI[of _ st] exI[of _ "own 0"]) simp
qed

end
