(* ===== verification/Posix.thy ===== *)
theory Posix
  imports Ucxx_Prelude
begin

text \<open>
  The system calls the synchronisation classes are built on, as parameters: an implementation
  \<open>P\<close> of the record \<open>posix\<close> supplies the mutex and semaphore objects and their calls,
  and the locale \<open>posix_sync\<close> states what POSIX documents of a mutex of any type and of a
  counting semaphore. \<open>posix_mutexes\<close> adds what depends on the type of the mutex, which the attribute
  object given to \<open>pthread_mutex_init\<close> determines. A call that blocks has no result (\<open>None\<close>) in the
  current state. \<open>ref_posix\<close> and \<open>ref_mutexes\<close> are concrete implementations, showing that the
  laws can be met.
\<close>

type_synonym tid = nat

datatype mutex_type = PTHREAD_MUTEX_NORMAL | PTHREAD_MUTEX_ERRORCHECK | PTHREAD_MUTEX_RECURSIVE | PTHREAD_MUTEX_DEFAULT

record mutexattr =
  attr_type :: mutex_type

record ('m, 's) posix =
  p_mutexattr_init :: mutexattr
  p_mutexattr_settype :: "mutexattr \<Rightarrow> mutex_type \<Rightarrow> mutexattr"
  p_mutex_init :: "mutexattr \<Rightarrow> 'm"
  p_mutex_lock :: "tid \<Rightarrow> 'm \<Rightarrow> 'm option"
  p_mutex_trylock :: "tid \<Rightarrow> 'm \<Rightarrow> int \<times> 'm"
  p_mutex_unlock :: "tid \<Rightarrow> 'm \<Rightarrow> 'm"
  p_sem_init :: "int32 \<Rightarrow> 's"
  p_sem_wait :: "bool \<Rightarrow> 's \<Rightarrow> (int \<times> 's) option"
  p_sem_post :: "'s \<Rightarrow> 's"
  p_sem_getvalue :: "'s \<Rightarrow> int32"

text \<open>
  \<open>owner\<close> and \<open>depth\<close> of a mutex, and the \<open>tokens\<close> of a semaphore, are what the
  documentation speaks of. The flag of \<open>p_sem_wait\<close> says that a signal handler
  interrupts the call, which then fails and leaves the semaphore as it is.
\<close>

locale posix_sync =
  fixes P :: "('m, 's) posix"
    and owner :: "'m \<Rightarrow> tid option"
    and depth :: "'m \<Rightarrow> nat"
    and tokens :: "'s \<Rightarrow> nat"
  assumes init_mutex: "owner (p_mutex_init P attr) = None"
    and lock_free: "owner m = None \<Longrightarrow>
      \<exists>m'. p_mutex_lock P t m = Some m' \<and> owner m' = Some t \<and> depth m' = 1"
    and lock_nested: "owner m = Some t \<Longrightarrow> p_mutex_lock P t m = Some m' \<Longrightarrow> owner m' = Some t"
    and lock_blocks: "owner m = Some u \<Longrightarrow> u \<noteq> t \<Longrightarrow> p_mutex_lock P t m = None"
    and trylock_free: "p_mutex_lock P t m = Some m' \<Longrightarrow> p_mutex_trylock P t m = (0, m')"
    and trylock_busy: "p_mutex_lock P t m = None \<Longrightarrow> fst (p_mutex_trylock P t m) \<noteq> 0 \<and> snd (p_mutex_trylock P t m) = m"
    and unlock_last: "owner m = Some t \<Longrightarrow> depth m = 1 \<Longrightarrow> owner (p_mutex_unlock P t m) = None"
    and unlock_nested: "owner m = Some t \<Longrightarrow> depth m = Suc (Suc n) \<Longrightarrow>
      owner (p_mutex_unlock P t m) = Some t \<and> depth (p_mutex_unlock P t m) = Suc n"
    and init_sem: "0 \<le> sint v \<Longrightarrow> tokens (p_sem_init P v) = nat (sint v)"
    and wait_interrupted: "p_sem_wait P True s = Some (- 1, s)"
    and wait_blocks: "tokens s = 0 \<Longrightarrow> p_sem_wait P False s = None"
    and wait_takes: "0 < tokens s \<Longrightarrow> \<exists>s'. p_sem_wait P False s = Some (0, s') \<and> Suc (tokens s') = tokens s"
    and post: "tokens (p_sem_post P s) = Suc (tokens s)"
begin

lemma lock_owner:
  "p_mutex_lock P t m = Some m' \<Longrightarrow> owner m' = Some t \<and> (owner m = None \<and> depth m' = 1 \<or> owner m = Some t)"
  using lock_free[of m t] lock_nested[of m t m'] lock_blocks[of m _ t] by (cases "owner m") fastforce+

lemma lock_enabled: "owner m = None \<Longrightarrow> p_mutex_lock P t m \<noteq> None"
  using lock_free[of m t] by auto

lemma wait_result:
  "p_sem_wait P False s = Some (r, s') \<Longrightarrow> r = 0 \<and> tokens s = Suc (tokens s')"
  using wait_blocks[of s] wait_takes[of s] by (cases "tokens s = 0") auto

lemma wait_enabled: "p_sem_wait P False s \<noteq> None \<longleftrightarrow> 0 < tokens s"
  using wait_blocks[of s] wait_takes[of s] by (cases "tokens s = 0") auto

end

text \<open>
  The type of a mutex is that of the attributes it is initialised with and never changes. A thread
  that locks a recursive mutex again goes on and has to unlock it once more; with a normal mutex it waits for
  itself.
\<close>

locale posix_mutexes = posix_sync P owner depth tokens
  for P :: "('m, 's) posix" and owner :: "'m \<Rightarrow> tid option" and depth :: "'m \<Rightarrow> nat" and tokens :: "'s \<Rightarrow> nat" +
  fixes kind :: "'m \<Rightarrow> mutex_type"
  assumes settype: "attr_type (p_mutexattr_settype P attr k) = k"
    and init_kind: "kind (p_mutex_init P attr) = attr_type attr"
    and lock_kind: "p_mutex_lock P t m = Some m' \<Longrightarrow> kind m' = kind m"
    and unlock_kind: "kind (p_mutex_unlock P t m) = kind m"
    and relock: "kind m = PTHREAD_MUTEX_RECURSIVE \<Longrightarrow> owner m = Some t \<Longrightarrow>
      \<exists>m'. p_mutex_lock P t m = Some m' \<and> depth m' = Suc (depth m)"
    and relock_normal: "kind m = PTHREAD_MUTEX_NORMAL \<Longrightarrow> owner m = Some t \<Longrightarrow> p_mutex_lock P t m = None"

section \<open>A concrete implementation\<close>

type_synonym ref_mutex = "(tid \<times> nat) option"

definition ref_lock :: "tid \<Rightarrow> ref_mutex \<Rightarrow> ref_mutex option" where
  "ref_lock t m = (case m of
     None \<Rightarrow> Some (Some (t, 1))
   | Some (u, n) \<Rightarrow> if u = t then Some (Some (t, Suc n)) else None)"

definition ref_unlock :: "tid \<Rightarrow> ref_mutex \<Rightarrow> ref_mutex" where
  "ref_unlock t m = (case m of
     None \<Rightarrow> None
   | Some (u, n) \<Rightarrow> if u = t then if n \<le> 1 then None else Some (u, n - 1) else m)"

definition ref_posix :: "(ref_mutex, nat) posix" where
  "ref_posix = \<lparr>
     p_mutexattr_init = \<lparr>attr_type = PTHREAD_MUTEX_DEFAULT\<rparr>,
     p_mutexattr_settype = (\<lambda>a k. a\<lparr>attr_type := k\<rparr>),
     p_mutex_init = (\<lambda>a. None),
     p_mutex_lock = ref_lock,
     p_mutex_trylock = (\<lambda>t m. case ref_lock t m of Some m' \<Rightarrow> (0, m') | None \<Rightarrow> (16, m)),
     p_mutex_unlock = ref_unlock,
     p_sem_init = (\<lambda>v. nat (sint v)),
     p_sem_wait = (\<lambda>intr s. if intr then Some (- 1, s) else if s = 0 then None else Some (0, s - 1)),
     p_sem_post = Suc,
     p_sem_getvalue = of_nat\<rparr>"

definition ref_depth :: "ref_mutex \<Rightarrow> nat" where
  "ref_depth m = (case m of None \<Rightarrow> 0 | Some (_, n) \<Rightarrow> n)"

interpretation ref: posix_sync ref_posix "map_option fst" ref_depth id
  by unfold_locales
    (auto simp: ref_posix_def ref_lock_def ref_unlock_def ref_depth_def split: option.splits)

text \<open>The same with a type for every mutex; a mutex that is not recursive makes its owner wait.\<close>

definition typed_lock :: "tid \<Rightarrow> mutex_type \<times> ref_mutex \<Rightarrow> (mutex_type \<times> ref_mutex) option" where
  "typed_lock t m = (if fst m \<noteq> PTHREAD_MUTEX_RECURSIVE \<and> snd m \<noteq> None then None
     else map_option (Pair (fst m)) (ref_lock t (snd m)))"

definition ref_mutexes :: "(mutex_type \<times> ref_mutex, nat) posix" where
  "ref_mutexes = \<lparr>
     p_mutexattr_init = \<lparr>attr_type = PTHREAD_MUTEX_DEFAULT\<rparr>,
     p_mutexattr_settype = (\<lambda>a k. a\<lparr>attr_type := k\<rparr>),
     p_mutex_init = (\<lambda>a. (attr_type a, None)),
     p_mutex_lock = typed_lock,
     p_mutex_trylock = (\<lambda>t m. case typed_lock t m of Some m' \<Rightarrow> (0, m') | None \<Rightarrow> (16, m)),
     p_mutex_unlock = (\<lambda>t m. (fst m, ref_unlock t (snd m))),
     p_sem_init = p_sem_init ref_posix,
     p_sem_wait = p_sem_wait ref_posix,
     p_sem_post = Suc,
     p_sem_getvalue = of_nat\<rparr>"

interpretation refm: posix_mutexes ref_mutexes "\<lambda>m. map_option fst (snd m)" "\<lambda>m. ref_depth (snd m)" id fst
  by unfold_locales
    (auto simp: ref_mutexes_def typed_lock_def ref_posix_def ref_lock_def ref_unlock_def ref_depth_def
      split: option.splits if_splits)

end
