(* ===== verification/Mutex.thy ===== *)
theory Mutex
  imports Posix
begin

text \<open>
  Model of \<open>src/src/Mutex.h\<close> and \<open>src/src/Mutex.cpp\<close> (the pthread build): the recursive
  mutex over the system's calls, and the scoped locker, whose constructor and destructor do
  nothing for a null pointer. The result \<open>None\<close> means that the calling thread blocks.
\<close>

section \<open>Mutex\<close>

text \<open>
  The constructor. \<open>PTHREAD_MUTEX_RECURSIVE_NP\<close> is the name of the same type on other systems; the attribute
  object is local, and its destruction does not affect the mutex.
\<close>

definition mutex_new :: "('m, 's) posix \<Rightarrow> 'm" where
  "mutex_new P = (let attr = p_mutexattr_settype P (p_mutexattr_init P) PTHREAD_MUTEX_RECURSIVE
     in p_mutex_init P attr)"

definition mutex_lock :: "('m, 's) posix \<Rightarrow> tid \<Rightarrow> 'm \<Rightarrow> 'm option" where
  "mutex_lock P t m = p_mutex_lock P t m"

definition mutex_unlock :: "('m, 's) posix \<Rightarrow> tid \<Rightarrow> 'm \<Rightarrow> 'm" where
  "mutex_unlock P t m = p_mutex_unlock P t m"

definition mutex_tryLock :: "('m, 's) posix \<Rightarrow> tid \<Rightarrow> 'm \<Rightarrow> bool \<times> 'm" where
  "mutex_tryLock P t m = (case p_mutex_trylock P t m of (r, m') \<Rightarrow>
     if r = 0 then (True, m') else (False, m'))"

section \<open>MutexLocker\<close>

text \<open>The pointer member: \<open>None\<close> is the null pointer.\<close>

definition locker_new :: "('m, 's) posix \<Rightarrow> tid \<Rightarrow> 'm option \<Rightarrow> 'm option option" where
  "locker_new P t pMutex = (case pMutex of
     None \<Rightarrow> Some None
   | Some m \<Rightarrow> (case mutex_lock P t m of None \<Rightarrow> None | Some m' \<Rightarrow> Some (Some m')))"

definition locker_delete :: "('m, 's) posix \<Rightarrow> tid \<Rightarrow> 'm option \<Rightarrow> 'm option" where
  "locker_delete P t pMutex = (case pMutex of None \<Rightarrow> None | Some m \<Rightarrow> Some (mutex_unlock P t m))"

context posix_sync
begin

lemma new_free: "owner (mutex_new P) = None"
  by (simp add: mutex_new_def init_mutex)

end

section \<open>Sequences of calls\<close>

text \<open>
  The calls any threads make of one mutex, in the order they happen; \<open>Enter\<close> and \<open>Leave\<close> are the
  constructor and the destructor of a \<open>MutexLocker\<close>. Only \<open>tryLock\<close> has a result, the others count as true.
\<close>

datatype mcall = CallLock tid | CallTryLock tid | CallUnlock tid | Enter tid | Leave tid

fun mexec :: "('m, 's) posix \<Rightarrow> mcall \<Rightarrow> 'm \<Rightarrow> (bool \<times> 'm) option" where
  "mexec P (CallLock t) m = map_option (Pair True) (mutex_lock P t m)"
| "mexec P (CallTryLock t) m = Some (mutex_tryLock P t m)"
| "mexec P (CallUnlock t) m = Some (True, mutex_unlock P t m)"
| "mexec P (Enter t) m = (case locker_new P t (Some m) of Some (Some m') \<Rightarrow> Some (True, m') | _ \<Rightarrow> None)"
| "mexec P (Leave t) m = map_option (Pair True) (locker_delete P t (Some m))"

text \<open>A call that blocks ends the sequence.\<close>

primrec mrun :: "('m, 's) posix \<Rightarrow> mcall list \<Rightarrow> 'm \<Rightarrow> (bool list \<times> 'm) option" where
  "mrun P [] m = Some ([], m)"
| "mrun P (c # cs) m = (case mexec P c m of None \<Rightarrow> None
     | Some (b, m') \<Rightarrow> map_option (apfst (Cons b)) (mrun P cs m'))"

subsection \<open>A reentrant lock\<close>

text \<open>Nobody has the lock, or thread \<open>t\<close> has locked it \<open>n + 1\<close> times: \<open>(t, n)\<close>.\<close>

type_synonym relock = "(tid \<times> nat) option"

fun take_lock :: "tid \<Rightarrow> relock \<Rightarrow> relock option" where
  "take_lock t None = Some (Some (t, 0))"
| "take_lock t (Some (u, n)) = (if u = t then Some (Some (t, Suc n)) else None)"

fun give_lock :: "relock \<Rightarrow> relock" where
  "give_lock (Some (t, Suc n)) = Some (t, n)"
| "give_lock _ = None"

fun reentrant :: "mcall \<Rightarrow> relock \<Rightarrow> (bool \<times> relock) option" where
  "reentrant (CallLock t) l = map_option (Pair True) (take_lock t l)"
| "reentrant (CallTryLock t) l = Some (case take_lock t l of None \<Rightarrow> (False, l) | Some l' \<Rightarrow> (True, l'))"
| "reentrant (CallUnlock t) l = Some (True, give_lock l)"
| "reentrant (Enter t) l = map_option (Pair True) (take_lock t l)"
| "reentrant (Leave t) l = Some (True, give_lock l)"

primrec rrun :: "mcall list \<Rightarrow> relock \<Rightarrow> (bool list \<times> relock) option" where
  "rrun [] l = Some ([], l)"
| "rrun (c # cs) l = (case reentrant c l of None \<Rightarrow> None
     | Some (b, l') \<Rightarrow> map_option (apfst (Cons b)) (rrun cs l'))"

text \<open>A thread unlocks only what it has locked; POSIX asks for it.\<close>

fun unlocker :: "mcall \<Rightarrow> tid option" where
  "unlocker (CallUnlock t) = Some t"
| "unlocker (Leave t) = Some t"
| "unlocker _ = None"

primrec balanced :: "mcall list \<Rightarrow> relock \<Rightarrow> bool" where
  "balanced [] l \<longleftrightarrow> True"
| "balanced (c # cs) l \<longleftrightarrow> (unlocker c = None \<or> unlocker c = map_option fst l) \<and>
     (case reentrant c l of None \<Rightarrow> True | Some (b, l') \<Rightarrow> balanced cs l')"

subsection \<open>The simulation\<close>

context posix_mutexes
begin

definition as_lock :: "'m \<Rightarrow> relock \<Rightarrow> bool" where
  "as_lock m l \<longleftrightarrow> kind m = PTHREAD_MUTEX_RECURSIVE \<and> owner m = map_option fst l \<and>
     (\<forall>t n. l = Some (t, n) \<longrightarrow> depth m = Suc n)"

lemma new_as_lock: "as_lock (mutex_new P) None"
  by (simp add: as_lock_def mutex_new_def init_kind settype init_mutex)

lemma lock_as_lock:
  assumes "as_lock m l"
  shows "case take_lock t l of None \<Rightarrow> p_mutex_lock P t m = None
    | Some l' \<Rightarrow> \<exists>m'. p_mutex_lock P t m = Some m' \<and> as_lock m' l'"
proof (cases l)
  case None
  with assms lock_free[of m t] obtain m' where m': "p_mutex_lock P t m = Some m'" "owner m' = Some t" "depth m' = 1"
    by (auto simp: as_lock_def)
  then have "kind m' = kind m" by (intro lock_kind)
  with m' None assms show ?thesis by (auto simp: as_lock_def)
next
  case (Some un)
  obtain u n where un: "un = (u, n)" by (cases un)
  show ?thesis
  proof (cases "u = t")
    case True
    then obtain m' where m': "p_mutex_lock P t m = Some m'" "depth m' = Suc (depth m)"
      using assms Some un relock[of m t] by (auto simp: as_lock_def)
    then have "kind m' = kind m" "owner m' = Some t"
      using lock_kind lock_owner by blast+
    with m' Some un True assms show ?thesis by (auto simp: as_lock_def)
  next
    case False
    then show ?thesis using assms Some un lock_blocks[of m u t] by (auto simp: as_lock_def)
  qed
qed

lemma unlock_as_lock:
  assumes "as_lock m l" and "map_option fst l = Some t"
  shows "as_lock (p_mutex_unlock P t m) (give_lock l)"
proof -
  obtain n where l: "l = Some (t, n)" using assms(2) by (cases l) auto
  with assms(1) have m: "owner m = Some t" "depth m = Suc n" "kind m = PTHREAD_MUTEX_RECURSIVE" by (auto simp: as_lock_def)
  then show ?thesis using unlock_last[OF m(1)] unlock_nested[OF m(1)] unlock_kind[of t m] l
    by (cases n) (auto simp: as_lock_def)
qed

text \<open>\<open>tryLock\<close> takes the mutex whenever \<open>lock\<close> would not block.\<close>

lemma try_lock:
  "mutex_tryLock P t m = (case p_mutex_lock P t m of Some m' \<Rightarrow> (True, m') | None \<Rightarrow> (False, m))"
  using trylock_free[of t m] trylock_busy[of t m]
  by (cases "p_mutex_lock P t m") (auto simp: mutex_tryLock_def split: prod.splits)

lemma call_as_lock:
  assumes "as_lock m l" and "unlocker c = None \<or> unlocker c = map_option fst l"
  shows "case reentrant c l of None \<Rightarrow> mexec P c m = None
    | Some (b, l') \<Rightarrow> \<exists>m'. mexec P c m = Some (b, m') \<and> as_lock m' l'"
proof (cases c)
  case (CallLock t)
  then show ?thesis using lock_as_lock[OF assms(1), of t] by (auto simp: mutex_lock_def split: option.splits)
next
  case (CallTryLock t)
  then show ?thesis using lock_as_lock[OF assms(1), of t] assms(1) by (auto simp: try_lock split: option.splits)
next
  case (CallUnlock t)
  then have "map_option fst l = Some t" using assms(2) by simp
  from unlock_as_lock[OF assms(1) this] CallUnlock show ?thesis by (simp add: mutex_unlock_def)
next
  case (Enter t)
  then show ?thesis
    using lock_as_lock[OF assms(1), of t] by (auto simp: locker_new_def mutex_lock_def split: option.splits)
next
  case (Leave t)
  then have "map_option fst l = Some t" using assms(2) by simp
  from unlock_as_lock[OF assms(1) this] Leave show ?thesis by (simp add: locker_delete_def mutex_unlock_def)
qed

lemma run_as_lock:
  "as_lock m l \<Longrightarrow> balanced cs l \<Longrightarrow> case rrun cs l of None \<Rightarrow> mrun P cs m = None
    | Some (bs, l') \<Rightarrow> \<exists>m'. mrun P cs m = Some (bs, m') \<and> owner m' = map_option fst l'"
proof (induction cs arbitrary: m l)
  case Nil
  then show ?case by (simp add: as_lock_def)
next
  case (Cons c cs)
  note step = call_as_lock[OF Cons.prems(1), of c]
  show ?case
  proof (cases "reentrant c l")
    case None
    then show ?thesis using step Cons.prems(2) by simp
  next
    case (Some bl)
    obtain b l' where bl: "bl = (b, l')" by (cases bl)
    with Some step Cons.prems(2) obtain m' where "mexec P c m = Some (b, m')" "as_lock m' l'" by auto
    with Cons.IH[of m' l'] Cons.prems(2) Some bl show ?thesis by (fastforce split: option.splits)
  qed
qed

end

section \<open>Properties\<close>

text \<open>C38: a mutex is a reentrant lock: whatever calls of \<open>lock\<close>, \<open>tryLock\<close> and \<open>unlock\<close> any threads make of a new
  one, and whatever lockers they create and destroy, the first call that blocks and all results of
  \<open>tryLock\<close> are those of a lock that its owner may take again and has to release as often, and the same
  thread owns it at the end. (A thread unlocks only what it has locked.)\<close>

theorem mutex_recursive:
  assumes "posix_mutexes P owner depth tokens kind" and "balanced cs None"
  shows "case rrun cs None of None \<Rightarrow> mrun P cs (mutex_new P) = None
    | Some (bs, l) \<Rightarrow> \<exists>m. mrun P cs (mutex_new P) = Some (bs, m) \<and> owner m = map_option fst l"
  by (rule posix_mutexes.run_as_lock[OF assms(1) posix_mutexes.new_as_lock[OF assms(1)] assms(2)])

theorem mutex_recursive_witness:
  "\<exists>m. mrun ref_mutexes [Enter 7, CallLock 7, CallTryLock 8, CallUnlock 7, CallTryLock 8, Leave 7, CallTryLock 8] (mutex_new ref_mutexes) =
     Some ([True, True, False, True, False, True, True], m) \<and>
   mrun ref_mutexes [Enter 7, CallLock 8] (mutex_new ref_mutexes) = None"
  using mutex_recursive[OF refm.posix_mutexes_axioms, of "[Enter 7, CallLock 7, CallTryLock 8, CallUnlock 7, CallTryLock 8, Leave 7, CallTryLock 8]"]
    mutex_recursive[OF refm.posix_mutexes_axioms, of "[Enter 7, CallLock 8]"]
  by auto

end
