(* ===== verification/Guarded.thy ===== *)
theory Guarded
  imports Mutex
begin

text \<open>
  Mutual exclusion, for the classes whose operations are interleaved statement by statement: which
  thread owns a mutex, told by the statement it executes next.
\<close>

section \<open>Who holds a mutex\<close>

text \<open>The owner of a mutex is the thread whose statement is in the critical section.\<close>

definition locked_by :: "tid option \<Rightarrow> ('pc \<Rightarrow> bool) \<Rightarrow> 'pc list \<Rightarrow> bool" where
  "locked_by own crit pcs \<longleftrightarrow> (\<forall>t. own = Some t \<longleftrightarrow> t < length pcs \<and> crit (pcs ! t))"

lemma locked_keep: "locked_by own crit pcs \<Longrightarrow> crit pc = crit (pcs ! t) \<Longrightarrow> locked_by own crit (pcs[t := pc])"
  unfolding locked_by_def length_list_update by (metis nth_list_update_eq nth_list_update_neq)

lemma locked_take: "locked_by None crit pcs \<Longrightarrow> t < length pcs \<Longrightarrow> crit pc \<Longrightarrow> locked_by (Some t) crit (pcs[t := pc])"
  unfolding locked_by_def length_list_update by (simp add: nth_list_update)

lemma locked_drop: "locked_by (Some t) crit pcs \<Longrightarrow> \<not> crit pc \<Longrightarrow> locked_by None crit (pcs[t := pc])"
  unfolding locked_by_def length_list_update by (metis nth_list_update option.distinct(1) option.inject)

lemma locked_none: "locked_by own crit pcs \<Longrightarrow> \<forall>pc \<in> set pcs. \<not> crit pc \<Longrightarrow> own = None"
  by (metis locked_by_def not_None_eq nth_mem)

lemma locked_init: "\<not> crit pc \<Longrightarrow> locked_by None crit (replicate n pc)"
  by (simp add: locked_by_def)

text \<open>
  A mutex that is never locked twice by its owner: every statement leaves it alone, takes it or
  releases it, and changes the side of its thread accordingly.
\<close>

context posix_sync
begin

definition guarded :: "'m \<Rightarrow> ('pc \<Rightarrow> bool) \<Rightarrow> 'pc list \<Rightarrow> bool" where
  "guarded m crit pcs \<longleftrightarrow> locked_by (owner m) crit pcs \<and> (owner m \<noteq> None \<longrightarrow> depth m = 1)"

lemma guarded_init: "\<not> crit pc \<Longrightarrow> guarded (mutex_new P) crit (replicate n pc)"
  using init_mutex by (simp add: guarded_def mutex_new_def locked_init)

lemma guarded_effect:
  assumes inv: "guarded m crit pcs" and t: "t < length pcs"
    and "m' = m \<and> crit pc = crit (pcs ! t) \<or> \<not> crit (pcs ! t) \<and> crit pc \<and> p_mutex_lock P t m = Some m' \<or>
      crit (pcs ! t) \<and> \<not> crit pc \<and> m' = p_mutex_unlock P t m"
  shows "guarded m' crit (pcs[t := pc])"
  using assms(3)
proof (elim disjE conjE)
  assume c: "\<not> crit (pcs ! t)" "crit pc" and l: "p_mutex_lock P t m = Some m'"
  have "owner m \<noteq> Some t" using inv c(1) by (auto simp: guarded_def locked_by_def)
  then have "owner m = None" "owner m' = Some t" "depth m' = 1" using lock_owner[OF l] by auto
  with locked_take[of crit pcs t pc] t c inv show ?thesis by (simp add: guarded_def)
next
  assume c: "crit (pcs ! t)" "\<not> crit pc" and m': "m' = p_mutex_unlock P t m"
  have o: "owner m = Some t" using inv c(1) t by (auto simp: guarded_def locked_by_def)
  then have "owner m' = None" using unlock_last[OF o] inv m' by (simp add: guarded_def)
  with locked_drop[of t crit pcs pc] c inv o show ?thesis by (simp add: guarded_def)
qed (use inv in \<open>auto simp: guarded_def intro!: locked_keep\<close>)

lemma guarded_alone:
  "guarded m crit pcs \<Longrightarrow> t < length pcs \<Longrightarrow> u < length pcs \<Longrightarrow> crit (pcs ! t) \<Longrightarrow> crit (pcs ! u) \<Longrightarrow> t = u"
  unfolding guarded_def locked_by_def by (metis option.inject)

text \<open>A thread inside can release the mutex, and any thread can take it when nobody is inside.\<close>

lemma guarded_free: "guarded m crit pcs \<Longrightarrow> \<forall>pc \<in> set pcs. \<not> crit pc \<Longrightarrow> \<exists>m'. p_mutex_lock P t m = Some m'"
  using locked_none[of "owner m" crit pcs] lock_free[of m t] by (auto simp: guarded_def)

end

end
