(* ===== verification/Sema.thy ===== *)
theory Sema
  imports Posix "HOL-Library.Signed_Division"
begin

text \<open>
  Model of \<open>src/src/Sema.h\<close> and \<open>src/src/Sema.cpp\<close>: the semaphore of the POSIX build,
  with its deadline arithmetic at the width of the C types, the loop that restarts an
  interrupted timed wait, and the loop of \<open>notify\<close>; and the deadline of the Mac OS build.
  The clock reading and the results of \<open>sem_timedwait\<close> are parameters.
\<close>

section \<open>Deadlines\<close>

record timespec =
  tv_sec :: "64 word"
  tv_nsec :: "64 word"

record timeval =
  tvl_sec :: "64 word"
  tvl_usec :: int32

text \<open>Division of \<open>long\<close> values truncates towards zero.\<close>

definition long_div :: "64 word \<Rightarrow> 64 word \<Rightarrow> 64 word" where
  "long_div a b = word_of_int (sint a sdiv sint b)"

definition long_mod :: "64 word \<Rightarrow> 64 word \<Rightarrow> 64 word" where
  "long_mod a b = word_of_int (sint a smod sint b)"

definition carry_nsec :: "timespec \<Rightarrow> timespec" where
  "carry_nsec ts =
     (let ts = ts\<lparr>tv_sec := tv_sec ts + long_div (tv_nsec ts) 1000000000\<rparr>
      in ts\<lparr>tv_nsec := long_mod (tv_nsec ts) 1000000000\<rparr>)"

definition deadline :: "timespec \<Rightarrow> u32 \<Rightarrow> timespec" where
  "deadline ts milliseconds =
     (let ts = ts\<lparr>tv_sec := tv_sec ts + ucast (milliseconds div 1000)\<rparr>;
          ts = ts\<lparr>tv_nsec := tv_nsec ts + ucast ((milliseconds mod 1000) * 1000000)\<rparr>
      in carry_nsec ts)"

text \<open>Mac OS: \<open>tv_usec\<close> is an \<open>int\<close>, so the sum is computed as \<open>unsigned\<close>.\<close>

definition apple_deadline :: "timeval \<Rightarrow> u32 \<Rightarrow> timespec" where
  "apple_deadline tv milliseconds =
     carry_nsec \<lparr>tv_sec = tvl_sec tv + ucast (milliseconds div 1000),
       tv_nsec = ucast (tvl_usec tv * 1000 + (milliseconds mod 1000) * 1000)\<rparr>"

definition nanos :: "timespec \<Rightarrow> int" where
  "nanos ts = sint (tv_sec ts) * 10 ^ 9 + sint (tv_nsec ts)"

definition nanos_tv :: "timeval \<Rightarrow> int" where
  "nanos_tv tv = sint (tvl_sec tv) * 10 ^ 9 + sint (tvl_usec tv) * 1000"

text \<open>A clock reading: the fraction is below one second, and the seconds are far from overflow.\<close>

definition clock_ok :: "timespec \<Rightarrow> bool" where
  "clock_ok ts \<longleftrightarrow> 0 \<le> sint (tv_sec ts) \<and> sint (tv_sec ts) < 2 ^ 62 \<and> 0 \<le> sint (tv_nsec ts) \<and> sint (tv_nsec ts) < 10 ^ 9"

definition clock_tv_ok :: "timeval \<Rightarrow> bool" where
  "clock_tv_ok tv \<longleftrightarrow> 0 \<le> sint (tvl_sec tv) \<and> sint (tvl_sec tv) < 2 ^ 62 \<and> 0 \<le> sint (tvl_usec tv) \<and> sint (tvl_usec tv) < 10 ^ 6"

definition normalised :: "timespec \<Rightarrow> bool" where
  "normalised ts \<longleftrightarrow> 0 \<le> sint (tv_nsec ts) \<and> sint (tv_nsec ts) < 10 ^ 9"

lemma sint_add64:
  "- (2 ^ 63) \<le> sint a + sint b \<Longrightarrow> sint a + sint b < 2 ^ 63 \<Longrightarrow> sint (a + b :: 64 word) = sint a + sint b"
  by (simp add: signed_take_bit_int_eq_self sint_word_ariths(1))

lemma sint_ucast64: "sint (ucast (x :: u32) :: 64 word) = uint x"
  unfolding sint_uint uint_ucast64 using uint_lt2p[of x] uint_ge_0[of x]
  by (intro signed_take_bit_int_eq_self) (simp_all del: uint_ge_0 unsigned_greater_eq)

lemma sint_add_ucast:
  assumes "0 \<le> sint a" and "sint a < 2 ^ 62"
  shows "sint (a + ucast (x :: u32) :: 64 word) = sint a + uint x"
proof -
  have "- (2 ^ 63) \<le> sint a + uint x" "sint a + uint x < 2 ^ 63"
    using assms uint_lt2p[of x] uint_ge_0[of x] by (simp_all del: uint_ge_0 unsigned_greater_eq)
  then show ?thesis by (simp add: sint_add64 sint_ucast64)
qed

lemma sint_of_int64: "- (2 ^ 63) \<le> k \<Longrightarrow> k < 2 ^ 63 \<Longrightarrow> sint (word_of_int k :: 64 word) = k"
  by (simp add: sint_sbintrunc' signed_take_bit_int_eq_self)

lemma carry_nsec_exact:
  assumes "0 \<le> sint (tv_sec ts)" and "sint (tv_sec ts) < 2 ^ 62 + 2 ^ 33"
    and "0 \<le> sint (tv_nsec ts)" and "sint (tv_nsec ts) < 2 ^ 40"
  shows "normalised (carry_nsec ts)" and "nanos (carry_nsec ts) = nanos ts"
proof -
  let ?n = "sint (tv_nsec ts)"
  have q: "?n sdiv 10 ^ 9 = ?n div 10 ^ 9" "?n smod 10 ^ 9 = ?n mod 10 ^ 9"
    using assms(3) by (cases "?n = 0"; simp add: signed_divide_int_def signed_modulo_int_def minus_div_mult_eq_mod)+
  have range: "0 \<le> ?n div 10 ^ 9" "?n div 10 ^ 9 < 2 ^ 40" "0 \<le> ?n mod 10 ^ 9" "?n mod 10 ^ 9 < 10 ^ 9"
    using assms(3,4) by (simp_all add: pos_imp_zdiv_nonneg_iff)
  have c: "sint (1000000000 :: 64 word) = 10 ^ 9" by simp
  have d: "sint (long_div (tv_nsec ts) 1000000000) = ?n div 10 ^ 9"
    unfolding long_div_def c q using range by (intro sint_of_int64) simp_all
  have m: "sint (long_mod (tv_nsec ts) 1000000000) = ?n mod 10 ^ 9"
    unfolding long_mod_def c q using range by (intro sint_of_int64) simp_all
  have s: "sint (tv_sec ts + long_div (tv_nsec ts) 1000000000) = sint (tv_sec ts) + ?n div 10 ^ 9"
    using assms(1,2) range d by (subst sint_add64) simp_all
  show "normalised (carry_nsec ts)" using range m by (simp add: carry_nsec_def Let_def normalised_def)
  have "?n = ?n div 10 ^ 9 * 10 ^ 9 + ?n mod 10 ^ 9" by simp
  then show "nanos (carry_nsec ts) = nanos ts"
    using s m by (simp add: carry_nsec_def Let_def nanos_def algebra_simps)
qed

lemma uint_ms:
  "uint ((m :: u32) div 1000) = uint m div 1000" "uint (m mod 1000) = uint m mod 1000"
  "uint ((m mod 1000) * 1000000) = uint m mod 1000 * 1000000" "uint ((m mod 1000) * 1000) = uint m mod 1000 * 1000"
proof -
  have c: "uint (1000 :: u32) = 1000" "uint (1000000 :: u32) = 1000000" by simp_all
  show d: "uint (m div 1000) = uint m div 1000" and r: "uint (m mod 1000) = uint m mod 1000"
    by (simp_all add: uint_div uint_mod c)
  have "uint m mod 1000 < 1000" "0 \<le> uint m mod 1000" by simp_all
  then show "uint ((m mod 1000) * 1000000) = uint m mod 1000 * 1000000"
    and "uint ((m mod 1000) * 1000) = uint m mod 1000 * 1000"
    by (simp_all add: uint_word_ariths(3) r c)
qed

lemma ms_split: "uint (m :: u32) * 10 ^ 6 = (uint m div 1000) * 10 ^ 9 + uint m mod 1000 * 10 ^ 6"
proof -
  have "uint m = uint m div 1000 * 1000 + uint m mod 1000" by (rule div_mult_mod_eq[symmetric])
  then have "uint m * 10 ^ 6 = (uint m div 1000 * 1000 + uint m mod 1000) * 10 ^ 6" by simp
  then show ?thesis unfolding distrib_right by simp
qed

lemma ms_range:
  "0 \<le> uint (m :: u32) div 1000" "uint m div 1000 < 2 ^ 32" "0 \<le> uint m mod 1000" "uint m mod 1000 < 1000"
  using uint_lt2p[of m] by (simp_all add: pos_imp_zdiv_nonneg_iff)

lemma uint_eq_sint: "0 \<le> sint (a :: int32) \<Longrightarrow> uint a = sint a"
  using sint_less[of a] by (simp add: uint_sint take_bit_int_eq_self)

lemma powers: "(2 :: int) ^ 32 = 4294967296" "(2 :: int) ^ 40 = 1099511627776" "(10 :: int) ^ 9 = 1000000000" "(10 :: int) ^ 6 = 1000000"
  by simp_all

lemma deadline_exact:
  assumes "clock_ok ts"
  shows "normalised (deadline ts m)" and "nanos (deadline ts m) = nanos ts + uint m * 10 ^ 6"
proof -
  let ?sec = "tv_sec ts + ucast (m div 1000)" and ?nsec = "tv_nsec ts + ucast ((m mod 1000) * 1000000)"
  note r = ms_range[of m]
  have s: "sint ?sec = sint (tv_sec ts) + uint m div 1000"
    using assms by (simp add: sint_add_ucast uint_ms clock_ok_def)
  have n: "sint ?nsec = sint (tv_nsec ts) + uint m mod 1000 * 1000000"
    using assms by (simp add: sint_add_ucast uint_ms clock_ok_def)
  have b: "0 \<le> sint (tv_nsec ts) + uint m mod 1000 * 1000000" "sint (tv_nsec ts) + uint m mod 1000 * 1000000 < 2 ^ 40"
    using assms r(3,4) unfolding clock_ok_def powers by linarith+
  let ?ts = "ts\<lparr>tv_sec := ?sec, tv_nsec := ?nsec\<rparr>"
  have "deadline ts m = carry_nsec ?ts" by (simp add: deadline_def)
  moreover have "normalised (carry_nsec ?ts)" "nanos (carry_nsec ?ts) = nanos ?ts"
    using assms r s n b carry_nsec_exact[of ?ts] by (simp_all add: clock_ok_def)
  ultimately show "normalised (deadline ts m)" and "nanos (deadline ts m) = nanos ts + uint m * 10 ^ 6"
    using s n ms_split[of m] by (simp_all add: nanos_def algebra_simps)
qed

lemma apple_deadline_value:
  assumes "clock_tv_ok tv"
  shows "normalised (apple_deadline tv m)"
    and "nanos (apple_deadline tv m) = nanos_tv tv + uint m div 1000 * 10 ^ 9 + uint m mod 1000 * 1000"
proof -
  let ?sec = "tvl_sec tv + ucast (m div 1000)" and ?u = "tvl_usec tv * 1000 + (m mod 1000) * 1000"
  note r = ms_range[of m]
  have s: "sint ?sec = sint (tvl_sec tv) + uint m div 1000"
    using assms by (simp add: sint_add_ucast uint_ms clock_tv_ok_def)
  have us: "uint (tvl_usec tv) = sint (tvl_usec tv)"
    using assms by (simp add: clock_tv_ok_def uint_eq_sint)
  then have "uint (tvl_usec tv * 1000) =sint (tvl_usec tv) * 1000"
    using assms by (simp add: uint_word_ariths(3) clock_tv_ok_def)
  have b: "0 \<le> sint (tvl_usec tv) * 1000 + uint m mod 1000 * 1000"
    "sint (tvl_usec tv) * 1000 + uint m mod 1000 * 1000 < 2 ^ 32"
    using assms r(3,4) unfolding clock_tv_ok_def powers by linarith+
  have u: "uint ?u = sint (tvl_usec tv) * 1000 + uint m mod 1000 * 1000"
    unfolding uint_word_ariths(1) uint_ms \<open>uint (tvl_usec tv * 1000) = _\<close>
    using b by (intro mod_pos_pos_trivial) simp_all
  let ?ts = "\<lparr>tv_sec = ?sec, tv_nsec = ucast ?u\<rparr>"
  have n: "sint (ucast ?u :: 64 word) = sint (tvl_usec tv) * 1000 + uint m mod 1000 * 1000"
    using u by (simp add: sint_ucast64)
  have "apple_deadline tv m = carry_nsec ?ts" by (simp add: apple_deadline_def)
  moreover have "normalised (carry_nsec ?ts)" "nanos (carry_nsec ?ts) = nanos ?ts"
    using assms r s n b carry_nsec_exact[of ?ts] by (simp_all add: clock_tv_ok_def)
  ultimately show "normalised (apple_deadline tv m)"
    and "nanos (apple_deadline tv m) = nanos_tv tv + uint m div 1000 * 10 ^ 9 + uint m mod 1000 * 1000"
    using s n by (simp_all add: nanos_def nanos_tv_def algebra_simps)
qed

section \<open>Waiting and notifying\<close>

datatype errno = EINTR | ETIMEDOUT | Other_errno int

datatype wait_outcome = Returns bool | Aborts

text \<open>
  The loop around \<open>sem_timedwait\<close>: \<open>call i\<close> is its \<open>i\<close>-th call, with the result, the
  value of \<open>errno\<close> and the semaphore it leaves. The loop may run for ever (\<open>None\<close>).
\<close>

type_synonym 's timedwait = "nat \<Rightarrow> timespec \<Rightarrow> 's \<Rightarrow> int \<times> errno \<times> 's"

partial_function (option) timed_loop ::
  "'s timedwait \<Rightarrow> timespec \<Rightarrow> nat \<Rightarrow> 's \<Rightarrow> (int \<times> errno \<times> 's) option" where
  "timed_loop call ts i s = (case call i ts s of (r, e, s') \<Rightarrow>
     if r = - 1 \<and> e = EINTR then timed_loop call ts (Suc i) s' else Some (r, e, s'))"

definition sema_new :: "('m, 's) posix \<Rightarrow> int32 \<Rightarrow> 's" where
  "sema_new P n = p_sem_init P n"

text \<open>
  \<open>wait(milliseconds)\<close>: without a timeout one \<open>sem_wait\<close>, whose failure is returned as
  false; \<open>intr\<close> says whether a signal interrupts it. An unexpected error of the timed wait
  fails an assertion.
\<close>

definition sema_wait :: "('m, 's) posix \<Rightarrow> bool \<Rightarrow> 's timedwait \<Rightarrow> timespec \<Rightarrow> u32 \<Rightarrow> 's \<Rightarrow>
    (wait_outcome \<times> 's) option" where
  "sema_wait P intr call now milliseconds s =
     (if milliseconds = 0 then (case p_sem_wait P intr s of
          None \<Rightarrow> None
        | Some (r, s') \<Rightarrow> if r = 0 then Some (Returns True, s') else Some (Returns False, s'))
      else (case timed_loop call (deadline now milliseconds) 0 s of
          None \<Rightarrow> None
        | Some (r, e, s') \<Rightarrow>
            if r = - 1 then
              if e = ETIMEDOUT then Some (Returns False, s') else Some (Aborts, s')
            else Some (Returns True, s')))"

definition sema_value :: "('m, 's) posix \<Rightarrow> 's \<Rightarrow> int32" where
  "sema_value P s = p_sem_getvalue P s"

lemma sint_inc: "sint (i :: int32) < sint (n :: int32) \<Longrightarrow> sint (i + 1) = sint i + 1"
  using sint_less[of n] sint_ge[of i]
  by (simp add: sint_word_ariths(1) signed_take_bit_int_eq_self)

function notify_from :: "('m, 's) posix \<Rightarrow> int32 \<Rightarrow> int32 \<Rightarrow> 's \<Rightarrow> 's" where
  "notify_from P increment i s =
     (if sint i < sint increment then notify_from P increment (i + 1) (p_sem_post P s) else s)"
  by pat_completeness auto
termination
  by (relation "measure (\<lambda>(P, increment, i, s). nat (sint increment - sint i))") (simp_all add: sint_inc)

declare notify_from.simps [simp del]

definition sema_notify :: "('m, 's) posix \<Rightarrow> int32 \<Rightarrow> 's \<Rightarrow> 's" where
  "sema_notify P increment s = notify_from P increment 0 s"

lemma notify_from_posts:
  "notify_from P increment i s = (p_sem_post P ^^ nat (sint increment - sint i)) s"
proof (induction P increment i s rule: notify_from.induct)
  case (1 P increment i s)
  show ?case
  proof (cases "sint i < sint increment")
    case True
    then have "nat (sint increment - sint i) = Suc (nat (sint increment - sint (i + 1)))"
      using sint_inc[OF True] by simp
    then show ?thesis using 1 True
      by (subst notify_from.simps) (simp add: funpow_swap1)
  next
    case False
    then show ?thesis by (subst notify_from.simps) simp
  qed
qed

subsection \<open>What the loop around the timed wait returns\<close>

primrec nth_call :: "'s timedwait \<Rightarrow> timespec \<Rightarrow> nat \<Rightarrow> 's \<Rightarrow> nat \<Rightarrow> int \<times> errno \<times> 's" where
  "nth_call call ts i s 0 = call i ts s"
| "nth_call call ts i s (Suc n) = nth_call call ts (Suc i) (snd (snd (call i ts s))) n"

definition interrupted :: "int \<times> errno \<times> 's \<Rightarrow> bool" where
  "interrupted r \<longleftrightarrow> fst r = - 1 \<and> fst (snd r) = EINTR"

lemma timed_loop_first:
  "\<forall>k < n. interrupted (nth_call call ts i s k) \<Longrightarrow> \<not> interrupted (nth_call call ts i s n) \<Longrightarrow>
     timed_loop call ts i s = Some (nth_call call ts i s n)"
proof (induction n arbitrary: i s)
  case 0
  then show ?case by (subst timed_loop.simps) (auto simp: interrupted_def split: prod.splits)
next
  case (Suc n)
  obtain r e s' where c: "call i ts s = (r, e, s')" by (cases "call i ts s") auto
  have "interrupted (nth_call call ts i s 0)" using Suc.prems(1) by blast
  then have "timed_loop call ts i s = timed_loop call ts (Suc i) s'"
    using c by (subst timed_loop.simps) (simp add: interrupted_def)
  moreover have "\<forall>k < n. interrupted (nth_call call ts (Suc i) s' k)"
    using Suc.prems(1) c by fastforce
  ultimately show ?case using Suc.IH[of "Suc i" s'] Suc.prems(2) c by simp
qed

lemma timed_loop_some:
  assumes "timed_loop call ts i s = Some r"
  shows "\<exists>n. \<not> interrupted (nth_call call ts i s n)"
  using _ assms
proof (rule timed_loop.raw_induct [where P = "\<lambda>call ts i s r. \<exists>n. \<not> interrupted (nth_call call ts i s n)"])
  fix loop :: "'a timedwait \<Rightarrow> timespec \<Rightarrow> nat \<Rightarrow> 'a \<Rightarrow> (int \<times> errno \<times> 'a) option" and call ts i s r
  assume IH: "\<And>call ts i s r. loop call ts i s = Some r \<Longrightarrow> \<exists>n. \<not> interrupted (nth_call call ts i s n)"
    and body: "(case call i ts s of (r, e, s') \<Rightarrow>
      if r = - 1 \<and> e = EINTR then loop call ts (Suc i) s' else Some (r, e, s')) = Some r"
  obtain x e s' where c: "call i ts s = (x, e, s')" by (cases "call i ts s") auto
  show "\<exists>n. \<not> interrupted (nth_call call ts i s n)"
  proof (cases "x = - 1 \<and> e = EINTR")
    case True
    with body c have "loop call ts (Suc i) s' = Some r" by simp
    from IH[OF this] obtain n where "\<not> interrupted (nth_call call ts (Suc i) s' n)" ..
    then have "\<not> interrupted (nth_call call ts i s (Suc n))" using c by simp
    then show ?thesis ..
  next
    case False
    then have "\<not> interrupted (nth_call call ts i s 0)" using c by (simp add: interrupted_def)
    then show ?thesis ..
  qed
qed


context posix_sync
begin

lemma post_n: "tokens ((p_sem_post P ^^ n) s) = tokens s + n"
  by (induction n) (simp_all add: post)

lemma notify_tokens: "tokens (sema_notify P increment s) = tokens s + nat (sint increment)"
  by (simp add: sema_notify_def notify_from_posts post_n)

lemma wait_untimed:
  "sema_wait P True call now 0 s = Some (Returns False, s) \<and>
   (if tokens s = 0 then sema_wait P False call now 0 s = None
    else \<exists>s'. sema_wait P False call now 0 s = Some (Returns True, s') \<and> Suc (tokens s') = tokens s)"
  using wait_interrupted[of s] wait_blocks[of s] wait_takes[of s] by (auto simp: sema_wait_def)

end

section \<open>Properties\<close>

text \<open>C39: the deadline computed for a timed wait is exactly the given number of milliseconds after
  the clock reading, with a fraction below one second: no intermediate value overflows.\<close>

theorem sema_deadline_exact:
  assumes "clock_ok now"
  shows "normalised (deadline now ms) \<and> nanos (deadline now ms) = nanos now + uint ms * 10 ^ 6"
  using deadline_exact[OF assms] by simp

theorem sema_deadline_exact_witness:
  "normalised (deadline \<lparr>tv_sec = 7, tv_nsec = 900000000\<rparr> 2500) \<and>
   nanos (deadline \<lparr>tv_sec = 7, tv_nsec = 900000000\<rparr> 2500) = 10400000000"
  using sema_deadline_exact[of "\<lparr>tv_sec = 7, tv_nsec = 900000000\<rparr>" 2500]
  by (simp add: clock_ok_def nanos_def)

text \<open>On Mac OS the deadline is never late and is exact only for whole seconds: of every other
  timeout the fraction is counted in microseconds, so it is a thousand times too short.\<close>

theorem apple_deadline_early:
  assumes "clock_tv_ok now"
  shows "nanos (apple_deadline now ms) = nanos_tv now + uint ms div 1000 * 10 ^ 9 + uint ms mod 1000 * 1000 \<and>
     nanos (apple_deadline now ms) \<le> nanos_tv now + uint ms * 10 ^ 6 \<and>
     (nanos (apple_deadline now ms) = nanos_tv now + uint ms * 10 ^ 6 \<longleftrightarrow> uint ms mod 1000 = 0)"
proof -
  have "nanos_tv now + uint ms * 10 ^ 6 - nanos (apple_deadline now ms) = uint ms mod 1000 * 999000"
    using apple_deadline_value(2)[OF assms, of ms] ms_split[of ms] by (simp add: algebra_simps)
  with apple_deadline_value(2)[OF assms, of ms] ms_range(3)[of ms] show ?thesis by linarith
qed

theorem apple_deadline_early_witness:
  "nanos (apple_deadline \<lparr>tvl_sec = 7, tvl_usec = 5\<rparr> 500) = nanos_tv \<lparr>tvl_sec = 7, tvl_usec = 5\<rparr> + 500000"
  using apple_deadline_early[of "\<lparr>tvl_sec = 7, tvl_usec = 5\<rparr>" 500] by (simp add: clock_tv_ok_def)

text \<open>A timed wait restarts after every interruption, all with the same deadline, and returns by
  the first call that is not interrupted: true if it took the semaphore, false if it timed out, an
  assertion failure for any other error. It does not return if every call is interrupted.\<close>

theorem sema_wait_timed:
  assumes "ms \<noteq> 0" and "calls = nth_call call (deadline now ms) 0 s"
  shows "(\<forall>n r e s'. (\<forall>k < n. interrupted (calls k)) \<and> calls n = (r, e, s') \<and> \<not> interrupted (calls n) \<longrightarrow>
        sema_wait P intr call now ms s = Some (if r \<noteq> - 1 then Returns True
          else if e = ETIMEDOUT then Returns False else Aborts, s')) \<and>
     ((\<forall>n. interrupted (calls n)) \<longrightarrow> sema_wait P intr call now ms s = None)"
proof (intro conjI allI impI)
  fix n r e s'
  assume "(\<forall>k < n. interrupted (calls k)) \<and> calls n = (r, e, s') \<and> \<not> interrupted (calls n)"
  then have "timed_loop call (deadline now ms) 0 s = Some (r, e, s')"
    using timed_loop_first[of n call "deadline now ms" 0 s] assms(2) by metis
  with assms(1) show "sema_wait P intr call now ms s = Some (if r \<noteq> - 1 then Returns True
      else if e = ETIMEDOUT then Returns False else Aborts, s')" by (simp add: sema_wait_def)
next
  assume "\<forall>n. interrupted (calls n)"
  then have "timed_loop call (deadline now ms) 0 s = None"
    using timed_loop_some[of call "deadline now ms" 0 s] assms(2) by (metis not_None_eq)
  then show "sema_wait P intr call now ms s = None" using assms(1) by (simp add: sema_wait_def)
qed

theorem sema_wait_timed_witness:
  "sema_wait ref_posix False (\<lambda>i ts s. if i = 0 then (- 1, EINTR, s) else (0, EINTR, s - 1))
     \<lparr>tv_sec = 7, tv_nsec = 0\<rparr> 5 (3 :: nat) = Some (Returns True, 2)"
proof -
  let ?call = "\<lambda>i (ts :: timespec) (s :: nat). if i = (0 :: nat) then (- 1, EINTR, s) else (0 :: int, EINTR, s - 1)"
  let ?now = "\<lparr>tv_sec = 7, tv_nsec = 0\<rparr>"
  let ?calls = "nth_call ?call (deadline ?now 5) 0 3"
  have "(\<forall>k < 1. interrupted (?calls k)) \<and> ?calls 1 = (0, EINTR, 2) \<and> \<not> interrupted (?calls 1)"
    by (simp add: interrupted_def)
  moreover have "(5 :: u32) \<noteq> 0" by simp
  ultimately have "sema_wait ref_posix False ?call ?now 5 3 =
      Some (if (0 :: int) \<noteq> - 1 then Returns True else if EINTR = ETIMEDOUT then Returns False else Aborts, 2)"
    using sema_wait_timed[of 5 ?calls ?call ?now 3 ref_posix False] by blast
  then show ?thesis by simp
qed

text \<open>A wait without a timeout blocks exactly when no token is left and otherwise takes one and
  returns true; but if a signal interrupts it, it returns false without a token, although a timed
  wait would have been restarted.\<close>

theorem sema_wait_untimed:
  assumes "posix_sync P owner depth tokens"
  shows "sema_wait P True call now 0 s = Some (Returns False, s) \<and>
   (if tokens s = 0 then sema_wait P False call now 0 s = None
    else \<exists>s'. sema_wait P False call now 0 s = Some (Returns True, s') \<and> Suc (tokens s') = tokens s)"
  by (rule posix_sync.wait_untimed[OF assms])

theorem sema_wait_untimed_witness:
  "sema_wait ref_posix True (\<lambda>_ _ s. (0, EINTR, s)) \<lparr>tv_sec = 7, tv_nsec = 0\<rparr> 0 3 = Some (Returns False, 3)"
  using sema_wait_untimed[OF ref.posix_sync_axioms] by blast

text \<open>\<open>notify(increment)\<close> adds exactly \<open>increment\<close> tokens, and none for a negative one.\<close>

theorem sema_notify_tokens:
  assumes "posix_sync P owner depth tokens"
  shows "tokens (sema_notify P increment s) = tokens s + nat (sint increment)"
  by (rule posix_sync.notify_tokens[OF assms])

theorem sema_notify_tokens_witness: "sema_notify ref_posix 3 4 = 7"
  using sema_notify_tokens[OF ref.posix_sync_axioms, of 3 4] by simp

end
