(* ===== verification/Queue.thy ===== *)
theory Queue
  imports Guarded Sema
begin

text \<open>
  Model of \<open>src/src/Queue.h\<close>: the thread-safe queue as a transition system. Every thread
  runs one operation at a time; its program counter names the statement it executes next, and
  threads interleave between statements. A blocked statement has no step. Calling
  \<open>front\<close> on an empty \<open>std::queue\<close> is undefined behaviour, recorded in \<open>q_ub\<close>;
  nothing happens after it. \<open>q_in\<close> and \<open>q_out\<close> record, for the statements only, the items
  ever pushed and those removed by \<open>dequeue\<close> or \<open>clear\<close>.
\<close>

section \<open>State\<close>

datatype 'a op = OpEnqueue 'a | OpDequeue | OpHead | OpCount | OpClear

datatype 'a ret = RUnit | RItem 'a | RCount int32

datatype 'a pc = Idle | Finished "'a ret"
  | Enq 'a | EnqPush 'a | EnqNotify | EnqUnlock
  | Deq | DeqLock | DeqFront | DeqPop 'a | DeqUnlock 'a
  | Head | HeadFront | HeadUnlock 'a
  | Count | CountSize | CountUnlock int32
  | Clr | ClrLoop int32 | ClrUnlock

record ('m, 's, 'a) qstate =
  q_mutex :: 'm
  q_sem :: 's
  q_items :: "'a list"
  q_pcs :: "'a pc list"
  q_ub :: bool
  q_in :: "'a list"
  q_out :: "'a list"

definition queue_new :: "('m, 's) posix \<Rightarrow> nat \<Rightarrow> ('m, 's, 'a) qstate" where
  "queue_new P n = \<lparr>q_mutex = mutex_new P, q_sem = sema_new P 0, q_items = [],
     q_pcs = replicate n Idle, q_ub = False, q_in = [], q_out = []\<rparr>"

definition go :: "tid \<Rightarrow> 'a pc \<Rightarrow> ('m, 's, 'a) qstate \<Rightarrow> ('m, 's, 'a) qstate" where
  "go t pc st = st\<lparr>q_pcs := (q_pcs st)[t := pc]\<rparr>"

section \<open>Statements\<close>

text \<open>\<open>MutexLocker locker(&m_mutex)\<close> and its destructor.\<close>

definition locker_in :: "('m, 's) posix \<Rightarrow> tid \<Rightarrow> 'a pc \<Rightarrow> ('m, 's, 'a) qstate \<Rightarrow> ('m, 's, 'a) qstate option" where
  "locker_in P t pc st = (case locker_new P t (Some (q_mutex st)) of
     Some (Some m) \<Rightarrow> Some (go t pc (st\<lparr>q_mutex := m\<rparr>)) | _ \<Rightarrow> None)"

definition locker_out :: "('m, 's) posix \<Rightarrow> tid \<Rightarrow> 'a pc \<Rightarrow> ('m, 's, 'a) qstate \<Rightarrow> ('m, 's, 'a) qstate option" where
  "locker_out P t pc st = (case locker_delete P t (Some (q_mutex st)) of
     Some m \<Rightarrow> Some (go t pc (st\<lparr>q_mutex := m\<rparr>)) | None \<Rightarrow> None)"

text \<open>\<open>m_semaphore.wait();\<close> with the default timeout 0; its result is ignored.\<close>

definition sem_wait_stmt :: "('m, 's) posix \<Rightarrow> bool \<Rightarrow> tid \<Rightarrow> 'a pc \<Rightarrow> ('m, 's, 'a) qstate \<Rightarrow>
    ('m, 's, 'a) qstate option" where
  "sem_wait_stmt P intr t pc st =
     (case sema_wait P intr (\<lambda>_ _ s. (0, EINTR, s)) \<lparr>tv_sec = 0, tv_nsec = 0\<rparr> 0 (q_sem st) of
        Some (_, s) \<Rightarrow> Some (go t pc (st\<lparr>q_sem := s\<rparr>)) | None \<Rightarrow> None)"

text \<open>
  One statement of thread \<open>t\<close>. The last test of the loop in \<open>clear\<close> and the assignment
  after it are one step: the mutex is held and no other thread can tell them apart.
\<close>

fun exec :: "('m, 's) posix \<Rightarrow> bool \<Rightarrow> tid \<Rightarrow> 'a pc \<Rightarrow> ('m, 's, 'a) qstate \<Rightarrow> ('m, 's, 'a) qstate option" where
  "exec P intr t Idle st = None"
| "exec P intr t (Finished r) st = None"
| "exec P intr t (Enq x) st = locker_in P t (EnqPush x) st"
| "exec P intr t (EnqPush x) st = Some (go t EnqNotify (st\<lparr>q_items := q_items st @ [x], q_in := q_in st @ [x]\<rparr>))"
| "exec P intr t EnqNotify st = Some (go t EnqUnlock (st\<lparr>q_sem := sema_notify P 1 (q_sem st)\<rparr>))"
| "exec P intr t EnqUnlock st = locker_out P t (Finished RUnit) st"
| "exec P intr t Deq st = sem_wait_stmt P intr t DeqLock st"
| "exec P intr t DeqLock st = locker_in P t DeqFront st"
| "exec P intr t DeqFront st = (case q_items st of
     [] \<Rightarrow> Some (st\<lparr>q_ub := True\<rparr>) | x # _ \<Rightarrow> Some (go t (DeqPop x) st))"
| "exec P intr t (DeqPop x) st = (case q_items st of
     [] \<Rightarrow> Some (st\<lparr>q_ub := True\<rparr>)
   | _ # xs \<Rightarrow> Some (go t (DeqUnlock x) (st\<lparr>q_items := xs, q_out := q_out st @ [x]\<rparr>)))"
| "exec P intr t (DeqUnlock x) st = locker_out P t (Finished (RItem x)) st"
| "exec P intr t Head st = locker_in P t HeadFront st"
| "exec P intr t HeadFront st = (case q_items st of
     [] \<Rightarrow> Some (st\<lparr>q_ub := True\<rparr>) | x # _ \<Rightarrow> Some (go t (HeadUnlock x) st))"
| "exec P intr t (HeadUnlock x) st = locker_out P t (Finished (RItem x)) st"
| "exec P intr t Count st = locker_in P t CountSize st"
| "exec P intr t CountSize st = Some (go t (CountUnlock (of_nat (length (q_items st)))) st)"
| "exec P intr t (CountUnlock n) st = locker_out P t (Finished (RCount n)) st"
| "exec P intr t Clr st = locker_in P t (ClrLoop 0) st"
| "exec P intr t (ClrLoop i) st =
     (if (scast i :: size_t) < of_nat (length (q_items st)) then sem_wait_stmt P intr t (ClrLoop (i + 1)) st
      else Some (go t ClrUnlock (st\<lparr>q_items := [], q_out := q_out st @ q_items st\<rparr>)))"
| "exec P intr t ClrUnlock st = locker_out P t (Finished RUnit) st"

primrec entry :: "'a op \<Rightarrow> 'a pc" where
  "entry (OpEnqueue x) = Enq x"
| "entry OpDequeue = Deq"
| "entry OpHead = Head"
| "entry OpCount = Count"
| "entry OpClear = Clr"

text \<open>
  A thread that runs nothing calls an operation, or a thread executes its next statement, with
  a flag that says whether a signal interrupts it if it waits for the semaphore.
\<close>

datatype 'a qevent = Call tid "'a op" | Step tid bool

definition idle :: "'a pc \<Rightarrow> bool" where
  "idle pc \<longleftrightarrow> (case pc of Idle \<Rightarrow> True | Finished _ \<Rightarrow> True | _ \<Rightarrow> False)"

fun fire :: "('m, 's) posix \<Rightarrow> 'a qevent \<Rightarrow> ('m, 's, 'a) qstate \<Rightarrow> ('m, 's, 'a) qstate option" where
  "fire P (Call t opn) st =
     (if \<not> q_ub st \<and> t < length (q_pcs st) \<and> idle (q_pcs st ! t) then Some (go t (entry opn) st) else None)"
| "fire P (Step t intr) st =
     (if \<not> q_ub st \<and> t < length (q_pcs st) then exec P intr t (q_pcs st ! t) st else None)"

primrec run :: "('m, 's) posix \<Rightarrow> 'a qevent list \<Rightarrow> ('m, 's, 'a) qstate \<Rightarrow> ('m, 's, 'a) qstate option" where
  "run P [] st = Some st"
| "run P (e # es) st = (case fire P e st of None \<Rightarrow> None | Some st' \<Rightarrow> run P es st')"

text \<open>No signal arrives during a wait, and \<open>head\<close>, which does not wait for an item, is not called.\<close>

fun quiet :: "'a qevent \<Rightarrow> bool" where
  "quiet (Call t opn) \<longleftrightarrow> opn \<noteq> OpHead"
| "quiet (Step t intr) \<longleftrightarrow> \<not> intr"

section \<open>Invariant\<close>

text \<open>Statements executed with the mutex held.\<close>

definition critical :: "'a pc \<Rightarrow> bool" where
  "critical pc \<longleftrightarrow> (case pc of
     EnqPush _ \<Rightarrow> True | EnqNotify \<Rightarrow> True | EnqUnlock \<Rightarrow> True
   | DeqFront \<Rightarrow> True | DeqPop _ \<Rightarrow> True | DeqUnlock _ \<Rightarrow> True
   | HeadFront \<Rightarrow> True | HeadUnlock _ \<Rightarrow> True
   | CountSize \<Rightarrow> True | CountUnlock _ \<Rightarrow> True
   | ClrLoop _ \<Rightarrow> True | ClrUnlock \<Rightarrow> True | _ \<Rightarrow> False)"

text \<open>Items in the queue whose token a thread has taken, or has not yet posted.\<close>

definition credit :: "'a pc \<Rightarrow> nat" where
  "credit pc = (case pc of
     EnqNotify \<Rightarrow> 1 | DeqLock \<Rightarrow> 1 | DeqFront \<Rightarrow> 1 | DeqPop _ \<Rightarrow> 1 | ClrLoop i \<Rightarrow> nat (sint i) | _ \<Rightarrow> 0)"

lemmas pc_simps = critical_def credit_def idle_def

text \<open>What a statement's thread knows.\<close>

definition local_ok :: "'a list \<Rightarrow> 'a pc \<Rightarrow> bool" where
  "local_ok items pc \<longleftrightarrow> (case pc of
     DeqPop x \<Rightarrow> items \<noteq> [] \<and> hd items = x
   | ClrLoop i \<Rightarrow> 0 \<le> sint i
   | Head \<Rightarrow> False | HeadFront \<Rightarrow> False | HeadUnlock _ \<Rightarrow> False
   | _ \<Rightarrow> True)"

lemma local_ok_outside: "local_ok items pc \<Longrightarrow> \<not> critical pc \<Longrightarrow> local_ok items' pc"
  by (cases pc) (simp_all add: local_ok_def critical_def)

lemma sum_credit_update:
  "t < length pcs \<Longrightarrow> sum_list (map credit (pcs[t := pc])) + credit (pcs ! t) = sum_list (map credit pcs) + credit pc"
  by (induction pcs arbitrary: t) (auto split: nat.split simp: nth_Cons')

lemma credit_le_sum: "t < length pcs \<Longrightarrow> credit (pcs ! t) \<le> sum_list (map credit pcs)"
  by (metis elem_le_sum_list length_map nth_map)


context posix_sync
begin

definition queue_inv :: "('m, 's, 'a) qstate \<Rightarrow> bool" where
  "queue_inv st \<longleftrightarrow>
     (\<forall>t < length (q_pcs st). critical (q_pcs st ! t) \<longleftrightarrow> owner (q_mutex st) = Some t) \<and>
     (\<forall>t. owner (q_mutex st) = Some t \<longrightarrow> t < length (q_pcs st) \<and> depth (q_mutex st) = 1) \<and>
     q_in st = q_out st @ q_items st \<and>
     tokens (q_sem st) + sum_list (map credit (q_pcs st)) = length (q_items st) \<and>
     (\<forall>t < length (q_pcs st). local_ok (q_items st) (q_pcs st ! t)) \<and>
     \<not> q_ub st"

lemma queue_inv_init: "queue_inv (queue_new P n)"
  using init_mutex init_sem[of 0]
  by (simp add: queue_inv_def queue_new_def mutex_new_def sema_new_def pc_simps local_ok_def sum_list_replicate)

lemma inv_enter:
  assumes inv: "queue_inv st" and t: "t < length (q_pcs st)" and into: "locker_in P t pc st = Some st'"
    and pcs: "\<not> critical (q_pcs st ! t)" "critical pc" "credit pc = credit (q_pcs st ! t)"
    and loc: "local_ok (q_items st) pc"
  shows "queue_inv st'"
proof -
  obtain m where m: "p_mutex_lock P t (q_mutex st) = Some m" and st': "st' = go t pc (st\<lparr>q_mutex := m\<rparr>)"
    using into by (auto simp: locker_in_def locker_new_def mutex_lock_def split: option.splits)
  have free: "owner (q_mutex st) \<noteq> Some t" using inv t pcs(1) by (simp add: queue_inv_def)
  then have own: "owner (q_mutex st) = None" "owner m = Some t" "depth m = 1" using lock_owner[OF m] by auto
  then have "\<forall>u < length (q_pcs st). \<not> critical (q_pcs st ! u)" using inv by (simp add: queue_inv_def)
  then show ?thesis
    using inv t pcs loc own sum_credit_update[OF t, of pc]
    by (auto simp: st' queue_inv_def go_def nth_list_update)
qed

lemma inv_leave:
  assumes inv: "queue_inv st" and t: "t < length (q_pcs st)" and out: "locker_out P t pc st = Some st'"
    and pcs: "critical (q_pcs st ! t)" "\<not> critical pc" "credit pc = credit (q_pcs st ! t)"
    and loc: "local_ok (q_items st) pc"
  shows "queue_inv st'"
proof -
  have st': "st' = go t pc (st\<lparr>q_mutex := p_mutex_unlock P t (q_mutex st)\<rparr>)"
    using out by (simp add: locker_out_def locker_delete_def mutex_unlock_def)
  have own: "owner (q_mutex st) = Some t" "depth (q_mutex st) = 1" using inv t pcs(1) by (auto simp: queue_inv_def)
  then have "owner (p_mutex_unlock P t (q_mutex st)) = None" by (rule unlock_last)
  moreover have "\<forall>u < length (q_pcs st). u \<noteq> t \<longrightarrow> \<not> critical (q_pcs st ! u)"
    using inv own by (auto simp: queue_inv_def)
  ultimately show ?thesis
    using inv t pcs loc sum_credit_update[OF t, of pc]
    by (auto simp: st' queue_inv_def go_def nth_list_update)
qed

text \<open>A statement that keeps the mutex as it is.\<close>

lemma inv_local:
  assumes inv: "queue_inv st" and t: "t < length (q_pcs st)"
    and st': "st' = go t pc (st\<lparr>q_sem := s, q_items := items, q_in := i, q_out := out\<rparr>)"
    and pcs: "critical pc = critical (q_pcs st ! t)" "\<not> critical pc \<Longrightarrow> items = q_items st"
    and log: "q_in st = q_out st @ q_items st \<Longrightarrow> i = out @ items"
    and count: "tokens s + credit pc + length (q_items st) = tokens (q_sem st) + credit (q_pcs st ! t) + length items"
    and loc: "local_ok items pc"
  shows "queue_inv st'"
proof -
  have others: "local_ok items (q_pcs st ! u)" if "u < length (q_pcs st)" "u \<noteq> t" for u
  proof (cases "critical pc")
    case True
    then have "\<not> critical (q_pcs st ! u)" using inv that t pcs(1) by (auto simp: queue_inv_def)
    then show ?thesis using inv that local_ok_outside[of "q_items st"] by (simp add: queue_inv_def)
  next
    case False
    then show ?thesis using inv that pcs(2) by (simp add: queue_inv_def)
  qed
  show ?thesis
    using inv t pcs count loc others log sum_credit_update[OF t, of pc]
    by (auto simp: st' queue_inv_def go_def nth_list_update)
qed

lemma sem_wait_token:
  "sem_wait_stmt P False t pc st = Some st' \<Longrightarrow>
     \<exists>s. st' = go t pc (st\<lparr>q_sem := s\<rparr>) \<and> tokens (q_sem st) = Suc (tokens s)"
  by (auto simp: sem_wait_stmt_def sema_wait_def split: option.splits if_splits dest!: wait_result)


lemma inv_clear_step:
  assumes inv: "queue_inv st" and t: "t < length (q_pcs st)" and pc: "q_pcs st ! t = ClrLoop i"
    and step: "exec P False t (ClrLoop i) st = Some st'" and few: "length (q_in st) < 2 ^ 31"
  shows "queue_inv st'"
proof -
  have i: "0 \<le> sint i" using inv t pc by (auto simp: queue_inv_def local_ok_def)
  have len: "length (q_items st) < 2 ^ 31" using inv few by (simp add: queue_inv_def)
  have sum: "tokens (q_sem st) + sum_list (map credit (q_pcs st)) = length (q_items st)"
    using inv by (simp add: queue_inv_def)
  have cmp: "(scast i :: size_t) < of_nat (length (q_items st)) \<longleftrightarrow> sint i < int (length (q_items st))"
  proof -
    have "unat (of_nat (length (q_items st)) :: size_t) = length (q_items st)"
      using len by (intro unat_of_nat_size) simp
    moreover have "unat (scast i :: size_t) = nat (sint i)" using i by (rule unat_scast_nonneg)
    ultimately show ?thesis using i by (simp add: word_less_nat_alt nat_less_iff)
  qed
  show ?thesis
  proof (cases "sint i < int (length (q_items st))")
    case True
    then obtain s where st': "st' = go t (ClrLoop (i + 1)) (st\<lparr>q_sem := s\<rparr>)" and tok: "tokens (q_sem st) = Suc (tokens s)"
      using step cmp sem_wait_token by fastforce
    have next_i: "sint (i + 1) = sint i + 1"
      using True len sint_ge[of i] by (simp add: sint_word_ariths(1) signed_take_bit_int_eq_self)
    show ?thesis
      by (rule inv_local[OF inv t, where pc = "ClrLoop (i + 1)" and s = s and items = "q_items st" and i = "q_in st"
            and out = "q_out st"])
        (use i next_i tok pc in \<open>simp_all add: st' pc_simps local_ok_def nat_add_distrib\<close>)
  next
    case False
    then have st': "st' = go t ClrUnlock (st\<lparr>q_items := [], q_out := q_out st @ q_items st\<rparr>)"
      using step cmp by simp
    have "credit (q_pcs st ! t) = length (q_items st) \<and> tokens (q_sem st) = 0"
    proof -
      have "int (length (q_items st)) \<le> int (nat (sint i))" using False i by simp
      moreover have "credit (q_pcs st ! t) = nat (sint i)" using pc by (simp add: pc_simps)
      ultimately show ?thesis using sum credit_le_sum[OF t] by linarith
    qed
    then show ?thesis
      by (intro inv_local[OF inv t, where pc = ClrUnlock and s = "q_sem st" and items = "[]" and i = "q_in st"
            and out = "q_out st @ q_items st"])
        (use pc in \<open>simp_all add: st' pc_simps local_ok_def\<close>)
  qed
qed

lemma inv_step:
  assumes inv: "queue_inv st" and t: "t < length (q_pcs st)"
    and step: "exec P False t (q_pcs st ! t) st = Some st'" and few: "length (q_in st) < 2 ^ 31"
  shows "queue_inv st'"
proof -
  have loc: "local_ok (q_items st) (q_pcs st ! t)"
    using inv t by (simp_all add: queue_inv_def)
  have nonempty: "q_items st \<noteq> []" if "0 < credit (q_pcs st ! t)"
  proof -
    have "tokens (q_sem st) + sum_list (map credit (q_pcs st)) = length (q_items st)"
      using inv by (simp add: queue_inv_def)
    then have "0 < length (q_items st)" using that credit_le_sum[OF t] by linarith
    then show ?thesis by simp
  qed
  note enter = inv_enter[OF inv t] and leave = inv_leave[OF inv t]
  show ?thesis
  proof (cases "q_pcs st ! t")
    case (EnqPush x)
    with step show ?thesis
      by (intro inv_local[OF inv t, where pc = EnqNotify and s = "q_sem st" and items = "q_items st @ [x]"
            and i = "q_in st @ [x]" and out = "q_out st"]) (simp_all add: pc_simps local_ok_def)
  next
    case EnqNotify
    with step show ?thesis
      by (intro inv_local[OF inv t, where pc = EnqUnlock and s = "sema_notify P 1 (q_sem st)" and items = "q_items st"
            and i = "q_in st" and out = "q_out st"]) (simp_all add: pc_simps local_ok_def notify_tokens)
  next
    case Deq
    with step obtain s where "st' = go t DeqLock (st\<lparr>q_sem := s\<rparr>)" "tokens (q_sem st) = Suc (tokens s)"
      using sem_wait_token by fastforce
    with Deq show ?thesis
      by (intro inv_local[OF inv t, where pc = DeqLock and s = s and items = "q_items st"
            and i = "q_in st" and out = "q_out st"]) (simp_all add: pc_simps local_ok_def)
  next
    case DeqFront
    with nonempty obtain x xs where x: "q_items st = x # xs" by (cases "q_items st") (auto simp: pc_simps)
    then have "st' = go t (DeqPop x) st" "local_ok (q_items st) (DeqPop x)"
      using DeqFront step by (simp_all add: local_ok_def)
    with DeqFront show ?thesis
      by (intro inv_local[OF inv t, where pc = "DeqPop x" and s = "q_sem st" and items = "q_items st"
            and i = "q_in st" and out = "q_out st"]) (simp_all add: pc_simps)
  next
    case (DeqPop y)
    with nonempty loc obtain xs where x: "q_items st = y # xs"
      by (cases "q_items st") (auto simp: pc_simps local_ok_def)
    with DeqPop step show ?thesis
      by (intro inv_local[OF inv t, where pc = "DeqUnlock y" and s = "q_sem st" and items = xs
            and i = "q_in st" and out = "q_out st @ [y]"]) (simp_all add: pc_simps local_ok_def)
  next
    case CountSize
    with step show ?thesis
      by (intro inv_local[OF inv t, where pc = "CountUnlock (of_nat (length (q_items st)))" and s = "q_sem st"
            and items = "q_items st" and i = "q_in st" and out = "q_out st"]) (simp_all add: pc_simps local_ok_def)
  next
    case (ClrLoop i)
    with inv_clear_step[OF inv t] step few show ?thesis by auto
  qed (use step loc in \<open>auto simp: pc_simps local_ok_def intro: enter leave\<close>)
qed


lemma inv_fire:
  assumes inv: "queue_inv st" and e: "quiet e" "fire P e st = Some st'" and few: "length (q_in st) < 2 ^ 31"
  shows "queue_inv st'"
proof (cases e)
  case (Call t opn)
  then have t: "t < length (q_pcs st)" "idle (q_pcs st ! t)" and st': "st' = go t (entry opn) st"
    using e(2) by (auto split: if_splits)
  show ?thesis
    by (rule inv_local[OF inv t(1), where pc = "entry opn" and s = "q_sem st" and items = "q_items st"
          and i = "q_in st" and out = "q_out st"])
      (use st' t(2) e(1) Call in \<open>cases opn; cases "q_pcs st ! t"; simp add: pc_simps local_ok_def\<close>)+
next
  case (Step t intr)
  with e few inv_step[OF inv, of t st'] show ?thesis by (auto split: if_splits)
qed

lemma exec_in: "exec P intr t pc st = Some st' \<Longrightarrow> length (q_in st) \<le> length (q_in st')"
  by (cases pc) (auto simp: locker_in_def locker_out_def sem_wait_stmt_def go_def split: option.splits list.splits if_splits)

lemma run_in: "run P es st = Some st' \<Longrightarrow> length (q_in st) \<le> length (q_in st')"
proof (induction es arbitrary: st)
  case (Cons e es)
  then obtain st1 where st1: "fire P e st = Some st1" "run P es st1 = Some st'" by (auto split: option.splits)
  have "length (q_in st) \<le> length (q_in st1)"
    using st1(1) by (cases e) (auto simp: go_def dest: exec_in split: if_splits)
  with Cons.IH[OF st1(2)] show ?case by simp
qed simp

lemma inv_run:
  "queue_inv st \<Longrightarrow> \<forall>e \<in> set es. quiet e \<Longrightarrow> run P es st = Some st' \<Longrightarrow> length (q_in st') < 2 ^ 31 \<Longrightarrow> queue_inv st'"
proof (induction es arbitrary: st)
  case (Cons e es)
  then obtain st1 where st1: "fire P e st = Some st1" "run P es st1 = Some st'" by (auto split: option.splits)
  have "run P (e # es) st = Some st'" using Cons.prems by blast
  then have "length (q_in st) < 2 ^ 31" using run_in[of "e # es" st st'] Cons.prems(4) by simp
  then have "queue_inv st1" using inv_fire[OF Cons.prems(1) _ st1(1)] Cons.prems(2) by simp
  with Cons.IH st1(2) Cons.prems(2,4) show ?case by simp
qed simp

section \<open>Progress\<close>

lemma lock_step: "owner (q_mutex st) = None \<Longrightarrow> (locker_in P t pc st = None) = False"
  using lock_free[of "q_mutex st" t] by (auto simp: locker_in_def locker_new_def mutex_lock_def)

lemma wait_step: "sem_wait_stmt P False t pc st = None \<longleftrightarrow> tokens (q_sem st) = 0"
  using wait_enabled[of "q_sem st"]
  by (auto simp: sem_wait_stmt_def sema_wait_def split: option.splits)

lemma exec_enabled:
  assumes inv: "queue_inv st" and t: "t < length (q_pcs st)"
    and stuck: "exec P False t (q_pcs st ! t) st = None" and free: "\<forall>i. q_pcs st ! t \<noteq> ClrLoop i"
    and owner: "critical (q_pcs st ! t) \<or> owner (q_mutex st) = None"
  shows "idle (q_pcs st ! t) \<or> q_pcs st ! t = Deq \<and> tokens (q_sem st) = 0"
  using stuck owner free wait_step[of t _ st]
  by (cases "q_pcs st ! t") (auto simp: lock_step pc_simps locker_out_def locker_delete_def split: list.splits)


lemma stuck_empty:
  assumes inv: "queue_inv st" and free: "\<forall>pc \<in> set (q_pcs st). \<forall>i. pc \<noteq> ClrLoop i"
    and stuck: "\<forall>t < length (q_pcs st). exec P False t (q_pcs st ! t) st = None"
    and t: "t < length (q_pcs st)"
  shows "idle (q_pcs st ! t) \<or> q_pcs st ! t = Deq \<and> q_items st = []"
proof -
  have one: "idle (q_pcs st ! u) \<or> q_pcs st ! u = Deq \<and> tokens (q_sem st) = 0"
    if "u < length (q_pcs st)" "critical (q_pcs st ! u) \<or> owner (q_mutex st) = None" for u
  proof -
    have "\<forall>i. q_pcs st ! u \<noteq> ClrLoop i" using free that(1) nth_mem by blast
    then show ?thesis using exec_enabled[OF inv that(1)] stuck that by simp
  qed
  have none: "owner (q_mutex st) = None"
  proof (rule ccontr)
    assume "owner (q_mutex st) \<noteq> None"
    then obtain u where "owner (q_mutex st) = Some u" by blast
    then have "u < length (q_pcs st)" "critical (q_pcs st ! u)" using inv by (auto simp: queue_inv_def)
    with one[of u] show False by (cases "q_pcs st ! u") (simp_all add: pc_simps)
  qed
  then have all: "\<forall>u < length (q_pcs st). idle (q_pcs st ! u) \<or> q_pcs st ! u = Deq \<and> tokens (q_sem st) = 0"
    using one by blast
  have "idle pc \<or> pc = Deq \<Longrightarrow> credit pc = 0" for pc :: "'c pc" by (cases pc) (simp_all add: pc_simps)
  with all have "\<forall>pc \<in> set (q_pcs st). credit pc = 0" by (metis in_set_conv_nth)
  then have "sum_list (map credit (q_pcs st)) = 0" by simp
  moreover have "tokens (q_sem st) + sum_list (map credit (q_pcs st)) = length (q_items st)"
    using inv by (simp add: queue_inv_def)
  ultimately have "tokens (q_sem st) = length (q_items st)" by linarith
  with all t show ?thesis by auto
qed

end

definition clearing :: "'a pc \<Rightarrow> bool" where
  "clearing pc \<longleftrightarrow> (case pc of Clr \<Rightarrow> True | ClrLoop _ \<Rightarrow> True | ClrUnlock \<Rightarrow> True | _ \<Rightarrow> False)"

fun calls_clear :: "'a qevent \<Rightarrow> bool" where
  "calls_clear (Call t opn) \<longleftrightarrow> opn = OpClear"
| "calls_clear (Step t intr) \<longleftrightarrow> False"

lemma exec_pcs:
  assumes "exec P intr t pc st = Some st'" and "\<not> clearing pc"
  shows "q_pcs st' = q_pcs st \<or> (\<exists>pc'. q_pcs st' = (q_pcs st)[t := pc'] \<and> \<not> clearing pc')"
  using assms
  by (cases pc) (auto simp: clearing_def locker_in_def locker_out_def sem_wait_stmt_def go_def
    split: option.splits list.splits)

lemma run_not_clearing:
  "\<forall>pc \<in> set (q_pcs st). \<not> clearing pc \<Longrightarrow> \<forall>e \<in> set es. \<not> calls_clear e \<Longrightarrow> run P es st = Some st' \<Longrightarrow>
     \<forall>pc \<in> set (q_pcs st'). \<not> clearing pc"
proof (induction es arbitrary: st)
  case (Cons e es)
  then obtain st1 where st1: "fire P e st = Some st1" "run P es st1 = Some st'" by (auto split: option.splits)
  have "\<forall>pc \<in> set (q_pcs st1). \<not> clearing pc"
  proof (cases e)
    case (Call t opn)
    then have "q_pcs st1 = (q_pcs st)[t := entry opn]" "opn \<noteq> OpClear"
      using st1(1) Cons.prems(2) by (auto simp: go_def split: if_splits)
    then show ?thesis using Cons.prems(1) by (cases opn) (auto simp: clearing_def dest!: set_update_subset_insert[THEN subsetD])
  next
    case (Step t intr)
    then have "exec P intr t (q_pcs st ! t) st = Some st1" "\<not> clearing (q_pcs st ! t)"
      using st1(1) Cons.prems(1) by (auto split: if_splits)
    from exec_pcs[OF this] show ?thesis
      using Cons.prems(1) by (auto dest!: set_update_subset_insert[THEN subsetD])
  qed
  with Cons st1(2) show ?case by simp
qed simp


section \<open>A clear that never ends\<close>

context posix_sync
begin

text \<open>\<open>clear\<close> holds the mutex and waits for a token that only the holder of the mutex could post.\<close>

definition clear_blocked :: "tid \<Rightarrow> int32 \<Rightarrow> ('m, 's, 'a) qstate \<Rightarrow> bool" where
  "clear_blocked t i st \<longleftrightarrow> t < length (q_pcs st) \<and> q_pcs st ! t = ClrLoop i \<and>
     (scast i :: size_t) < of_nat (length (q_items st)) \<and> tokens (q_sem st) = 0 \<and>
     owner (q_mutex st) = Some t \<and> (\<forall>u < length (q_pcs st). u \<noteq> t \<longrightarrow> \<not> critical (q_pcs st ! u))"

lemma lock_other_blocks: "owner (q_mutex st) = Some t \<Longrightarrow> u \<noteq> t \<Longrightarrow> locker_in P u pc st = None"
  using lock_blocks[of "q_mutex st" t u] by (simp add: locker_in_def locker_new_def mutex_lock_def)

lemma clear_blocked_no_step:
  assumes "clear_blocked t i st" and "u < length (q_pcs st)"
  shows "exec P False u (q_pcs st ! u) st = None"
proof (cases "u = t")
  case True
  then show ?thesis using assms(1) wait_step[of t _ st] by (simp add: clear_blocked_def)
next
  case False
  then have "\<not> critical (q_pcs st ! u)" "owner (q_mutex st) = Some t" using assms by (auto simp: clear_blocked_def)
  then show ?thesis
    using assms(1) False lock_other_blocks[of st t u] wait_step[of u _ st]
    by (cases "q_pcs st ! u") (simp_all add: pc_simps clear_blocked_def)
qed

lemma clear_blocked_fire:
  assumes b: "clear_blocked t i st" and e: "quiet e" "fire P e st = Some st'"
  shows "clear_blocked t i st' \<and> q_items st' = q_items st"
proof (cases e)
  case (Call u opn)
  then have u: "u < length (q_pcs st)" "idle (q_pcs st ! u)" and st': "st' = go u (entry opn) st"
    using e(2) by (auto split: if_splits)
  have "u \<noteq> t" using u(2) b by (auto simp: clear_blocked_def pc_simps)
  moreover have "\<not> critical (entry opn)" by (cases opn) (simp_all add: pc_simps)
  ultimately show ?thesis
    using b u(1) by (auto simp: st' clear_blocked_def go_def nth_list_update split: if_splits)
next
  case (Step u intr)
  with e clear_blocked_no_step[OF b] show ?thesis by (simp split: if_splits)
qed

lemma clear_blocked_run:
  "clear_blocked t i st \<Longrightarrow> \<forall>e \<in> set es. quiet e \<Longrightarrow> run P es st = Some st' \<Longrightarrow>
     clear_blocked t i st' \<and> q_items st' = q_items st"
proof (induction es arbitrary: st)
  case (Cons e es)
  then obtain st1 where st1: "fire P e st = Some st1" "run P es st1 = Some st'" by (auto split: option.splits)
  then have "clear_blocked t i st1 \<and> q_items st1 = q_items st" using clear_blocked_fire[of t i st e st1] Cons.prems by simp
  with Cons.IH[of st1] st1(2) Cons.prems(2) show ?case by simp
qed simp

text \<open>One item; a dequeuer has taken its token but not yet the mutex when \<open>clear\<close> locks it.\<close>

lemma clear_deadlocks:
  "\<exists>es st. (\<forall>e \<in> set es. quiet e) \<and> run P es (queue_new P 3) = Some st \<and> clear_blocked 2 0 st \<and>
     q_items st = [x] \<and> q_pcs st ! 1 = DeqLock"
proof -
  let ?es = "[Call 0 (OpEnqueue x), Step 0 False, Step 0 False, Step 0 False, Step 0 False,
    Call 1 OpDequeue, Step 1 False, Call 2 OpClear, Step 2 False]"
  obtain m1 where m1: "p_mutex_lock P 0 (mutex_new P) = Some m1" "owner m1 = Some 0" "depth m1 = 1"
    using lock_free[OF new_free, of 0] by blast
  let ?m2 = "p_mutex_unlock P 0 m1"
  have m2: "owner ?m2 = None" using unlock_last m1 by blast
  obtain m3 where m3: "p_mutex_lock P 2 ?m2 = Some m3" "owner m3 = Some 2"
    using lock_free[OF m2, of 2] by blast
  let ?s1 = "sema_notify P 1 (p_sem_init P 0)"
  have s1: "tokens ?s1 = 1" using init_sem[of 0] by (simp add: notify_tokens)
  obtain s2 where s2: "p_sem_wait P False ?s1 = Some (0, s2)" "tokens s2 = 0"
    using wait_takes[of ?s1] s1 by auto
  let ?st = "\<lparr>q_mutex = m3, q_sem = s2, q_items = [x], q_pcs = [Finished RUnit, DeqLock, ClrLoop 0],
    q_ub = False, q_in = [x], q_out = []\<rparr>"
  have "run P ?es (queue_new P 3) = Some ?st"
    using m1 m3 s2
    by (simp add: queue_new_def go_def idle_def locker_in_def locker_out_def locker_new_def locker_delete_def
      mutex_lock_def mutex_unlock_def sema_new_def sem_wait_stmt_def sema_wait_def eval_nat_numeral)
  moreover have "clear_blocked 2 0 ?st"
    using m3 s2 by (auto simp: clear_blocked_def pc_simps nth_Cons' less_Suc_eq eval_nat_numeral)
  moreover have "\<forall>e \<in> set ?es. quiet e" by simp
  ultimately show ?thesis by (intro exI[of _ ?es] exI[of _ ?st]) simp
qed

lemma front_of_empty:
  "\<exists>st. run P [Call 0 OpDequeue, Step 0 True, Step 0 False, Step 0 False] (queue_new P 1) = Some st \<and> q_ub st"
  "\<exists>st. run P [Call 0 OpHead, Step 0 False, Step 0 False] (queue_new P 1) = Some st \<and> q_ub st"
proof -
  obtain m1 where m1: "p_mutex_lock P 0 (mutex_new P) = Some m1"
    using lock_free[OF new_free, of 0] by blast
  note defs = queue_new_def go_def idle_def locker_in_def locker_new_def mutex_lock_def
    sema_new_def sem_wait_stmt_def sema_wait_def
  show "\<exists>st. run P [Call 0 OpDequeue, Step 0 True, Step 0 False, Step 0 False] (queue_new P 1) = Some st \<and> q_ub st"
    using m1 wait_interrupted by (simp add: defs)
  show "\<exists>st. run P [Call 0 OpHead, Step 0 False, Step 0 False] (queue_new P 1) = Some st \<and> q_ub st"
    using m1 by (simp add: defs)
qed


lemma reachable_inv:
  assumes "run P es (queue_new P n) = Some st" and "\<forall>e \<in> set es. quiet e" and "length (q_in st) < 2 ^ 31"
  shows "queue_inv st"
  by (rule inv_run[OF queue_inv_init assms(2,1,3)])

lemma one_critical:
  assumes "queue_inv st" and "t < length (q_pcs st)" and "u < length (q_pcs st)"
    and "critical (q_pcs st ! t)" and "critical (q_pcs st ! u)"
  shows "t = u"
  using assms by (auto simp: queue_inv_def)

lemma no_deadlock:
  assumes "run P es (queue_new P n) = Some st" and "\<forall>e \<in> set es. quiet e \<and> \<not> calls_clear e"
    and "length (q_in st) < 2 ^ 31" and "\<forall>t < length (q_pcs st). fire P (Step t False) st = None"
    and "t < length (q_pcs st)"
  shows "idle (q_pcs st ! t) \<or> q_pcs st ! t = Deq \<and> q_items st = []"
proof -
  have inv: "queue_inv st" using reachable_inv[OF assms(1) _ assms(3)] assms(2) by blast
  have "\<forall>pc \<in> set (q_pcs st). \<not> clearing pc"
    by (rule run_not_clearing[OF _ _ assms(1)]) (use assms(2) in \<open>auto simp: queue_new_def clearing_def\<close>)
  then have "\<forall>pc \<in> set (q_pcs st). \<forall>i. pc \<noteq> ClrLoop i" by (auto simp: clearing_def)
  moreover have "\<not> q_ub st" using inv by (simp add: queue_inv_def)
  then have "\<forall>t < length (q_pcs st). exec P False t (q_pcs st ! t) st = None" using assms(4) by simp
  ultimately show ?thesis using stuck_empty[OF inv _ _ assms(5)] by blast
qed

end

section \<open>Order\<close>

text \<open>
  What holds in all runs, \<open>head\<close> and signals included: the mutex excludes, and nobody else
  changes the items between \<open>front\<close> and \<open>pop\<close>.
\<close>

definition pop_ok :: "'a list \<Rightarrow> 'a pc \<Rightarrow> bool" where
  "pop_ok items pc \<longleftrightarrow> (case pc of DeqPop x \<Rightarrow> items \<noteq> [] \<and> hd items = x | _ \<Rightarrow> True)"

lemma pop_outside: "\<not> critical pc \<Longrightarrow> pop_ok items pc"
  by (cases pc) (simp_all add: pop_ok_def critical_def)

lemma idle_outside: "idle pc \<Longrightarrow> \<not> critical pc"
  by (cases pc) (simp_all add: pc_simps)

lemma queue_entry_outside: "\<not> critical (entry opn)"
  by (cases opn) (simp_all add: critical_def)

lemmas queue_stmts = locker_in_def locker_out_def sem_wait_stmt_def locker_new_def locker_delete_def mutex_lock_def
  mutex_unlock_def go_def

lemma exec_at:
  assumes "exec P intr t (q_pcs st ! t) st = Some st'" and "t < length (q_pcs st)"
  shows "q_pcs st' = (q_pcs st)[t := q_pcs st' ! t]"
  using assms
  by (cases "q_pcs st ! t")
    (auto simp: queue_stmts split: option.splits list.splits if_splits intro!: sym[OF iffD2[OF list_update_same_conv]])

lemma exec_mutex:
  assumes "exec P intr t (q_pcs st ! t) st = Some st'" and "t < length (q_pcs st)"
  shows "q_mutex st' = q_mutex st \<and> critical (q_pcs st' ! t) = critical (q_pcs st ! t) \<or>
    \<not> critical (q_pcs st ! t) \<and> critical (q_pcs st' ! t) \<and> p_mutex_lock P t (q_mutex st) = Some (q_mutex st') \<or>
    critical (q_pcs st ! t) \<and> \<not> critical (q_pcs st' ! t) \<and> q_mutex st' = p_mutex_unlock P t (q_mutex st)"
  using assms by (cases "q_pcs st ! t") (auto simp: queue_stmts critical_def split: option.splits list.splits if_splits)

lemma exec_order:
  assumes "exec P intr t (q_pcs st ! t) st = Some st'" and "t < length (q_pcs st)"
    and "q_in st = q_out st @ q_items st" and "pop_ok (q_items st) (q_pcs st ! t)"
  shows "q_in st' = q_out st' @ q_items st' \<and> pop_ok (q_items st') (q_pcs st' ! t) \<and>
    (q_items st' = q_items st \<or> critical (q_pcs st ! t))"
  using assms
  by (cases "q_pcs st ! t") (auto simp: queue_stmts critical_def pop_ok_def split: option.splits list.splits if_splits)

context posix_sync
begin

definition order_inv :: "('m, 's, 'a) qstate \<Rightarrow> bool" where
  "order_inv st \<longleftrightarrow> guarded (q_mutex st) critical (q_pcs st) \<and> q_in st = q_out st @ q_items st \<and>
     (\<forall>pc \<in> set (q_pcs st). pop_ok (q_items st) pc)"

lemma order_init: "order_inv (queue_new P n)"
  using guarded_init[of critical Idle n] by (simp add: order_inv_def queue_new_def critical_def pop_ok_def)

lemma order_call:
  assumes "order_inv st" and "t < length (q_pcs st)" and "idle (q_pcs st ! t)"
  shows "order_inv (go t (entry opn) st)"
proof -
  have "guarded (q_mutex st) critical ((q_pcs st)[t := entry opn])"
    using assms idle_outside queue_entry_outside by (auto simp: order_inv_def guarded_def intro!: locked_keep)
  then show ?thesis using assms(1) queue_entry_outside[of opn] pop_outside set_update_subset_insert[of "q_pcs st" t "entry opn"]
    by (auto simp: order_inv_def go_def)
qed

lemma order_step:
  assumes inv: "order_inv st" and t: "t < length (q_pcs st)" and step: "exec P intr t (q_pcs st ! t) st = Some st'"
  shows "order_inv st'"
proof -
  note at = exec_at[OF step t]
  have g: "guarded (q_mutex st) critical (q_pcs st)" using inv by (simp add: order_inv_def)
  have o: "q_in st' = q_out st' @ q_items st'" "pop_ok (q_items st') (q_pcs st' ! t)"
      "q_items st' = q_items st \<or> critical (q_pcs st ! t)"
    using exec_order[OF step t] inv t by (auto simp: order_inv_def)
  have "pop_ok (q_items st') (q_pcs st' ! u)" if u: "u < length (q_pcs st')" for u
  proof (cases "u = t")
    case False
    then have same: "q_pcs st' ! u = q_pcs st ! u" "u < length (q_pcs st)"
      using at u by (metis nth_list_update_neq, metis length_list_update)
    then show ?thesis
      using o(3) inv pop_outside[of "q_pcs st ! u"] guarded_alone[OF g t same(2)] False by (auto simp: order_inv_def)
  qed (use o(2) in simp)
  moreover have "guarded (q_mutex st') critical ((q_pcs st)[t := q_pcs st' ! t])"
    by (rule guarded_effect[OF g t exec_mutex[OF step t]])
  ultimately show ?thesis using o(1) at by (auto simp: order_inv_def in_set_conv_nth)
qed

lemma order_run: "run P es st = Some st' \<Longrightarrow> order_inv st \<Longrightarrow> order_inv st'"
proof (induction es arbitrary: st)
  case (Cons e es)
  then obtain st1 where st1: "fire P e st = Some st1" "run P es st1 = Some st'" by (auto split: option.splits)
  have "order_inv st1" using st1(1) Cons.prems(2) order_call order_step by (cases e) (auto split: if_splits)
  with Cons.IH st1(2) show ?case by blast
qed simp

end

section \<open>Properties\<close>

text \<open>C4: in every interleaving of any calls by any number of threads, signals during their waits included, no
  item is lost, duplicated or reordered: what was pushed is, in order, what was removed followed by what
  is in the queue. And while fewer than \<open>2^31\<close> items are pushed, \<open>front\<close> is called on an empty queue only in
  runs in which \<open>head\<close> has been called or a signal has interrupted a wait.\<close>

theorem queue_fifo:
  assumes "posix_sync P owner depth tokens" and "run P es (queue_new P n) = Some st"
  shows "q_in st = q_out st @ q_items st \<and>
    (q_ub st \<and> length (q_in st) < 2 ^ 31 \<longrightarrow> (\<exists>e \<in> set es. \<not> quiet e))"
proof
  show "q_in st = q_out st @ q_items st"
    using posix_sync.order_run[OF assms posix_sync.order_init[OF assms(1)]] by (simp add: posix_sync.order_inv_def[OF assms(1)])
  show "q_ub st \<and> length (q_in st) < 2 ^ 31 \<longrightarrow> (\<exists>e \<in> set es. \<not> quiet e)"
    using posix_sync.reachable_inv[OF assms] by (auto simp: posix_sync.queue_inv_def[OF assms(1)])
qed

definition sample_run :: "nat qevent list" where
  "sample_run = [Call 1 OpDequeue, Call 0 (OpEnqueue 5), Step 0 False, Step 0 False, Step 0 False,
     Step 1 False, Step 0 False, Step 1 False, Step 1 False, Step 1 False]"

definition sample_end :: "(ref_mutex, nat, nat) qstate" where
  "sample_end = \<lparr>q_mutex = Some (1, 1), q_sem = 0, q_items = [], q_pcs = [Finished RUnit, DeqUnlock 5],
     q_ub = False, q_in = [5], q_out = [5]\<rparr>"

lemma sample_runs: "run ref_posix sample_run (queue_new ref_posix 2) = Some sample_end"
  by (simp add: sample_run_def sample_end_def queue_new_def go_def idle_def locker_in_def locker_out_def
    locker_new_def locker_delete_def mutex_lock_def mutex_unlock_def mutex_new_def sema_new_def
    sem_wait_stmt_def sema_wait_def ref_posix_def ref_lock_def ref_unlock_def sema_notify_def
    notify_from_posts eval_nat_numeral)

lemma sample_quiet: "\<forall>e \<in> set sample_run. quiet e \<and> \<not> calls_clear e"
  by (simp add: sample_run_def)

theorem queue_fifo_witness: "q_in sample_end = q_out sample_end @ q_items sample_end \<and> \<not> q_ub sample_end"
  using queue_fifo[OF ref.posix_sync_axioms sample_runs] sample_quiet by (auto simp: sample_end_def)

text \<open>The mutex protects the queue: at no moment of any such interleaving are two threads
  between the lock and the unlock of their operations.\<close>

theorem queue_mutual_exclusion:
  assumes "posix_sync P owner depth tokens" and "run P es (queue_new P n) = Some st"
    and "\<forall>e \<in> set es. quiet e" and "length (q_in st) < 2 ^ 31"
    and "t < length (q_pcs st)" and "u < length (q_pcs st)" and "critical (q_pcs st ! t)" and "critical (q_pcs st ! u)"
  shows "t = u"
  by (rule posix_sync.one_critical[OF assms(1) posix_sync.reachable_inv[OF assms(1-4)] assms(5-8)])

theorem queue_mutual_exclusion_witness: "(1 :: nat) = 1 \<and> critical (q_pcs sample_end ! 1)"
  using queue_mutual_exclusion[OF ref.posix_sync_axioms sample_runs, of 1 1] sample_quiet
  by (auto simp: sample_end_def critical_def)

text \<open>C25: without \<open>clear\<close> the queue does not deadlock: when no thread can take a step, every
  thread has finished its operation or waits in \<open>dequeue\<close> of an empty queue.\<close>

theorem queue_no_deadlock:
  assumes "posix_sync P owner depth tokens" and "run P es (queue_new P n) = Some st"
    and "\<forall>e \<in> set es. quiet e \<and> \<not> calls_clear e" and "length (q_in st) < 2 ^ 31"
    and "\<forall>t < length (q_pcs st). fire P (Step t False) st = None" and "t < length (q_pcs st)"
  shows "idle (q_pcs st ! t) \<or> q_pcs st ! t = Deq \<and> q_items st = []"
  by (rule posix_sync.no_deadlock[OF assms])

definition waiting_end :: "(ref_mutex, nat, nat) qstate" where
  "waiting_end = (queue_new ref_posix 1)\<lparr>q_pcs := [Deq]\<rparr>"

theorem queue_no_deadlock_witness: "q_items waiting_end = []"
proof -
  have run: "run ref_posix [Call 0 OpDequeue] (queue_new ref_posix 1) = Some waiting_end"
    by (simp add: waiting_end_def queue_new_def go_def idle_def)
  have "idle (q_pcs waiting_end ! 0) \<or> q_pcs waiting_end ! 0 = Deq \<and> q_items waiting_end = []"
    by (rule queue_no_deadlock[OF ref.posix_sync_axioms run])
      (simp_all add: waiting_end_def queue_new_def sem_wait_stmt_def sema_wait_def ref_posix_def sema_new_def)
  then show ?thesis by (simp add: waiting_end_def idle_def)
qed

text \<open>C31: \<open>clear\<close> can deadlock the queue: if a thread in \<open>dequeue\<close> has taken a token when
  another calls \<open>clear\<close>, the clearing thread waits for that token holding the mutex. From then
  on, whatever is called and scheduled, it never finishes, the dequeuer never gets its item, and no
  thread ever takes a step.\<close>

theorem queue_clear_deadlock:
  assumes "posix_sync P owner depth tokens"
  shows "\<exists>es st. (\<forall>e \<in> set es. quiet e) \<and> run P es (queue_new P 3) = Some st \<and> q_pcs st ! 1 = DeqLock \<and>
     (\<forall>es' st'. (\<forall>e \<in> set es'. quiet e) \<and> run P es' st = Some st' \<longrightarrow>
        q_pcs st' ! 2 = ClrLoop 0 \<and> q_items st' = [x] \<and>
        (\<forall>t < length (q_pcs st'). exec P False t (q_pcs st' ! t) st' = None))"
proof -
  note blocked = posix_sync.clear_blocked_run[OF assms] posix_sync.clear_blocked_no_step[OF assms]
  obtain es st where st: "\<forall>e \<in> set es. quiet e" "run P es (queue_new P 3) = Some st"
    "posix_sync.clear_blocked owner tokens 2 0 st" "q_items st = [x]" "q_pcs st ! 1 = DeqLock"
    using posix_sync.clear_deadlocks[OF assms, of x] by blast
  have "q_pcs st' ! 2 = ClrLoop 0 \<and> q_items st' = [x] \<and>
      (\<forall>t < length (q_pcs st'). exec P False t (q_pcs st' ! t) st' = None)"
    if "\<forall>e \<in> set es'. quiet e" "run P es' st = Some st'" for es' st'
    using blocked(1)[OF st(3) that] blocked(2)[of 2 0 st'] st(4)
    by (simp add: posix_sync.clear_blocked_def[OF assms])
  with st show ?thesis by blast
qed

theorem queue_clear_deadlock_witness:
  "\<exists>es (st :: (ref_mutex, nat, nat) qstate).
     run ref_posix es (queue_new ref_posix 3) = Some st \<and> q_pcs st ! 1 = DeqLock"
  using queue_clear_deadlock[OF ref.posix_sync_axioms, of 5] by (elim exE conjE) (intro exI conjI)

text \<open>\<open>dequeue\<close> ignores the result of \<open>wait\<close>: if a signal interrupts it, \<open>front\<close> is
  called on an empty queue; \<open>head\<close> does so on every empty queue.\<close>

theorem queue_front_of_empty:
  assumes "posix_sync P owner depth tokens"
  shows "(\<exists>st. run P [Call 0 OpDequeue, Step 0 True, Step 0 False, Step 0 False] (queue_new P 1) = Some st \<and> q_ub st) \<and>
    (\<exists>st. run P [Call 0 OpHead, Step 0 False, Step 0 False] (queue_new P 1) = Some st \<and> q_ub st)"
  using posix_sync.front_of_empty[OF assms] by blast

theorem queue_front_of_empty_witness:
  "\<exists>st. run ref_posix [Call 0 OpHead, Step 0 False, Step 0 False] (queue_new ref_posix 1) = Some st \<and> q_ub st"
  using queue_front_of_empty[OF ref.posix_sync_axioms] by blast

end
