(* ===== verification/SemaApple.thy ===== *)
theory SemaApple
  imports Sema
begin

text \<open>
  Model of the Mac OS branches of \<open>src/src/Sema.cpp\<close>: a counter, a mutex that protects it, and a
  condition variable with a mutex of its own. Threads interleave between statements, as in
  \<open>Queue\<close>; the calls on mutexes and condition variables are parameters with the laws POSIX
  documents for them, among them that a thread may wake up without a signal.
\<close>

section \<open>System calls\<close>

text \<open>
  \<open>pt_sleep\<close> puts the caller among the threads that wait for the condition, \<open>pt_leave\<close> takes a
  thread out that times out or wakes up spuriously, \<open>pt_signal\<close> takes out at least one.
\<close>

record ('m, 'c) pthread =
  pt_mutex :: 'm
  pt_lock :: "tid \<Rightarrow> 'm \<Rightarrow> 'm option"
  pt_unlock :: "tid \<Rightarrow> 'm \<Rightarrow> 'm"
  pt_cond :: 'c
  pt_sleep :: "tid \<Rightarrow> 'c \<Rightarrow> 'c"
  pt_asleep :: "tid \<Rightarrow> 'c \<Rightarrow> bool"
  pt_signal :: "'c \<Rightarrow> 'c"
  pt_leave :: "tid \<Rightarrow> 'c \<Rightarrow> 'c"

locale pthread_calls =
  fixes X :: "('m, 'c) pthread"
    and owner :: "'m \<Rightarrow> tid option"
    and sleepers :: "'c \<Rightarrow> tid set"
  assumes mutex_free: "owner (pt_mutex X) = None"
    and lock_takes: "owner m = None \<Longrightarrow> \<exists>m'. pt_lock X t m = Some m' \<and> owner m' = Some t"
    and lock_waits: "owner m = Some u \<Longrightarrow> u \<noteq> t \<Longrightarrow> pt_lock X t m = None"
    and unlock_frees: "owner m = Some t \<Longrightarrow> owner (pt_unlock X t m) = None"
    and cond_empty: "sleepers (pt_cond X) = {}"
    and asleep_iff: "pt_asleep X t c \<longleftrightarrow> t \<in> sleepers c"
    and sleep_joins: "sleepers (pt_sleep X t c) = insert t (sleepers c)"
    and signal_wakes: "sleepers (pt_signal X c) \<subseteq> sleepers c \<and> (sleepers c \<noteq> {} \<longrightarrow> sleepers (pt_signal X c) \<noteq> sleepers c)"
    and leave_leaves: "sleepers (pt_leave X t c) = sleepers c - {t}"

definition ref_pthread :: "(tid option, tid list) pthread" where
  "ref_pthread = \<lparr>
     pt_mutex = None,
     pt_lock = (\<lambda>t m. case m of None \<Rightarrow> Some (Some t) | Some _ \<Rightarrow> None),
     pt_unlock = (\<lambda>t m. if m = Some t then None else m),
     pt_cond = [],
     pt_sleep = (#),
     pt_asleep = (\<lambda>t c. t \<in> set c),
     pt_signal = (\<lambda>c. removeAll (last c) c),
     pt_leave = removeAll\<rparr>"

interpretation rp: pthread_calls ref_pthread id set
  by unfold_locales (auto simp: ref_pthread_def dest: last_in_set)

section \<open>State\<close>

datatype aop = AWait u32 | ANotify int32 | AValue

text \<open>
  What a thread executes next. The two places where \<open>wait\<close> takes a token, \<open>m_count--\<close> and what
  follows, have the same text and share \<open>WTake\<close> and \<open>WGot\<close>; the flag of \<open>WRelock\<close> says that the
  wait for the condition returned 0.
\<close>

datatype apc = AIdle | AReturned bool | ADone | ACount int32
  | WLock u32 | WTest u32 | WTake | WGot | WMiss u32
  | WWaitLock u32 | WSleep u32 | WAsleep u32 | WRelock bool | WAwake bool
  | WLock2 | WTest2 | WMiss2
  | NLoop int32 int32 | NLock int32 int32 | NInc int32 int32 | NUnlock int32 int32 | NSignal int32 int32
  | VLock | VRead | VUnlock int32

record ('m, 'c) asema =
  m_countMutex :: 'm
  m_waitMutex :: 'm
  m_waitCond :: 'c
  m_count :: int32
  a_pcs :: "apc list"
  a_posted :: nat
  a_taken :: nat

definition asema_new :: "('m, 'c) pthread \<Rightarrow> int32 \<Rightarrow> nat \<Rightarrow> ('m, 'c) asema" where
  "asema_new X n threads = \<lparr>m_countMutex = pt_mutex X, m_waitMutex = pt_mutex X, m_waitCond = pt_cond X,
     m_count = n, a_pcs = replicate threads AIdle, a_posted = 0, a_taken = 0\<rparr>"

definition ago :: "tid \<Rightarrow> apc \<Rightarrow> ('m, 'c) asema \<Rightarrow> ('m, 'c) asema" where
  "ago t pc st = st\<lparr>a_pcs := (a_pcs st)[t := pc]\<rparr>"

section \<open>Statements\<close>

definition count_lock :: "('m, 'c) pthread \<Rightarrow> tid \<Rightarrow> apc \<Rightarrow> ('m, 'c) asema \<Rightarrow> ('m, 'c) asema option" where
  "count_lock X t pc st = (case pt_lock X t (m_countMutex st) of
     None \<Rightarrow> None | Some m \<Rightarrow> Some (ago t pc (st\<lparr>m_countMutex := m\<rparr>)))"

definition count_unlock :: "('m, 'c) pthread \<Rightarrow> tid \<Rightarrow> apc \<Rightarrow> ('m, 'c) asema \<Rightarrow> ('m, 'c) asema option" where
  "count_unlock X t pc st = Some (ago t pc (st\<lparr>m_countMutex := pt_unlock X t (m_countMutex st)\<rparr>))"

definition wait_lock :: "('m, 'c) pthread \<Rightarrow> tid \<Rightarrow> apc \<Rightarrow> ('m, 'c) asema \<Rightarrow> ('m, 'c) asema option" where
  "wait_lock X t pc st = (case pt_lock X t (m_waitMutex st) of
     None \<Rightarrow> None | Some m \<Rightarrow> Some (ago t pc (st\<lparr>m_waitMutex := m\<rparr>)))"

definition wait_unlock :: "('m, 'c) pthread \<Rightarrow> tid \<Rightarrow> ('m, 'c) asema \<Rightarrow> ('m, 'c) asema" where
  "wait_unlock X t st = st\<lparr>m_waitMutex := pt_unlock X t (m_waitMutex st)\<rparr>"

text \<open>
  One statement. \<open>pthread_cond_wait\<close> and \<open>pthread_cond_timedwait\<close> release the mutex and sleep in
  one step, and lock it again before they return.
\<close>

fun aexec :: "('m, 'c) pthread \<Rightarrow> tid \<Rightarrow> apc \<Rightarrow> ('m, 'c) asema \<Rightarrow> ('m, 'c) asema option" where
  "aexec X t (WLock ms) st = count_lock X t (WTest ms) st"
| "aexec X t (WTest ms) st = Some (ago t (if 0 < sint (m_count st) then WTake else WMiss ms) st)"
| "aexec X t WTake st = Some (ago t WGot (st\<lparr>m_count := m_count st - 1, a_taken := Suc (a_taken st)\<rparr>))"
| "aexec X t WGot st = count_unlock X t (AReturned True) st"
| "aexec X t (WMiss ms) st = count_unlock X t (WWaitLock ms) st"
| "aexec X t (WWaitLock ms) st = wait_lock X t (WSleep ms) st"
| "aexec X t (WSleep ms) st = Some (ago t (WAsleep ms) ((wait_unlock X t st)\<lparr>m_waitCond := pt_sleep X t (m_waitCond st)\<rparr>))"
| "aexec X t (WAsleep ms) st = (if pt_asleep X t (m_waitCond st) then None else Some (ago t (WRelock True) st))"
| "aexec X t (WRelock ok) st = wait_lock X t (WAwake ok) st"
| "aexec X t (WAwake ok) st = Some (ago t (if ok then WLock2 else AReturned False) (wait_unlock X t st))"
| "aexec X t WLock2 st = count_lock X t WTest2 st"
| "aexec X t WTest2 st = Some (ago t (if 0 < sint (m_count st) then WTake else WMiss2) st)"
| "aexec X t WMiss2 st = count_unlock X t (AReturned False) st"
| "aexec X t (NLoop i n) st = Some (ago t (if sint i < sint n then NLock i n else ADone) st)"
| "aexec X t (NLock i n) st = count_lock X t (NInc i n) st"
| "aexec X t (NInc i n) st = Some (ago t (NUnlock i n) (st\<lparr>m_count := m_count st + 1, a_posted := Suc (a_posted st)\<rparr>))"
| "aexec X t (NUnlock i n) st = count_unlock X t (NSignal i n) st"
| "aexec X t (NSignal i n) st = Some (ago t (NLoop (i + 1) n) (st\<lparr>m_waitCond := pt_signal X (m_waitCond st)\<rparr>))"
| "aexec X t VLock st = count_lock X t VRead st"
| "aexec X t VRead st = Some (ago t (VUnlock (m_count st)) st)"
| "aexec X t (VUnlock c) st = count_unlock X t (ACount c) st"
| "aexec X t _ st = None"

primrec aentry :: "aop \<Rightarrow> apc" where
  "aentry (AWait ms) = WLock ms"
| "aentry (ANotify n) = NLoop 0 n"
| "aentry AValue = VLock"

definition aidle :: "apc \<Rightarrow> bool" where
  "aidle pc \<longleftrightarrow> (case pc of AIdle \<Rightarrow> True | AReturned _ \<Rightarrow> True | ADone \<Rightarrow> True | ACount _ \<Rightarrow> True | _ \<Rightarrow> False)"

text \<open>
  A thread calls an operation or executes its next statement; or a sleeping thread wakes up without
  a signal, by its timeout if it has one (\<open>True\<close>) or spuriously.
\<close>

datatype aevent = ACall tid aop | AStep tid | AWake tid bool

fun afire :: "('m, 'c) pthread \<Rightarrow> aevent \<Rightarrow> ('m, 'c) asema \<Rightarrow> ('m, 'c) asema option" where
  "afire X (ACall t opn) st =
     (if t < length (a_pcs st) \<and> aidle (a_pcs st ! t) then Some (ago t (aentry opn) st) else None)"
| "afire X (AStep t) st = (if t < length (a_pcs st) then aexec X t (a_pcs st ! t) st else None)"
| "afire X (AWake t timeout) st =
     (if t < length (a_pcs st) then
        (case a_pcs st ! t of
           WAsleep ms \<Rightarrow>
             if pt_asleep X t (m_waitCond st) \<and> (timeout \<longrightarrow> ms \<noteq> 0)
             then Some (ago t (WRelock (\<not> timeout)) (st\<lparr>m_waitCond := pt_leave X t (m_waitCond st)\<rparr>)) else None
         | _ \<Rightarrow> None)
      else None)"

primrec arun :: "('m, 'c) pthread \<Rightarrow> aevent list \<Rightarrow> ('m, 'c) asema \<Rightarrow> ('m, 'c) asema option" where
  "arun X [] st = Some st"
| "arun X (e # es) st = (case afire X e st of None \<Rightarrow> None | Some st' \<Rightarrow> arun X es st')"

section \<open>The counter\<close>

definition acrit :: "apc \<Rightarrow> bool" where
  "acrit pc \<longleftrightarrow> (case pc of WTest _ \<Rightarrow> True | WTake \<Rightarrow> True | WGot \<Rightarrow> True | WMiss _ \<Rightarrow> True
   | WTest2 \<Rightarrow> True | WMiss2 \<Rightarrow> True | NInc _ _ \<Rightarrow> True | NUnlock _ _ \<Rightarrow> True | VRead \<Rightarrow> True | VUnlock _ \<Rightarrow> True | _ \<Rightarrow> False)"

lemmas astmt_defs = count_lock_def count_unlock_def wait_lock_def wait_unlock_def ago_def
lemmas apc_simps = acrit_def aidle_def

lemma sint_dec: "0 < sint (c :: int32) \<Longrightarrow> sint (c - 1) = sint c - 1"
  using sint_less[of c] by (simp add: sint_word_ariths(2) signed_take_bit_int_eq_self)

context pthread_calls
begin

definition count_inv :: "int \<Rightarrow> ('m, 'c) asema \<Rightarrow> bool" where
  "count_inv n st \<longleftrightarrow>
     (\<forall>t < length (a_pcs st). acrit (a_pcs st ! t) \<longleftrightarrow> owner (m_countMutex st) = Some t) \<and>
     sint (m_count st) = n + int (a_posted st) - int (a_taken st) \<and> 0 \<le> sint (m_count st) \<and>
     (\<forall>t < length (a_pcs st). a_pcs st ! t = WTake \<longrightarrow> 0 < sint (m_count st))"

lemma count_init: "0 \<le> sint n \<Longrightarrow> count_inv (sint n) (asema_new X n threads)"
  using mutex_free by (simp add: count_inv_def asema_new_def apc_simps)

text \<open>A statement that neither takes nor releases the mutex nor touches the counter.\<close>

lemma count_local:
  assumes "count_inv n st" and "t < length (a_pcs st)" and "acrit pc = acrit (a_pcs st ! t)"
    and "pc = WTake \<Longrightarrow> 0 < sint (m_count st)"
    and "m_countMutex st' = m_countMutex st" and "m_count st' = m_count st" and "a_pcs st' = (a_pcs st)[t := pc]"
    and "a_posted st' = a_posted st" and "a_taken st' = a_taken st"
  shows "count_inv n st'"
  using assms by (auto simp: count_inv_def nth_list_update)

lemma count_enter:
  assumes inv: "count_inv n st" and t: "t < length (a_pcs st)" and "\<not> acrit (a_pcs st ! t)" and pc: "acrit pc" "pc \<noteq> WTake"
    and step: "count_lock X t pc st = Some st'"
  shows "count_inv n st'"
proof -
  obtain m where m: "pt_lock X t (m_countMutex st) = Some m" "st' = ago t pc (st\<lparr>m_countMutex := m\<rparr>)"
    using step by (auto simp: count_lock_def split: option.splits)
  have "owner (m_countMutex st) \<noteq> Some t" using inv t assms(3) by (simp add: count_inv_def)
  then have free: "owner (m_countMutex st) = None" using lock_waits[of "m_countMutex st" _ t] m(1) by (cases "owner (m_countMutex st)") auto
  then have "owner m = Some t" using lock_takes[OF free, of t] m(1) by simp
  then show ?thesis using inv t pc free by (auto simp: count_inv_def m(2) ago_def nth_list_update)
qed

lemma count_leave:
  assumes inv: "count_inv n st" and t: "t < length (a_pcs st)" and "acrit (a_pcs st ! t)" and pc: "\<not> acrit pc" "pc \<noteq> WTake"
    and step: "count_unlock X t pc st = Some st'"
  shows "count_inv n st'"
proof -
  have own: "owner (m_countMutex st) = Some t" using inv t assms(3) by (simp add: count_inv_def)
  then have "owner (pt_unlock X t (m_countMutex st)) = None" by (rule unlock_frees)
  then show ?thesis using inv t pc own step by (auto simp: count_inv_def count_unlock_def ago_def nth_list_update)
qed

lemma count_change:
  assumes inv: "count_inv n st" and t: "t < length (a_pcs st)" and "acrit (a_pcs st ! t)" and pc: "acrit pc" "pc \<noteq> WTake"
    and st': "m_countMutex st' = m_countMutex st" "a_pcs st' = (a_pcs st)[t := pc]"
    and c: "sint (m_count st') = n + int (a_posted st') - int (a_taken st')" "0 \<le> sint (m_count st')"
  shows "count_inv n st'"
proof -
  have own: "owner (m_countMutex st) = Some t" using inv t assms(3) by (simp add: count_inv_def)
  have "a_pcs st ! u \<noteq> WTake" if "u < length (a_pcs st)" "u \<noteq> t" for u
  proof
    assume "a_pcs st ! u = WTake"
    then have "owner (m_countMutex st) = Some u" using inv that(1) by (force simp: count_inv_def acrit_def)
    then show False using own that(2) by simp
  qed
  then show ?thesis using inv t pc own st' c by (auto simp: count_inv_def nth_list_update)
qed

lemma count_step:
  assumes inv: "count_inv n st" and t: "t < length (a_pcs st)" and step: "aexec X t (a_pcs st ! t) st = Some st'"
    and few: "n + int (a_posted st') < 2 ^ 31"
  shows "count_inv n st'"
proof -
  have enter: "count_lock X t pc st = Some st' \<Longrightarrow> \<not> acrit (a_pcs st ! t) \<and> acrit pc \<and> pc \<noteq> WTake \<Longrightarrow> count_inv n st'" for pc
    using count_enter[OF inv t] by blast
  have leave: "count_unlock X t pc st = Some st' \<Longrightarrow> acrit (a_pcs st ! t) \<and> \<not> acrit pc \<and> pc \<noteq> WTake \<Longrightarrow> count_inv n st'" for pc
    using count_leave[OF inv t] by blast
  have loc: "count_inv n st'" if "acrit pc = acrit (a_pcs st ! t)" "pc = WTake \<Longrightarrow> 0 < sint (m_count st)"
    "a_pcs st' = (a_pcs st)[t := pc] \<and> m_countMutex st' = m_countMutex st \<and> m_count st' = m_count st \<and>
      a_posted st' = a_posted st \<and> a_taken st' = a_taken st" for pc
    using count_local[OF inv t that(1,2)] that(3) by blast
  have cnt: "sint (m_count st) = n + int (a_posted st) - int (a_taken st)" "0 \<le> sint (m_count st)"
    using inv by (simp_all add: count_inv_def)
  show ?thesis
  proof (cases "a_pcs st ! t")
    case WTake
    then have "0 < sint (m_count st)" using inv[unfolded count_inv_def] t by blast
    then show ?thesis using WTake step cnt
      by (intro count_change[OF inv t, of WGot]) (auto simp: ago_def acrit_def sint_dec)
  next
    case (NInc i k)
    then have st': "st' = ago t (NUnlock i k) (st\<lparr>m_count := m_count st + 1, a_posted := Suc (a_posted st)\<rparr>)" using step by simp
    then have "sint (m_count st) < sint (0x7FFFFFFF :: int32)" using few cnt by (simp add: ago_def)
    then have "sint (m_count st + 1) = sint (m_count st) + 1" by (rule sint_inc)
    then show ?thesis using NInc cnt
      by (intro count_change[OF inv t, of "NUnlock i k"]) (auto simp: st' ago_def acrit_def)
  next
    case (WTest ms)
    then show ?thesis using step
      by (intro loc[of "if 0 < sint (m_count st) then WTake else WMiss ms"]) (auto simp: ago_def acrit_def split: if_splits)
  next
    case WTest2
    then show ?thesis using step
      by (intro loc[of "if 0 < sint (m_count st) then WTake else WMiss2"]) (auto simp: ago_def acrit_def split: if_splits)
  next
    case (WWaitLock ms)
    then show ?thesis using step
      by (intro loc[of "WSleep ms"]) (auto simp: wait_lock_def ago_def acrit_def split: option.splits)
  next
    case (WSleep ms)
    then show ?thesis using step by (intro loc[of "WAsleep ms"]) (auto simp: wait_unlock_def ago_def acrit_def)
  next
    case (WAsleep ms)
    then show ?thesis using step by (intro loc[of "WRelock True"]) (auto simp: ago_def acrit_def split: if_splits)
  next
    case (WRelock ok)
    then show ?thesis using step
      by (intro loc[of "WAwake ok"]) (auto simp: wait_lock_def ago_def acrit_def split: option.splits)
  next
    case (WAwake ok)
    then show ?thesis using step
      by (intro loc[of "if ok then WLock2 else AReturned False"]) (auto simp: wait_unlock_def ago_def acrit_def split: if_splits)
  next
    case (NLoop i k)
    then show ?thesis using step
      by (intro loc[of "if sint i < sint k then NLock i k else ADone"]) (auto simp: ago_def acrit_def split: if_splits)
  next
    case (NSignal i k)
    then show ?thesis using step by (intro loc[of "NLoop (i + 1) k"]) (auto simp: ago_def acrit_def)
  next
    case VRead
    then show ?thesis using step by (intro loc[of "VUnlock (m_count st)"]) (auto simp: ago_def acrit_def)
  qed (use step in \<open>auto simp: acrit_def elim!: enter leave\<close>)
qed

lemma count_exact:
  "count_inv n st \<Longrightarrow> sint (m_count st) = n + int (a_posted st) - int (a_taken st) \<and> 0 \<le> sint (m_count st)"
  by (simp add: count_inv_def)

lemma count_fire:
  assumes inv: "count_inv n st" and fire: "afire X e st = Some st'" and few: "n + int (a_posted st') < 2 ^ 31"
  shows "count_inv n st'"
proof (cases e)
  case (ACall t opn)
  then have c: "t < length (a_pcs st)" "aidle (a_pcs st ! t)" "st' = ago t (aentry opn) st"
    using fire by (auto split: if_splits)
  have "\<not> acrit (a_pcs st ! t)" using c(2) by (cases "a_pcs st ! t") (simp_all add: apc_simps)
  moreover have "\<not> acrit (aentry opn)" "aentry opn \<noteq> WTake" by (cases opn; simp add: acrit_def)+
  ultimately show ?thesis by (intro count_local[OF inv c(1), of "aentry opn"]) (simp_all add: c(3) ago_def)
next
  case (AStep t)
  then show ?thesis using fire count_step[OF inv _ _ few] by (auto split: if_splits)
next
  case (AWake t timeout)
  then obtain ms where c: "t < length (a_pcs st)" "a_pcs st ! t = WAsleep ms"
      "st' = ago t (WRelock (\<not> timeout)) (st\<lparr>m_waitCond := pt_leave X t (m_waitCond st)\<rparr>)"
    using fire by (auto split: if_splits apc.splits)
  then show ?thesis by (intro count_local[OF inv c(1), of "WRelock (\<not> timeout)"]) (simp_all add: ago_def acrit_def)
qed

lemma posted_grows: "afire X e st = Some st' \<Longrightarrow> a_posted st \<le> a_posted st'"
proof (cases e)
  case (AStep t)
  moreover assume "afire X e st = Some st'"
  ultimately show ?thesis
    by (cases "a_pcs st ! t") (auto simp: astmt_defs split: if_splits option.splits)
qed (auto simp: ago_def split: if_splits apc.splits)

lemma count_run:
  "count_inv n st \<Longrightarrow> arun X es st = Some st' \<Longrightarrow> n + int (a_posted st') < 2 ^ 31 \<Longrightarrow>
     count_inv n st' \<and> a_posted st \<le> a_posted st'"
proof (induction es arbitrary: st)
  case (Cons e es)
  then obtain st1 where s: "afire X e st = Some st1" "arun X es st1 = Some st'" by (auto split: option.splits)
  have grow: "a_posted st1 \<le> a_posted st'" if "arun X es st1 = Some st'" for es st1
    using that by (induction es arbitrary: st1) (auto split: option.splits dest: posted_grows intro: order_trans)
  have "n + int (a_posted st1) < 2 ^ 31" using grow[OF s(2)] Cons.prems(3) by linarith
  then have "count_inv n st1" by (rule count_fire[OF Cons.prems(1) s(1)])
  from Cons.IH[OF this s(2) Cons.prems(3)] posted_grows[OF s(1)] show ?case by simp
qed simp

lemma lost_wakeup:
  "\<exists>st. arun X [ACall 0 (AWait 0), AStep 0, AStep 0, AStep 0, ACall 1 (ANotify 1), AStep 1, AStep 1, AStep 1, AStep 1,
       AStep 1, AStep 1, AStep 0, AStep 0] (asema_new X 0 2) = Some st \<and>
     m_count st = 1 \<and> a_pcs st = [WAsleep 0, ADone] \<and> afire X (AStep 0) st = None \<and> afire X (AStep 1) st = None"
proof -
  let ?m = "pt_mutex X"
  obtain m1 where m1: "pt_lock X 0 ?m = Some m1" "owner m1 = Some 0" using lock_takes[OF mutex_free] by blast
  let ?m2 = "pt_unlock X 0 m1"
  obtain m3 where m3: "pt_lock X 1 ?m2 = Some m3" using lock_takes[OF unlock_frees[OF m1(2)]] by blast
  have asleep: "pt_asleep X 0 (pt_sleep X 0 c)" for c by (simp add: asleep_iff sleep_joins)
  show ?thesis
    using m1 m3 asleep by (simp add: asema_new_def astmt_defs aidle_def numeral_2_eq_2)
qed

end

section \<open>Properties\<close>

text \<open>C30: on Mac OS the counter is exact in every interleaving: it is the initial value, plus the increments of
  \<open>notify\<close>, minus the tokens taken by waits that return true, and never negative, as long as it does not
  reach 2 to the power of 31.\<close>

theorem apple_count_exact:
  assumes "pthread_calls X owner sleepers" and "arun X es (asema_new X n threads) = Some st"
    and "0 \<le> sint n" and "sint n + int (a_posted st) < 2 ^ 31"
  shows "sint (m_count st) = sint n + int (a_posted st) - int (a_taken st) \<and> 0 \<le> sint (m_count st)"
  using pthread_calls.count_run[OF assms(1) pthread_calls.count_init[OF assms(1,3)] assms(2,4)]
    pthread_calls.count_exact[OF assms(1)] by blast

text \<open>On Mac OS a wakeup can be lost: when \<open>notify\<close> runs between the test of the counter and the wait for
  the condition, the waiting thread sleeps although a token is there, and nobody is left to wake it.\<close>

theorem apple_lost_wakeup:
  assumes "pthread_calls X owner sleepers"
  shows "\<exists>es st. arun X es (asema_new X 0 2) = Some st \<and> m_count st = 1 \<and> a_pcs st = [WAsleep 0, ADone] \<and>
    afire X (AStep 0) st = None \<and> afire X (AStep 1) st = None"
  using pthread_calls.lost_wakeup[OF assms] by blast

theorem apple_lost_wakeup_witness:
  "\<exists>es st. arun ref_pthread es (asema_new ref_pthread 0 2) = Some st \<and> m_count st = 1 \<and> a_pcs st = [WAsleep 0, ADone]"
  using apple_lost_wakeup[OF rp.pthread_calls_axioms] by blast

theorem apple_count_exact_witness:
  "\<exists>st. arun ref_pthread [ACall 0 (ANotify 1), AStep 0, AStep 0, AStep 0] (asema_new ref_pthread 4 1) = Some st \<and>
     sint (m_count st) = 5"
proof -
  obtain st where st: "arun ref_pthread [ACall 0 (ANotify 1), AStep 0, AStep 0, AStep 0] (asema_new ref_pthread 4 1) = Some st"
    and p: "a_posted st = 1" "a_taken st = 0"
    by (simp add: asema_new_def ref_pthread_def astmt_defs aidle_def)
  from apple_count_exact[OF rp.pthread_calls_axioms st] show ?thesis using st p by simp
qed

end
