(* ===== verification/SemaWindows.thy ===== *)
theory SemaWindows
  imports Mutex Sema
begin

text \<open>
  Model of the Windows branches of \<open>src/src/Sema.cpp\<close>: a semaphore of the system, and next to it a
  counter that mirrors its value, protected by a \<open>Mutex\<close>. Threads interleave between statements.
  The calls on the system's semaphore are parameters; the mutex is the one of \<open>Mutex\<close>, whose
  contract is the same on Windows. When \<open>ReleaseSemaphore\<close> fails it does not store the previous
  count, and \<open>notify\<close> computes with an uninitialised variable: \<open>w_ub\<close>.
\<close>

section \<open>System calls\<close>

text \<open>
  \<open>ws_take\<close> is a wait that succeeds at once; it has no result when there is no token. \<open>ws_release\<close>
  gives the previous count, and no result when it fails: when the increment is not positive, or the
  count would exceed its maximum.
\<close>

record 'h winsem =
  ws_create :: "int32 \<Rightarrow> 'h"
  ws_take :: "'h \<Rightarrow> 'h option"
  ws_release :: "int32 \<Rightarrow> 'h \<Rightarrow> (int32 \<times> 'h) option"

locale win_semaphore =
  fixes W :: "'h winsem"
    and available :: "'h \<Rightarrow> int"
  assumes created: "0 \<le> sint n \<Longrightarrow> available (ws_create W n) = sint n"
    and never_negative: "0 \<le> available h"
    and take_none: "available h = 0 \<Longrightarrow> ws_take W h = None"
    and take_some: "0 < available h \<Longrightarrow> \<exists>h'. ws_take W h = Some h' \<and> available h' = available h - 1"
    and release_some: "0 < sint n \<Longrightarrow> available h + sint n < 2 ^ 31 \<Longrightarrow>
      \<exists>c h'. ws_release W n h = Some (c, h') \<and> sint c = available h \<and> available h' = available h + sint n"
    and release_none: "sint n \<le> 0 \<or> 2 ^ 31 \<le> available h + sint n \<Longrightarrow> ws_release W n h = None"

definition ref_winsem :: "nat winsem" where
  "ref_winsem = \<lparr>
     ws_create = (\<lambda>n. nat (sint n)),
     ws_take = (\<lambda>h. case h of 0 \<Rightarrow> None | Suc k \<Rightarrow> Some k),
     ws_release = (\<lambda>n h. if sint n \<le> 0 \<or> 2 ^ 31 \<le> int h + sint n then None
       else Some (word_of_int (int h), h + nat (sint n)))\<rparr>"

lemma sint_small32: "0 \<le> k \<Longrightarrow> k < 2 ^ 31 \<Longrightarrow> sint (word_of_int k :: int32) = k"
  by (simp add: sint_sbintrunc' signed_take_bit_int_eq_self)

lemma sint_small_nat: "int h < 2 ^ 31 \<Longrightarrow> sint (word_of_nat h :: int32) = int h"
  using sint_small32[of "int h"] by simp

interpretation rw: win_semaphore ref_winsem int
  by unfold_locales (auto simp: ref_winsem_def sint_small_nat split: nat.splits)

section \<open>State\<close>

datatype wop = OpWait u32 | OpNotify int32 | OpValue

datatype wpc = WIdle | WReturned bool | WDone | WCount int32
  | WWait u32 | WLock | WDec | WUnlock
  | NLock int32 | NRelease int32 | NUnlock
  | VLock | VRead | VUnlock int32

record ('m, 'h) wsema =
  m_semaphore :: 'h
  m_count :: int32
  m_pMutex :: 'm
  w_pcs :: "wpc list"
  w_ub :: bool

definition wsema_new :: "('m, 's) posix \<Rightarrow> 'h winsem \<Rightarrow> int32 \<Rightarrow> nat \<Rightarrow> ('m, 'h) wsema" where
  "wsema_new P W n threads = \<lparr>m_semaphore = ws_create W n, m_count = n, m_pMutex = mutex_new P,
     w_pcs = replicate threads WIdle, w_ub = False\<rparr>"

definition wgo :: "tid \<Rightarrow> wpc \<Rightarrow> ('m, 'h) wsema \<Rightarrow> ('m, 'h) wsema" where
  "wgo t pc st = st\<lparr>w_pcs := (w_pcs st)[t := pc]\<rparr>"

section \<open>Statements\<close>

definition w_lock :: "('m, 's) posix \<Rightarrow> tid \<Rightarrow> wpc \<Rightarrow> ('m, 'h) wsema \<Rightarrow> ('m, 'h) wsema option" where
  "w_lock P t pc st = (case mutex_lock P t (m_pMutex st) of None \<Rightarrow> None | Some m \<Rightarrow> Some (wgo t pc (st\<lparr>m_pMutex := m\<rparr>)))"

definition w_unlock :: "('m, 's) posix \<Rightarrow> tid \<Rightarrow> wpc \<Rightarrow> ('m, 'h) wsema \<Rightarrow> ('m, 'h) wsema option" where
  "w_unlock P t pc st = Some (wgo t pc (st\<lparr>m_pMutex := mutex_unlock P t (m_pMutex st)\<rparr>))"

fun wexec :: "('m, 's) posix \<Rightarrow> 'h winsem \<Rightarrow> tid \<Rightarrow> wpc \<Rightarrow> ('m, 'h) wsema \<Rightarrow> ('m, 'h) wsema option" where
  "wexec P W t (WWait ms) st = (case ws_take W (m_semaphore st) of
     None \<Rightarrow> None | Some h \<Rightarrow> Some (wgo t WLock (st\<lparr>m_semaphore := h\<rparr>)))"
| "wexec P W t WLock st = w_lock P t WDec st"
| "wexec P W t WDec st = Some (wgo t WUnlock (st\<lparr>m_count := m_count st - 1\<rparr>))"
| "wexec P W t WUnlock st = w_unlock P t (WReturned True) st"
| "wexec P W t (NLock n) st = w_lock P t (NRelease n) st"
| "wexec P W t (NRelease n) st = (case ws_release W n (m_semaphore st) of
     None \<Rightarrow> Some (st\<lparr>w_ub := True\<rparr>)
   | Some (cnt, h) \<Rightarrow> Some (wgo t NUnlock (st\<lparr>m_semaphore := h, m_count := cnt + n\<rparr>)))"
| "wexec P W t NUnlock st = w_unlock P t WDone st"
| "wexec P W t VLock st = w_lock P t VRead st"
| "wexec P W t VRead st = Some (wgo t (VUnlock (m_count st)) st)"
| "wexec P W t (VUnlock c) st = w_unlock P t (WCount c) st"
| "wexec P W t _ st = None"

primrec wentry :: "wop \<Rightarrow> wpc" where
  "wentry (OpWait ms) = WWait ms"
| "wentry (OpNotify n) = NLock n"
| "wentry OpValue = VLock"

definition widle :: "wpc \<Rightarrow> bool" where
  "widle pc \<longleftrightarrow> (case pc of WIdle \<Rightarrow> True | WReturned _ \<Rightarrow> True | WDone \<Rightarrow> True | WCount _ \<Rightarrow> True | _ \<Rightarrow> False)"

text \<open>A thread calls an operation, executes its next statement, or its wait times out, if it has a timeout.\<close>

datatype wevent = WCall tid wop | WStep tid | WTimeout tid

fun wfire :: "('m, 's) posix \<Rightarrow> 'h winsem \<Rightarrow> wevent \<Rightarrow> ('m, 'h) wsema \<Rightarrow> ('m, 'h) wsema option" where
  "wfire P W (WCall t opn) st =
     (if \<not> w_ub st \<and> t < length (w_pcs st) \<and> widle (w_pcs st ! t) then Some (wgo t (wentry opn) st) else None)"
| "wfire P W (WStep t) st = (if \<not> w_ub st \<and> t < length (w_pcs st) then wexec P W t (w_pcs st ! t) st else None)"
| "wfire P W (WTimeout t) st =
     (if \<not> w_ub st \<and> t < length (w_pcs st) \<and> (case w_pcs st ! t of WWait ms \<Rightarrow> ms \<noteq> 0 | _ \<Rightarrow> False)
      then Some (wgo t (WReturned False) st) else None)"

primrec wrun :: "('m, 's) posix \<Rightarrow> 'h winsem \<Rightarrow> wevent list \<Rightarrow> ('m, 'h) wsema \<Rightarrow> ('m, 'h) wsema option" where
  "wrun P W [] st = Some st"
| "wrun P W (e # es) st = (case wfire P W e st of None \<Rightarrow> None | Some st' \<Rightarrow> wrun P W es st')"

section \<open>The mirror of the counter\<close>

text \<open>Waits that have taken their token and not yet counted it.\<close>

definition in_flight :: "wpc \<Rightarrow> nat" where
  "in_flight pc = (case pc of WLock \<Rightarrow> 1 | WDec \<Rightarrow> 1 | _ \<Rightarrow> 0)"

text \<open>Schedules in which \<open>ReleaseSemaphore\<close> is never called while such a wait is under way.\<close>

fun calm :: "('m, 's) posix \<Rightarrow> 'h winsem \<Rightarrow> wevent list \<Rightarrow> ('m, 'h) wsema \<Rightarrow> bool" where
  "calm P W [] st \<longleftrightarrow> True"
| "calm P W (e # es) st \<longleftrightarrow>
     (case e of WStep t \<Rightarrow> t < length (w_pcs st) \<and> (\<exists>n. w_pcs st ! t = NRelease n) \<longrightarrow> sum_list (map in_flight (w_pcs st)) = 0 | _ \<Rightarrow> True) \<and>
     (case wfire P W e st of None \<Rightarrow> True | Some st' \<Rightarrow> calm P W es st')"

lemma sum_flight_update:
  "t < length pcs \<Longrightarrow> sum_list (map in_flight (pcs[t := pc])) + in_flight (pcs ! t) = sum_list (map in_flight pcs) + in_flight pc"
  by (induction pcs arbitrary: t) (auto split: nat.split simp: nth_Cons')

lemma flight_le: "t < length pcs \<Longrightarrow> in_flight (pcs ! t) \<le> sum_list (map in_flight pcs)"
  by (metis elem_le_sum_list length_map nth_map)

context win_semaphore
begin

definition mirrored :: "('m, 'h) wsema \<Rightarrow> bool" where
  "mirrored st \<longleftrightarrow> w_ub st \<or> sint (m_count st) = available (m_semaphore st) + int (sum_list (map in_flight (w_pcs st)))"

lemma mirrored_move:
  assumes "mirrored st" and "\<not> w_ub st" and "t < length (w_pcs st)" and "w_pcs st' = (w_pcs st)[t := pc]"
    and "sint (m_count st') + available (m_semaphore st) + int (in_flight (w_pcs st ! t)) =
      sint (m_count st) + available (m_semaphore st') + int (in_flight pc)"
  shows "mirrored st'"
  using assms sum_flight_update[of t "w_pcs st" pc] by (simp add: mirrored_def)

lemma mirrored_step:
  assumes inv: "mirrored st" and ub: "\<not> w_ub st" and t: "t < length (w_pcs st)" and step: "wexec P W t (w_pcs st ! t) st = Some st'"
    and calm: "\<And>n. w_pcs st ! t = NRelease n \<Longrightarrow> sum_list (map in_flight (w_pcs st)) = 0"
  shows "mirrored st'"
proof -
  note move = mirrored_move[OF inv ub t]
  have lock: "mirrored st'" if "w_lock P t pc st = Some st'" "in_flight pc = in_flight (w_pcs st ! t)" for pc
    by (rule move[of _ pc]) (use that in \<open>auto simp: w_lock_def wgo_def split: option.splits\<close>)
  have unlock: "mirrored st'" if "w_unlock P t pc st = Some st'" "in_flight pc = in_flight (w_pcs st ! t)" for pc
    by (rule move[of _ pc]) (use that in \<open>auto simp: w_unlock_def wgo_def\<close>)
  show ?thesis
  proof (cases "w_pcs st ! t")
    case (WWait ms)
    then obtain h where h: "ws_take W (m_semaphore st) = Some h" "st' = wgo t WLock (st\<lparr>m_semaphore := h\<rparr>)"
      using step by (auto split: option.splits)
    have "available (m_semaphore st) \<noteq> 0" using take_none[of "m_semaphore st"] h(1) by auto
    then have "0 < available (m_semaphore st)" using never_negative[of "m_semaphore st"] by linarith
    then have "available h = available (m_semaphore st) - 1" using take_some h(1) by fastforce
    then show ?thesis using WWait h(2) by (intro move[of _ WLock]) (simp_all add: wgo_def in_flight_def)
  next
    case WDec
    have "0 < sum_list (map in_flight (w_pcs st))" using flight_le[OF t] WDec by (simp add: in_flight_def)
    then have "0 < sint (m_count st)" using inv ub never_negative[of "m_semaphore st"] by (simp add: mirrored_def)
    then have "sint (m_count st - 1) = sint (m_count st) - 1"
      using sint_less[of "m_count st"] by (simp add: sint_word_ariths(2) signed_take_bit_int_eq_self)
    then show ?thesis using WDec step by (intro move[of _ WUnlock]) (auto simp: wgo_def in_flight_def)
  next
    case (NRelease n)
    show ?thesis
    proof (cases "ws_release W n (m_semaphore st)")
      case None
      then show ?thesis using step NRelease by (auto simp: mirrored_def)
    next
      case (Some r)
      obtain c h where r: "r = (c, h)" by (cases r)
      have "\<not> (sint n \<le> 0 \<or> 2 ^ 31 \<le> available (m_semaphore st) + sint n)"
        using release_none[of n "m_semaphore st"] Some by (metis option.distinct(1))
      then have ok: "0 < sint n" "available (m_semaphore st) + sint n < 2 ^ 31" by simp_all
      then have c: "sint c = available (m_semaphore st)" "available h = available (m_semaphore st) + sint n"
        using release_some[OF ok] Some r by auto
      have "sint (c + n) = sint c + sint n"
        using c ok never_negative[of "m_semaphore st"] by (simp add: sint_word_ariths(1) signed_take_bit_int_eq_self)
      moreover have "sint (m_count st) = available (m_semaphore st)" using inv ub calm[OF NRelease] by (simp add: mirrored_def)
      ultimately show ?thesis using step NRelease Some r c
        by (intro move[of _ NUnlock]) (auto simp: wgo_def in_flight_def)
    qed
  next
    case VRead
    then show ?thesis using step by (intro move[of _ "VUnlock (m_count st)"]) (auto simp: wgo_def in_flight_def)
  qed (use step in \<open>auto simp: in_flight_def elim!: lock unlock\<close>)
qed

lemma mirrored_fire:
  assumes inv: "mirrored st" and fire: "wfire P W e st = Some st'" and calm: "calm P W (e # es) st"
  shows "mirrored st'"
proof (cases e)
  case (WCall t opn)
  then have c: "\<not> w_ub st" "t < length (w_pcs st)" "widle (w_pcs st ! t)" "st' = wgo t (wentry opn) st"
    using fire by (auto split: if_splits)
  have "in_flight (w_pcs st ! t) = 0" "in_flight (wentry opn) = 0"
    using c(3) by (cases "w_pcs st ! t"; simp add: widle_def in_flight_def) (cases opn; simp add: in_flight_def)
  then show ?thesis by (intro mirrored_move[OF inv c(1,2), of _ "wentry opn"]) (simp_all add: c(4) wgo_def)
next
  case (WStep t)
  then have c: "\<not> w_ub st" "t < length (w_pcs st)" "wexec P W t (w_pcs st ! t) st = Some st'"
    using fire by (auto split: if_splits)
  show ?thesis by (rule mirrored_step[OF inv c]) (use calm WStep c(2) in auto)
next
  case (WTimeout t)
  then have c: "\<not> w_ub st" "t < length (w_pcs st)" "in_flight (w_pcs st ! t) = 0" "st' = wgo t (WReturned False) st"
    using fire by (auto simp: in_flight_def split: if_splits wpc.splits)
  then show ?thesis by (intro mirrored_move[OF inv c(1,2), of _ "WReturned False"]) (simp_all add: wgo_def in_flight_def)
qed

lemma mirrored_run:
  "mirrored st \<Longrightarrow> wrun P W es st = Some st' \<Longrightarrow> calm P W es st \<Longrightarrow> mirrored st'"
proof (induction es arbitrary: st)
  case (Cons e es)
  then obtain st1 where s: "wfire P W e st = Some st1" "wrun P W es st1 = Some st'" by (auto split: option.splits)
  show ?case
    by (rule Cons.IH[OF mirrored_fire[OF Cons.prems(1) s(1) Cons.prems(3)] s(2)]) (use Cons.prems(3) s(1) in simp)
qed simp

lemma mirrored_exact:
  "mirrored st \<Longrightarrow> \<not> w_ub st \<Longrightarrow> \<forall>pc \<in> set (w_pcs st). in_flight pc = 0 \<Longrightarrow> sint (m_count st) = available (m_semaphore st)"
  by (simp add: mirrored_def cong: map_cong)

lemma take_release:
  "\<exists>h h2 c. ws_take W (ws_create W 1) = Some h \<and> ws_release W 1 h = Some (c, h2) \<and> available h2 = 1 \<and> c = 0"
proof -
  have "available (ws_create W 1) = 1" using created[of 1] by simp
  then obtain h where h: "ws_take W (ws_create W 1) = Some h" "available h = 0" using take_some[of "ws_create W 1"] by auto
  then obtain c h2 where r: "ws_release W 1 h = Some (c, h2)" "sint c = 0" "available h2 = 1"
    using release_some[of 1 h] by auto
  have "c = 0" using r(2) by (intro signed_word_eqI) simp
  then show ?thesis using h r by blast
qed

lemma mirrored_new: "0 \<le> sint n \<Longrightarrow> mirrored (wsema_new P W n threads)"
  using created[of n] by (simp add: mirrored_def wsema_new_def in_flight_def sum_list_replicate)

end

section \<open>Properties\<close>

text \<open>On Windows, in every schedule in which \<open>notify\<close> releases tokens only while no wait is between taking a
  token and counting it, \<open>m_count\<close> is the number of tokens of the system's semaphore whenever no
  wait is there.\<close>

theorem windows_count_calm:
  assumes "win_semaphore W available" and "0 \<le> sint n" and "wrun P W es (wsema_new P W n threads) = Some st"
    and "calm P W es (wsema_new P W n threads)" and "\<not> w_ub st" and "\<forall>pc \<in> set (w_pcs st). in_flight pc = 0"
  shows "sint (m_count st) = available (m_semaphore st)"
  using win_semaphore.mirrored_run[OF assms(1) win_semaphore.mirrored_new[OF assms(1,2)] assms(3,4)]
    win_semaphore.mirrored_exact[OF assms(1)] assms(5,6) by blast

text \<open>When \<open>notify\<close> runs while a wait has taken its token and not yet counted it, the mirror is wrong for
  good: all threads have finished, the semaphore holds a token, and \<open>value\<close> says there is none.\<close>

theorem windows_count_drifts:
  assumes "win_semaphore W available" and "posix_sync P owner depth tokens"
  shows "\<exists>es st. wrun P W es (wsema_new P W 1 2) = Some st \<and> (\<forall>pc \<in> set (w_pcs st). widle pc) \<and> \<not> w_ub st \<and>
    m_count st = 0 \<and> available (m_semaphore st) = 1"
proof -
  obtain h h2 c where h: "ws_take W (ws_create W 1) = Some h" "ws_release W 1 h = Some (c, h2)" "available h2 = 1" "c = 0"
    using win_semaphore.take_release[OF assms(1)] by blast
  obtain m1 where m1: "p_mutex_lock P 1 (mutex_new P) = Some m1" "owner m1 = Some 1" "depth m1 = 1"
    using posix_sync.lock_free[OF assms(2) posix_sync.new_free[OF assms(2)]] by blast
  obtain m2 where m2: "p_mutex_lock P 0 (p_mutex_unlock P 1 m1) = Some m2"
    using posix_sync.lock_free[OF assms(2) posix_sync.unlock_last[OF assms(2) m1(2,3)]] by blast
  let ?es = "[WCall 0 (OpWait 0), WStep 0, WCall 1 (OpNotify 1), WStep 1, WStep 1, WStep 1, WStep 0, WStep 0, WStep 0]"
  have "\<exists>st. wrun P W ?es (wsema_new P W 1 2) = Some st \<and> (\<forall>pc \<in> set (w_pcs st). widle pc) \<and> \<not> w_ub st \<and>
    m_count st = 0 \<and> m_semaphore st = h2"
    using h(1,2) m1(1) m2
    by (simp add: wsema_new_def wgo_def w_lock_def w_unlock_def widle_def mutex_lock_def mutex_unlock_def
        h(4) numeral_2_eq_2)
  then show ?thesis using h(3) by blast
qed

theorem windows_count_drifts_witness:
  "\<exists>es st. wrun ref_posix ref_winsem es (wsema_new ref_posix ref_winsem 1 2) = Some st \<and> m_count st = 0 \<and> m_semaphore st = 1"
  using windows_count_drifts[OF rw.win_semaphore_axioms ref.posix_sync_axioms] by auto

end
