(* ===== verification/ByteArray.thy ===== *)
theory ByteArray
  imports Ucxx_Prelude
begin

text \<open>
  Model of \<open>src/src/ByteArray.h\<close> and \<open>src/src/ByteArray.cpp\<close>: a wrapper around
  \<open>std::vector<char>\<close>. A pointer argument \<open>pBuffer\<close> is the list of bytes readable
  from it, so reading past it is visible; undefined behaviour of the source (an index or
  an iterator outside the vector) is the result \<open>None\<close>.
  The locale \<open>byte_buffer\<close> is the interface the serializer and the sockets use of it.
\<close>

section \<open>State and constructors\<close>

record bytearray =
  ba_data :: "char list"

definition ba_new :: bytearray where
  "ba_new = \<lparr>ba_data = []\<rparr>"

definition ba_of_string :: "string \<Rightarrow> bytearray" where
  "ba_of_string str = (let l = length str; pStr = str @ [CHR 0x00]
     in ba_new\<lparr>ba_data := take l pStr\<rparr>)"

definition ba_of_buffer :: "char list \<Rightarrow> size_t \<Rightarrow> bytearray option" where
  "ba_of_buffer pBuffer n =
     (if uint n \<le> int (length pBuffer) then Some (ba_new\<lparr>ba_data := take (unat n) pBuffer\<rparr>) else None)"

definition ba_of_vector :: "char list \<Rightarrow> bytearray" where
  "ba_of_vector v = \<lparr>ba_data = v\<rparr>"

definition ba_copy :: "bytearray \<Rightarrow> bytearray" where
  "ba_copy ba = \<lparr>ba_data = ba_data ba\<rparr>"

text \<open>The flag says whether the argument is the object itself (\<open>this == &ba\<close>).\<close>

definition ba_assign :: "bool \<Rightarrow> bytearray \<Rightarrow> bytearray \<Rightarrow> bytearray" where
  "ba_assign same this ba = (if \<not> same then this\<lparr>ba_data := ba_data ba\<rparr> else this)"

section \<open>Operations\<close>

definition ba_size :: "bytearray \<Rightarrow> size_t" where
  "ba_size ba = of_nat (length (ba_data ba))"

definition ba_isEmpty :: "bytearray \<Rightarrow> bool" where
  "ba_isEmpty ba \<longleftrightarrow> ba_size ba = 0"

definition ba_append_char :: "bytearray \<Rightarrow> char \<Rightarrow> bytearray" where
  "ba_append_char this b = this\<lparr>ba_data := ba_data this @ [b]\<rparr>"

text \<open>\<open>vector::insert\<close> requires iterators that do not point into the vector itself.\<close>

definition ba_append :: "bool \<Rightarrow> bytearray \<Rightarrow> bytearray \<Rightarrow> bytearray option" where
  "ba_append same this ba =
     (if same then None else Some (this\<lparr>ba_data := ba_data this @ ba_data ba\<rparr>))"

definition ba_append_buffer :: "bytearray \<Rightarrow> char list \<Rightarrow> size_t \<Rightarrow> bytearray option" where
  "ba_append_buffer this pBuffer n =
     (if uint n \<le> int (length pBuffer)
      then Some (this\<lparr>ba_data := ba_data this @ take (unat n) pBuffer\<rparr>) else None)"

definition ba_append_string :: "bytearray \<Rightarrow> string \<Rightarrow> bytearray option" where
  "ba_append_string this str = ba_append_buffer this (str @ [CHR 0x00]) (of_nat (length str))"

definition ba_clear :: "bytearray \<Rightarrow> bytearray" where
  "ba_clear this = this\<lparr>ba_data := []\<rparr>"

text \<open>
  \<open>m_data[i]\<close> converts the \<open>int\<close> index to \<open>size_t\<close> by sign extension.
  The reference the non-const operator returns is read by \<open>ba_at\<close> and written through
  by \<open>ba_set\<close>.
\<close>

definition ba_index :: "int32 \<Rightarrow> size_t" where
  "ba_index i = scast i"

definition ba_at :: "bytearray \<Rightarrow> int32 \<Rightarrow> char option" where
  "ba_at this i = (let j = ba_index i
     in if uint j < int (length (ba_data this)) then Some (ba_data this ! unat j) else None)"

definition ba_set :: "bytearray \<Rightarrow> int32 \<Rightarrow> char \<Rightarrow> bytearray option" where
  "ba_set this i c = (let j = ba_index i
     in if uint j < int (length (ba_data this)) then Some (this\<lparr>ba_data := (ba_data this)[unat j := c]\<rparr>) else None)"

text \<open>
  \<open>slice\<close>: iterator arithmetic in \<open>ptrdiff_t\<close>, defined only inside the vector; the
  range constructor needs \<open>first \<le> last\<close>.
\<close>

definition ba_slice :: "bytearray \<Rightarrow> int32 \<Rightarrow> size_t \<Rightarrow> bytearray option" where
  "ba_slice this begin n =
     (let len = int (length (ba_data this)); first = sint begin; last = first + sint n
      in if 0 \<le> first \<and> first \<le> len \<and> first \<le> last \<and> last \<le> len
         then Some (ba_of_vector (take (nat (last - first)) (drop (nat first) (ba_data this))))
         else None)"

definition ba_constData :: "bytearray \<Rightarrow> char list" where
  "ba_constData this = ba_data this"

definition ba_data_ptr :: "bytearray \<Rightarrow> char list" where
  "ba_data_ptr this = ba_data this"

section \<open>Functional behaviour\<close>

named_theorems ba_simps \<open>contents of a byte array after each operation\<close>

lemma ba_data_ctor [ba_simps]:
  "ba_data ba_new = []" "ba_data (ba_of_string s) = s" "ba_data (ba_of_vector v) = v"
  "ba_data (ba_copy ba) = ba_data ba" "ba_data (ba_clear ba) = []"
  by (auto simp: ba_new_def ba_of_string_def ba_of_vector_def ba_copy_def ba_clear_def Let_def)

lemma ba_data_append [ba_simps]:
  "ba_data (ba_append_char ba c) = ba_data ba @ [c]"
  "ba_append False ba bb = Some \<lparr>ba_data = ba_data ba @ ba_data bb\<rparr>"
  by (simp_all add: ba_append_char_def ba_append_def)

lemma ba_append_buffer_prefix:
  assumes "unat n \<le> length buf"
  shows "ba_append_buffer ba buf n = Some (ba\<lparr>ba_data := ba_data ba @ take (unat n) buf\<rparr>)"
proof -
  have "uint n \<le> int (length buf)" using assms by (metis of_nat_le_iff of_nat_unat)
  then show ?thesis by (simp add: ba_append_buffer_def)
qed

lemma ba_append_buffer_Some [ba_simps]:
  "unat n = length buf \<Longrightarrow>
     ba_append_buffer ba buf n = Some (ba\<lparr>ba_data := ba_data ba @ buf\<rparr>)"
  by (simp add: ba_append_buffer_prefix)

lemma ba_size_unat: "length (ba_data ba) < 2 ^ 64 \<Longrightarrow> unat (ba_size ba) = length (ba_data ba)"
  by (simp add: ba_size_def unat_of_nat_size)

lemma ba_index_in_range:
  assumes "length xs < 2 ^ 63"
  shows "uint (ba_index i) < int (length xs) \<longleftrightarrow> 0 \<le> sint i \<and> sint i < int (length xs)"
proof (cases "0 \<le> sint i")
  case True
  then have "uint (ba_index i) = sint i"
    using sint_less[of i] by (simp add: ba_index_def uint_scast64)
  with True show ?thesis by simp
next
  case False
  then have "2 ^ 63 \<le> unat (ba_index i)" unfolding ba_index_def by (intro unat_scast_neg) simp
  then have "2 ^ 63 \<le> uint (ba_index i)" by (metis of_nat_le_iff of_nat_numeral of_nat_power of_nat_unat)
  with False assms show ?thesis by simp
qed

lemma ba_at_iff:
  assumes "length (ba_data ba) < 2 ^ 63"
  shows "ba_at ba i = (if 0 \<le> sint i \<and> sint i < int (length (ba_data ba))
     then Some (ba_data ba ! nat (sint i)) else None)"
  using ba_index_in_range[OF assms, of i]
  by (simp add: ba_at_def Let_def) (simp add: ba_index_def unat_scast_nonneg)

lemma ba_slice_Some:
  assumes "0 \<le> sint b" and "nat (sint b) + n \<le> length (ba_data ba)" and "length (ba_data ba) < 2 ^ 63"
  shows "ba_slice ba b (of_nat n) = Some \<lparr>ba_data = take n (drop (nat (sint b)) (ba_data ba))\<rparr>"
proof -
  have "sint (of_nat n :: size_t) = int n"
    using assms by (intro sint_size_of_nat) simp
  with assms show ?thesis
    by (auto simp: ba_slice_def ba_of_vector_def Let_def)
qed

section \<open>The interface its clients use\<close>

text \<open>
  What the serializer relies on: bytes are only ever added at the end, and \<open>constData\<close>
  reads exactly the bytes added.
\<close>

locale byte_buffer =
  fixes view :: "'b \<Rightarrow> char list"
    and put_char :: "'b \<Rightarrow> char \<Rightarrow> 'b"
    and put_block :: "'b \<Rightarrow> char list \<Rightarrow> size_t \<Rightarrow> 'b option"
    and count :: "'b \<Rightarrow> size_t"
  assumes view_put_char: "view (put_char b c) = view b @ [c]"
    and view_put_block: "unat n = length xs \<Longrightarrow>
      \<exists>b'. put_block b xs n = Some b' \<and> view b' = view b @ xs"
    and count_view: "count b = of_nat (length (view b))"
begin

lemma view_put_chars: "view (foldl put_char b cs) = view b @ cs"
  by (induction cs arbitrary: b) (simp_all add: view_put_char)

lemma put_chars_extend: "\<exists>ys. view (foldl put_char b cs) = view b @ ys"
  by (simp add: view_put_chars)

lemma put_block_chars:
  assumes "unat n = length xs"
  shows "\<exists>b'. put_block b xs n = Some b' \<and> view b' = view (foldl put_char b xs)"
  using view_put_block[OF assms, of b] by (simp add: view_put_chars)

lemma count_put_chars: "count (foldl put_char b cs) = count b + of_nat (length cs)"
  by (simp add: count_view view_put_chars)

end

interpretation ba: byte_buffer ba_constData ba_append_char ba_append_buffer ba_size
  by unfold_locales (simp_all add: ba_constData_def ba_simps ba_size_def)

section \<open>Properties\<close>

text \<open>\<open>slice(begin, size)\<close> is defined exactly when the whole range lies inside the array,
  and then is the bytes of the range; nothing is checked or thrown for any other range.\<close>

theorem ba_slice_iff:
  assumes "length (ba_data ba) < 2 ^ 63"
  shows "ba_slice ba b n =
     (if 0 \<le> sint b \<and> sint b + uint n \<le> int (length (ba_data ba))
      then Some \<lparr>ba_data = take (unat n) (drop (nat (sint b)) (ba_data ba))\<rparr> else None)"
proof (cases "uint n < 2 ^ 63")
  case True
  then have "sint n = uint n" unfolding sint_uint by (intro signed_take_bit_int_eq_self) (simp_all add: order_trans[OF _ uint_ge_0])
  then show ?thesis
    using uint_ge_0[of n] by (auto simp: ba_slice_def ba_of_vector_def Let_def simp del: uint_ge_0 unsigned_greater_eq)
next
  case False
  have "(uint n + 2 ^ 63) mod 2 ^ 64 = (uint n + 2 ^ 63 - 2 ^ 64) mod 2 ^ 64"
    by (rule minus_mod_self2[symmetric])
  also have "\<dots> = uint n + 2 ^ 63 - 2 ^ 64"
    using False uint_lt2p[of n] by (intro mod_pos_pos_trivial) simp_all
  finally have "sint n < 0"
    using uint_lt2p[of n] by (simp add: sint_uint signed_take_bit_eq_take_bit_shift take_bit_eq_mod)
  with False assms show ?thesis by (auto simp: ba_slice_def Let_def)
qed

theorem ba_slice_iff_witness:
  "ba_slice \<lparr>ba_data = ''abcd''\<rparr> 1 2 = Some \<lparr>ba_data = ''bc''\<rparr> \<and>
   ba_slice \<lparr>ba_data = ''abcd''\<rparr> 3 2 = None"
  using ba_slice_iff[of "\<lparr>ba_data = ''abcd''\<rparr>" 1 2] ba_slice_iff[of "\<lparr>ba_data = ''abcd''\<rparr>" 3 2]
  by simp

text \<open>Writing through \<open>operator[]\<close> is defined exactly for the indices inside the array,
  a negative index never being one; it changes that byte and no other, and not the size.\<close>

theorem ba_set_at:
  assumes "length (ba_data ba) < 2 ^ 63"
  shows "(if 0 \<le> sint i \<and> sint i < int (length (ba_data ba))
      then \<exists>ba'. ba_set ba i c = Some ba' \<and> ba_size ba' = ba_size ba \<and>
         (\<forall>j. ba_at ba' j = (if j = i then Some c else ba_at ba j))
      else ba_set ba i c = None \<and> ba_at ba i = None)"
proof (cases "0 \<le> sint i \<and> sint i < int (length (ba_data ba))")
  case True
  let ?ba = "ba\<lparr>ba_data := (ba_data ba)[nat (sint i) := c]\<rparr>"
  have "ba_set ba i c = Some ?ba"
    using ba_index_in_range[OF assms, of i] True
    by (simp add: ba_set_def Let_def) (simp add: ba_index_def unat_scast_nonneg)
  moreover have "ba_at ?ba j = (if j = i then Some c else ba_at ba j)" for j
  proof -
    have "length (ba_data ?ba) < 2 ^ 63" using assms by simp
    moreover have "nat (sint j) = nat (sint i) \<Longrightarrow> 0 \<le> sint j \<Longrightarrow> j = i"
    proof -
      assume "nat (sint j) = nat (sint i)" and "0 \<le> sint j"
      with True have "sint j = sint i" using eq_nat_nat_iff by blast
      then show "j = i" by (rule signed_word_eqI)
    qed
    ultimately show ?thesis
      using True by (auto simp: ba_at_iff assms nth_list_update)
  qed
  ultimately show ?thesis using True by (simp add: ba_size_def)
next
  case False
  then show ?thesis
    using ba_index_in_range[OF assms, of i] by (simp only: ba_set_def ba_at_def Let_def) simp
qed

theorem ba_set_at_witness:
  "ba_set \<lparr>ba_data = ''abc''\<rparr> (- 1) CHR ''x'' = None \<and>
   (\<exists>ba'. ba_set \<lparr>ba_data = ''abc''\<rparr> 1 CHR ''x'' = Some ba' \<and> ba_at ba' 1 = Some CHR ''x'')"
  using ba_set_at[of "\<lparr>ba_data = ''abc''\<rparr>" "- 1" "CHR ''x''"] ba_set_at[of "\<lparr>ba_data = ''abc''\<rparr>" 1 "CHR ''x''"]
  by auto

end
