(* ===== verification/WireFormat.thy ===== *)
theory WireFormat
  imports ByteArraySerializer
begin

text \<open>
  The abstract specification of the serializer: the encoder \<open>enc\<close> as a function from
  values to bytes, and the grammar \<open>parses\<close> of the byte strings a pop accepts, with the
  value each denotes. \<open>ByteArraySerializer\<close> is shown to implement both in
  \<open>SerializerProofs\<close>.
\<close>

section \<open>Encoder\<close>

fun enc :: "variant \<Rightarrow> char list"
and enc_elems :: "variant list \<Rightarrow> char list"
and enc_entries :: "(string \<times> variant) list \<Rightarrow> char list" where
  "enc VInvalid = ''X''"
| "enc VNull = ''N''"
| "enc (VBoolean b) = ''B'' @ bytes_bool b"
| "enc (VInteger i) = ''I'' @ bytes_int i"
| "enc (VReal d) = ''R'' @ bytes_double d"
| "enc (VString s) = ''S'' @ bytes_unsigned (of_nat (length s)) @ take (unat (of_nat (length s) :: u32)) s"
| "enc (VList vs) = ''L'' @ bytes_unsigned (of_nat (length vs)) @ enc_elems vs"
| "enc (VMap m) = ''M'' @ bytes_unsigned (of_nat (length m)) @ enc_entries m"
| "enc VMaxTypes = ''X''"
| "enc_elems [] = []"
| "enc_elems (v # vs) = enc v @ enc_elems vs"
| "enc_entries [] = []"
| "enc_entries ((k, v) # m) = enc (VString k) @ enc v @ enc_entries m"

text \<open>What comes back: \<open>MaxTypes\<close> is written as an invalid value.\<close>

fun norm :: "variant \<Rightarrow> variant"
and norm_elems :: "variant list \<Rightarrow> variant list"
and norm_entries :: "(string \<times> variant) list \<Rightarrow> (string \<times> variant) list" where
  "norm VMaxTypes = VInvalid"
| "norm (VList vs) = VList (norm_elems vs)"
| "norm (VMap m) = VMap (norm_entries m)"
| "norm v = v"
| "norm_elems [] = []"
| "norm_elems (v # vs) = norm v # norm_elems vs"
| "norm_entries [] = []"
| "norm_entries ((k, v) # m) = (k, norm v) # norm_entries m"

text \<open>Every string, list and map is shorter than \<open>2^32\<close>, so no length is truncated.\<close>

fun fits :: "variant \<Rightarrow> bool"
and fits_elems :: "variant list \<Rightarrow> bool"
and fits_entries :: "(string \<times> variant) list \<Rightarrow> bool" where
  "fits (VString s) = (int (length s) < 2 ^ 32)"
| "fits (VList vs) = (int (length vs) < 2 ^ 32 \<and> fits_elems vs)"
| "fits (VMap m) = (int (length m) < 2 ^ 32 \<and> fits_entries m)"
| "fits v = True"
| "fits_elems [] = True"
| "fits_elems (v # vs) = (fits v \<and> fits_elems vs)"
| "fits_entries [] = True"
| "fits_entries ((k, v) # m) = (int (length k) < 2 ^ 32 \<and> fits v \<and> fits_entries m)"

lemma length_norm_elems [simp]: "length (norm_elems vs) = length vs"
  by (induction vs) auto

lemma map_fst_norm_entries [simp]: "map fst (norm_entries m) = map fst m"
  by (induction m) auto

lemma length_norm_entries [simp]: "length (norm_entries m) = length m"
  by (metis length_map map_fst_norm_entries)

lemma norm_no_MaxTypes: "norm (norm v) = norm v"
  and "norm_elems (norm_elems vs) = norm_elems vs"
  and "norm_entries (norm_entries m) = norm_entries m"
  by (induction v and vs and m rule: norm_norm_elems_norm_entries.induct) simp_all

section \<open>Grammar\<close>

inductive parses :: "char list \<Rightarrow> variant \<Rightarrow> bool"
and parses_elems :: "nat \<Rightarrow> char list \<Rightarrow> variant list \<Rightarrow> bool"
and parses_entries :: "nat \<Rightarrow> char list \<Rightarrow> (string \<times> variant) list \<Rightarrow> bool" where
  p_invalid: "parses ''X'' VInvalid"
| p_null: "parses ''N'' VNull"
| p_boolean: "parses (''B'' @ bytes_bool b) (VBoolean b)"
| p_integer: "parses (''I'' @ bytes_int i) (VInteger i)"
| p_real: "parses (''R'' @ bytes_double d) (VReal d)"
| p_string: "length s = unat len \<Longrightarrow> parses (''S'' @ bytes_unsigned len @ s) (VString s)"
| p_list: "parses_elems (unat len) cs vs \<Longrightarrow> parses (''L'' @ bytes_unsigned len @ cs) (VList vs)"
| p_map: "parses_entries (unat len) cs kvs \<Longrightarrow>
    parses (''M'' @ bytes_unsigned len @ cs) (VMap (map_of_entries kvs))"
| p_no_elems: "parses_elems 0 [] []"
| p_elem: "parses cs v \<Longrightarrow> parses_elems n ds vs \<Longrightarrow> parses_elems (Suc n) (cs @ ds) (v # vs)"
| p_no_entries: "parses_entries 0 [] []"
| p_entry: "parses ks (VString k) \<Longrightarrow> parses cs v \<Longrightarrow> parses_entries n ds kvs \<Longrightarrow>
    parses_entries (Suc n) (ks @ cs @ ds) ((k, v) # kvs)"

inductive_cases parses_elems_0E: "parses_elems 0 cs vs"
inductive_cases parses_elems_SucE: "parses_elems (Suc n) cs vs"
inductive_cases parses_entries_0E: "parses_entries 0 cs kvs"
inductive_cases parses_entries_SucE: "parses_entries (Suc n) cs kvs"

text \<open>Encodings of well-formed values of representable size are in the grammar.\<close>

lemma unat_of_nat_u32: "int n < 2 ^ 32 \<Longrightarrow> unat (of_nat n :: u32) = n"
  by (simp add: unat_of_nat)

lemma enc_string_fits:
  "int (length s) < 2 ^ 32 \<Longrightarrow> enc (VString s) = ''S'' @ bytes_unsigned (of_nat (length s)) @ s"
  by (simp add: unat_of_nat_u32)

lemma parses_string: "int (length s) < 2 ^ 32 \<Longrightarrow> parses (enc (VString s)) (VString s)"
  unfolding enc_string_fits by (rule p_string) (simp add: unat_of_nat_u32)

lemma parses_enc:
  "variant_ok v \<Longrightarrow> fits v \<Longrightarrow> parses (enc v) (norm v)"
  "elems_ok vs \<Longrightarrow> fits_elems vs \<Longrightarrow> parses_elems (length vs) (enc_elems vs) (norm_elems vs)"
  "entries_ok m \<Longrightarrow> fits_entries m \<Longrightarrow> parses_entries (length m) (enc_entries m) (norm_entries m)"
proof (induction v and vs and m rule: enc_enc_elems_enc_entries.induct)
  case (6 s)
  then show ?case using parses_string[of s] by simp
next
  case (7 vs)
  then show ?case
    using p_list[of "of_nat (length vs)" "enc_elems vs" "norm_elems vs"] by (simp add: unat_of_nat_u32)
next
  case (8 m)
  have "map_of_entries (norm_entries m) = norm_entries m"
    using 8(2) by (intro map_of_entries_sorted) (simp add: map_ok_def)
  with 8 show ?case
    using p_map[of "of_nat (length m)" "enc_entries m" "norm_entries m"] by (simp add: unat_of_nat_u32)
next
  case (13 k v m)
  then show ?case using p_entry[OF parses_string, of k "enc v" "norm v"] by simp
qed (auto intro: parses_parses_elems_parses_entries.intros
  simp del: append.simps simp add: append.simps(1)[of "[]"])

lemma parses_nonempty: "parses cs v \<Longrightarrow> cs \<noteq> []"
  by (auto elim: parses.cases)

lemma parses_map_ok:
  "parses cs v \<Longrightarrow> variant_ok v"
  "parses_elems n cs vs \<Longrightarrow> elems_ok vs"
  "parses_entries n cs kvs \<Longrightarrow> entries_ok kvs"
proof (induction rule: parses_parses_elems_parses_entries.inducts)
  case (p_map len cs kvs)
  then show ?case
    using map_of_entries_ok[of kvs] set_map_of_entries[of kvs]
    by (auto simp: entries_ok_list_all list_all_iff)
qed simp_all


section \<open>Decoded values encode again\<close>

lemma length_bytes [simp]:
  "length (bytes_bool b) = 1" "length (bytes_int i) = 4" "length (bytes_double d) = 8"
  "length (bytes_unsigned n) = 4"
  by (simp_all add: bytes_bool_def bytes_int_def bytes_double_def bytes_unsigned_def)

definition weight :: "string \<times> variant \<Rightarrow> nat" where
  "weight e = length (enc (VString (fst e))) + length (enc (snd e))"

lemma length_enc_entries: "length (enc_entries m) = sum_list (map weight m)"
  by (induction m) (auto simp: weight_def simp del: enc.simps)

lemma weight_map_put: "sum_list (map weight (map_put k v m)) \<le> weight (k, v) + sum_list (map weight m)"
  by (induction m) auto

lemma weight_map_of_entries: "sum_list (map weight (map_of_entries kvs)) \<le> sum_list (map weight kvs)"
  and length_map_of_entries: "length (map_of_entries kvs) \<le> length kvs"
proof -
  have "sum_list (map weight (foldl (\<lambda>m (k, v). map_put k v m) m kvs)) \<le>
      sum_list (map weight m) + sum_list (map weight kvs)" for m
  proof (induction kvs arbitrary: m)
    case (Cons e kvs)
    obtain k v where e: "e = (k, v)" by (cases e)
    from Cons[of "map_put k v m"] weight_map_put[of k v m] show ?case by (simp add: e)
  qed simp
  from this[of "[]"] show "sum_list (map weight (map_of_entries kvs)) \<le> sum_list (map weight kvs)"
    by (simp add: map_of_entries_def)
  have "length (foldl (\<lambda>m (k, v). map_put k v m) m kvs) \<le> length m + length kvs" for m
  proof (induction kvs arbitrary: m)
    case (Cons e kvs)
    obtain k v where e: "e = (k, v)" by (cases e)
    from Cons[of "map_put k v m"] length_map_put[of k v m] show ?case by (simp add: e)
  qed simp
  from this[of "[]"] show "length (map_of_entries kvs) \<le> length kvs" by (simp add: map_of_entries_def)
qed

lemma fits_elems_iff: "fits_elems vs \<longleftrightarrow> (\<forall>v \<in> set vs. fits v)"
  and fits_entries_iff: "fits_entries m \<longleftrightarrow> (\<forall>(k, v) \<in> set m. int (length k) < 2 ^ 32 \<and> fits v)"
  and norm_entries_fixed: "norm_entries m = m \<longleftrightarrow> (\<forall>(k, v) \<in> set m. norm v = v)"
  by (induction vs, auto)(induction m, auto)+

lemma parses_canonical:
  "parses cs v \<Longrightarrow> fits v \<and> norm v = v \<and> length (enc v) \<le> length cs"
  "parses_elems n cs vs \<Longrightarrow> fits_elems vs \<and> norm_elems vs = vs \<and> length (enc_elems vs) \<le> length cs \<and> length vs = n"
  "parses_entries n cs kvs \<Longrightarrow> fits_entries kvs \<and> norm_entries kvs = kvs \<and>
     length (enc_entries kvs) \<le> length cs \<and> length kvs = n"
proof (induction rule: parses_parses_elems_parses_entries.inducts)
  case (p_string s len)
  have "unat len < 2 ^ 32" using unsigned_less[of len] by simp
  then show ?case using p_string using uint_lt2p[of len] by (simp add: unat_of_nat_u32)
next
  case (p_list len cs vs)
  show ?case using p_list uint_lt2p[of len] by simp
next
  case (p_map len cs kvs)
  have "int (unat len) < 2 ^ 32" using uint_lt2p[of len] by simp
  then have "int (length (map_of_entries kvs)) < 2 ^ 32"
    using length_map_of_entries[of kvs] p_map by linarith
  moreover have "length (enc_entries (map_of_entries kvs)) \<le> length cs"
    using weight_map_of_entries[of kvs] p_map by (simp add: length_enc_entries)
  ultimately show ?case
    using p_map set_map_of_entries[of kvs] fits_entries_iff[of kvs] norm_entries_fixed[of kvs]
      fits_entries_iff[of "map_of_entries kvs"] norm_entries_fixed[of "map_of_entries kvs"] by auto
qed auto

end
