(* ===== verification/SerializerProofs.thy ===== *)
theory SerializerProofs
  imports WireFormat
begin

text \<open>
  \<open>ByteArraySerializer\<close> implements \<open>WireFormat\<close>: pushes append encodings
  (\<open>pushValue_extend\<close>), pops accept exactly the grammar (\<open>pop_complete\<close> by
  induction on the grammar, \<open>pop_fuel_spec\<close> by induction on the fuel with the
  composition rule \<open>pop_spec_then\<close>), never read outside the array
  (\<open>pop_fuel_safe\<close>) and return. The locale \<open>variant_serializer\<close> is the contract
  of \<open>IVariantSerializer\<close>, interpreted on the byte array serializer.
\<close>

section \<open>Pushing refines the encoder\<close>

abbreviation ser_bytes :: "serializer \<Rightarrow> char list" where
  "ser_bytes s \<equiv> ba_data (m_byteArray s)"

definition extend :: "serializer \<Rightarrow> char list \<Rightarrow> serializer" where
  "extend s cs = s\<lparr>m_byteArray := (m_byteArray s)\<lparr>ba_data := ser_bytes s @ cs\<rparr>\<rparr>"

named_theorems ser_simps \<open>effect of each push and pop on the bytes and the index\<close>

lemma extend_simps [simp]:
  "extend (extend s cs) ds = extend s (cs @ ds)" "extend s [] = s"
  "ser_bytes (extend s cs) = ser_bytes s @ cs" "m_index (extend s cs) = m_index s"
  by (simp_all add: extend_def)

lemma push_raw_extend [ser_simps]:
  "int (length cs) < 2 ^ 32 \<Longrightarrow> push_raw s cs = Some (extend s cs)"
  by (simp add: push_raw_def pushRawValue_def ba_append_buffer_prefix extend_def unat_of_nat_size)

lemma pushTypeSignature_extend [ser_simps]:
  "pushTypeSignature s t = extend s [cTypeSignature ! type_index t]"
  by (simp add: pushTypeSignature_def ba_append_char_def extend_def)

lemma pushString_extend [ser_simps]: "pushString s str = Some (extend s (enc (VString str)))"
proof -
  let ?len = "of_nat (length str) :: u32"
  let ?s1 = "extend s (''S'' @ bytes_unsigned ?len)"
  have 1: "push_raw (pushTypeSignature s Type_String) (bytes_unsigned ?len) = Some ?s1"
    by (simp add: ser_simps cTypeSignature_def)
  have le: "unat ?len \<le> length str" by (simp add: unat_of_nat)
  have "unat (ucast ?len :: size_t) = unat ?len"
    by (rule unat_ucast64)
  then have 2: "ba_append_buffer (m_byteArray ?s1) (str @ [CHR 0x00]) (ucast ?len) =
      Some ((m_byteArray ?s1)\<lparr>ba_data := ser_bytes ?s1 @ take (unat ?len) str\<rparr>)"
    using le by (simp add: ba_append_buffer_prefix)
  show ?thesis
    using 1 2 by (simp add: pushString_def Let_def extend_def)
qed

lemma pushValue_extend:
  "pushValue s v = Some (extend s (enc v))"
  "push_elems s vs = Some (extend s (enc_elems vs))"
  "push_entries s m = Some (extend s (enc_entries m))"
proof (induction s v and s vs and s m rule: pushValue_push_elems_push_entries.induct)
  case (13 s k v m)
  then show ?case by (simp add: pushString_extend)
qed (simp_all add: ser_simps pushNull_def pushBoolean_def pushInteger_def pushReal_def
  pushInvalid_def cTypeSignature_def)

section \<open>The unread bytes\<close>

definition unread :: "serializer \<Rightarrow> char list" where
  "unread s = drop (unat (m_index s)) (ser_bytes s)"

definition index_ok :: "serializer \<Rightarrow> bool" where
  "index_ok s \<longleftrightarrow> unat (m_index s) \<le> length (ser_bytes s) \<and> length (ser_bytes s) < 2 ^ 63"

definition small :: "serializer \<Rightarrow> bool" where
  "small s \<longleftrightarrow> length (ser_bytes s) < 2 ^ 32"

definition adv :: "nat \<Rightarrow> serializer \<Rightarrow> serializer" where
  "adv n s = s\<lparr>m_index := m_index s + of_nat n\<rparr>"

lemma adv_bytes [simp]: "m_byteArray (adv n s) = m_byteArray s"
  by (simp add: adv_def)

lemma available_unread:
  assumes "index_ok s"
  shows "unat (ser_available s) = length (unread s)"
proof -
  have sz: "unat (ba_size (m_byteArray s)) = length (ser_bytes s)"
    using assms by (simp add: index_ok_def ba_size_unat)
  then have "ucast (m_index s) \<le> ba_size (m_byteArray s)"
    using assms by (simp add: index_ok_def word_le_nat_alt unat_ucast64)
  then show ?thesis
    unfolding ser_available_def by (simp only: unat_sub unat_ucast64 sz) (simp add: unread_def)
qed

lemma available_less:
  assumes "index_ok s" and "n < 2 ^ 64"
  shows "ser_available s < of_nat n \<longleftrightarrow> length (unread s) < n"
  using assms by (simp add: word_less_nat_alt available_unread unat_of_nat_size)

lemma read_block_unread:
  "read_block (m_byteArray s) (m_index s) n = (if n \<le> length (unread s) then Some (take n (unread s)) else None)"
  by (auto simp: read_block_def unread_def ba_constData_def Let_def min_def)

lemma adv_index_ok:
  assumes "index_ok s" and "n \<le> length (unread s)"
  shows "index_ok (adv n s)"
proof -
  have "unat (m_index s + of_nat n) \<le> unat (m_index s) + n"
    by (metis mod_less_eq_dividend unat_of_nat unat_word_ariths(1) mod_add_right_eq)
  with assms show ?thesis by (auto simp: index_ok_def adv_def unread_def)
qed

lemma adv_unread:
  assumes "index_ok s" and "small s" and "n \<le> length (unread s)"
  shows "unread (adv n s) = drop n (unread s)"
proof -
  have "unat (m_index s) + n < 2 ^ 32"
    using assms by (auto simp: index_ok_def small_def unread_def)
  then have "unat (m_index s + of_nat n) = unat (m_index s) + n"
    by (simp add: unat_word_ariths(1) unat_of_nat)
  then show ?thesis by (simp add: unread_def adv_def add.commute)
qed

lemma adv_small [simp]: "small (adv n s) = small s"
  by (simp add: small_def)

lemma adv_adv: "adv m (adv n s) = adv (n + m) s"
  by (simp add: adv_def add.assoc)

lemma pop_raw_eq [ser_simps]:
  assumes "index_ok s" and "sz < 2 ^ 32"
  shows "pop_raw sz read s =
     (if length (unread s) < sz then (Fails, s)
      else case read (take sz (unread s)) of None \<Rightarrow> (BadBool, s) | Some v \<Rightarrow> (Ok v, adv sz s))"
  using available_less[OF assms(1), of sz] assms(2)
  by (auto simp: pop_raw_def popRawValue_def read_block_unread adv_def
      simp flip: ser_available_def split: option.splits)

lemma popTypeSignature_eq [ser_simps]:
  assumes "index_ok s"
  shows "popTypeSignature s = (case unread s of [] \<Rightarrow> (Fails, s)
     | c # cs \<Rightarrow> (case map_find cSignatureToTypeMap c of None \<Rightarrow> (Fails, s) | Some t \<Rightarrow> (Ok t, adv 1 s)))"
  using available_less[OF assms, of 1]
  by (auto simp: popTypeSignature_def read_block_unread adv_def split: list.splits option.splits)

lemma available_zero: "index_ok s \<Longrightarrow> ser_available s = 0 \<longleftrightarrow> unread s = []"
  using available_unread[of s] by (simp flip: unat_eq_0)

lemma and_then_simps [simp]:
  "and_then (Ok v, s) f = f v s" "and_then (Fails, s) f = (Fails, s)"
  "and_then (OutOfBounds, s) f = (OutOfBounds, s)" "and_then (BadBool, s) f = (BadBool, s)"
  "and_then (NoFuel, s) f = (NoFuel, s)"
  by (simp_all add: and_then_def)

definition take_string :: "u32 \<Rightarrow> serializer \<Rightarrow> string outcome \<times> serializer" where
  "take_string len s = (if length (unread s) < unat len then (Fails, s)
     else (Ok (take (unat len) (unread s)), adv (unat len) s))"

lemma popString_eq [ser_simps]:
  assumes "index_ok s"
  shows "popString s = (if length (unread s) < 4 then (Fails, s)
     else take_string (word_of_int (le_val (take 4 (unread s)))) (adv 4 s))"
proof (cases "length (unread s) < 4")
  case True
  then show ?thesis using assms by (simp add: popString_def ser_simps)
next
  case False
  then have "index_ok (adv 4 s)" using assms by (intro adv_index_ok) auto
  then have "ser_available (adv 4 s) < ucast len \<longleftrightarrow> length (unread (adv 4 s)) < unat len" for len :: u32
    by (simp add: word_less_nat_alt available_unread unat_ucast64)
  then have "(if ser_available (adv 4 s) < ucast len then (Fails, adv 4 s)
     else case read_block (m_byteArray (adv 4 s)) (m_index (adv 4 s)) (unat len) of
       None \<Rightarrow> (OutOfBounds, adv 4 s)
     | Some str \<Rightarrow> (Ok str, (adv 4 s)\<lparr>m_index := m_index (adv 4 s) + len\<rparr>)) = take_string len (adv 4 s)" for len
    using read_block_unread[of "adv 4 s" "unat len"]
    by (simp add: take_string_def adv_def[of "unat len" "adv 4 s"])
  with False assms show ?thesis
    by (simp add: popString_def pop_raw_eq read_unsigned_def split del: if_split)
qed

section \<open>Popping accepts the grammar\<close>

lemma read_bytes [simp]:
  "read_bool (bytes_bool b) = Some b" "read_int (bytes_int i) = Some i"
  "read_double (bytes_double d) = Some d" "read_unsigned (bytes_unsigned n) = Some n"
  by (simp_all add: read_bool_def bytes_bool_def read_int_def bytes_int_def read_double_def
      bytes_double_def read_unsigned_def bytes_unsigned_def codec_simps)

lemma signature_table [simp]:
  "map_find cSignatureToTypeMap (CHR ''X'') = Some Type_Invalid"
  "map_find cSignatureToTypeMap (CHR ''N'') = Some Type_Null"
  "map_find cSignatureToTypeMap (CHR ''B'') = Some Type_Boolean"
  "map_find cSignatureToTypeMap (CHR ''I'') = Some Type_Integer"
  "map_find cSignatureToTypeMap (CHR ''R'') = Some Type_Real"
  "map_find cSignatureToTypeMap (CHR ''S'') = Some Type_String"
  "map_find cSignatureToTypeMap (CHR ''L'') = Some Type_List"
  "map_find cSignatureToTypeMap (CHR ''M'') = Some Type_Map"
  by code_simp+

lemma cSignatureToTypeMap_table:
  "cSignatureToTypeMap = [(CHR ''B'', Type_Boolean), (CHR ''I'', Type_Integer), (CHR ''L'', Type_List),
     (CHR ''M'', Type_Map), (CHR ''N'', Type_Null), (CHR ''R'', Type_Real), (CHR ''S'', Type_String),
     (CHR ''X'', Type_Invalid)]"
  by code_simp

definition ready :: "serializer \<Rightarrow> char list \<Rightarrow> char list \<Rightarrow> bool" where
  "ready s cs rest \<longleftrightarrow> index_ok s \<and> small s \<and> unread s = cs @ rest"

lemma ready_adv:
  assumes "ready s (cs @ ds) rest"
  shows "ready (adv (length cs) s) ds rest"
  using assms by (auto simp: ready_def adv_index_ok adv_unread)

lemma ready_append: "ready s (cs @ ds) rest \<longleftrightarrow> ready s cs (ds @ rest)"
  by (simp add: ready_def)

lemma pop_raw_ready:
  assumes "ready s cs rest" and "length cs = sz" and "sz < 2 ^ 32" and "read cs = Some v"
  shows "pop_raw sz read s = (Ok v, adv sz s)"
  using assms by (auto simp: ready_def pop_raw_eq)

lemma popTypeSignature_ready:
  assumes "ready s (c # cs) rest" and "map_find cSignatureToTypeMap c = Some t"
  shows "popTypeSignature s = (Ok t, adv 1 s)" and "ready (adv 1 s) cs rest"
    and "\<not> ser_available s \<le> 0"
  using assms ready_adv[of s "[c]" cs rest]
  by (auto simp: ready_def popTypeSignature_eq available_zero)

lemma popString_ready:
  assumes "ready s (bytes_unsigned len @ str) rest" and "length str = unat len"
  shows "popString s = (Ok str, adv (4 + length str) s)"
proof -
  have "index_ok s" and u: "unread s = bytes_unsigned len @ str @ rest"
    using assms(1) by (simp_all add: ready_def)
  then have "popString s = take_string (word_of_int (le_val (bytes_unsigned len))) (adv 4 s)"
    by (simp add: popString_eq)
  also have "word_of_int (le_val (bytes_unsigned len)) = len"
    by (simp add: bytes_unsigned_def codec_simps)
  also have "take_string len (adv 4 s) = (Ok str, adv (4 + length str) s)"
    using ready_adv[OF assms(1)] assms(2) by (simp add: ready_def take_string_def adv_adv)
  finally show ?thesis .
qed

lemma loop_index:
  fixes i len :: u32
  assumes "unat len = unat i + Suc n"
  shows "i < len" and "unat len = unat (i + 1) + n"
proof -
  show "i < len" using assms by (simp add: word_less_nat_alt)
  have "unat len < 2 ^ 32" using unsigned_less[of len] by simp
  with assms have "Suc (unat i) < 2 ^ 32" by simp
  then have "unat (i + 1) = Suc (unat i)" by (simp add: unat_word_ariths(1))
  then show "unat len = unat (i + 1) + n" using assms by simp
qed

lemma fuel_SucE:
  assumes "n \<le> (f::nat)" and "0 < n"
  obtains f' where "f = Suc f'" and "n \<le> Suc f'"
  using assms by (cases f) auto

lemma pop_complete:
  "parses cs v \<Longrightarrow> ready s cs rest \<Longrightarrow> 2 * length cs + 1 \<le> f \<Longrightarrow>
     popValue_fuel f s = (Ok v, adv (length cs) s)"
  "parses_elems n cs vs \<Longrightarrow> ready s cs rest \<Longrightarrow> 2 * length cs + 2 \<le> f \<Longrightarrow> unat len = unat i + n \<Longrightarrow>
     pop_elems f i len acc s = (Ok (acc @ vs), adv (length cs) s)"
  "parses_entries n cs kvs \<Longrightarrow> ready s cs rest \<Longrightarrow> 2 * length cs + 2 \<le> f \<Longrightarrow> unat len = unat i + n \<Longrightarrow>
     pop_entries f i len m s = (Ok (foldl (\<lambda>m (k, v). map_put k v m) m kvs), adv (length cs) s)"
proof (induction arbitrary: s rest f and s rest f len i acc and s rest f len i m
    rule: parses_parses_elems_parses_entries.inducts)
  case p_invalid
  then show ?case using popTypeSignature_ready[of s "CHR ''X''" "[]" rest] by (cases f) auto
next
  case p_null
  then show ?case using popTypeSignature_ready[of s "CHR ''N''" "[]" rest] by (cases f) auto
next
  case (p_boolean b)
  then show ?case using popTypeSignature_ready[of s "CHR ''B''" "bytes_bool b" rest]
    by (cases f) (auto simp: popBoolean_def pop_raw_ready adv_adv)
next
  case (p_integer i)
  then show ?case using popTypeSignature_ready[of s "CHR ''I''" "bytes_int i" rest]
    by (cases f) (auto simp: popInteger_def pop_raw_ready adv_adv)
next
  case (p_real d)
  then show ?case using popTypeSignature_ready[of s "CHR ''R''" "bytes_double d" rest]
    by (cases f) (auto simp: popReal_def pop_raw_ready adv_adv)
next
  case (p_string str len)
  then show ?case using popTypeSignature_ready[of s "CHR ''S''" "bytes_unsigned len @ str" rest]
    by (cases f) (auto simp: popString_ready adv_adv)
next
  case (p_list len cs vs)
  then obtain f' where f: "f = Suc f'" "2 * length cs + 2 \<le> f'" by (cases f) auto
  let ?s1 = "adv 1 s" and ?s5 = "adv 5 s"
  from p_list.prems have sig: "popTypeSignature s = (Ok Type_List, ?s1)"
    "ready ?s1 (bytes_unsigned len @ cs) rest" "\<not> ser_available s \<le> 0"
    using popTypeSignature_ready[of s "CHR ''L''" "bytes_unsigned len @ cs" rest] by auto
  then have raw: "pop_raw 4 read_unsigned ?s1 = (Ok len, ?s5)"
    using pop_raw_ready[of ?s1 "bytes_unsigned len" "cs @ rest" 4 read_unsigned len] by (simp add: ready_append adv_adv)
  have "ready ?s5 cs rest" using ready_adv[OF sig(2)] by (simp add: adv_adv)
  then have "pop_elems f' 0 len [] ?s5 = (Ok vs, adv (length cs) ?s5)"
    using p_list.IH[of ?s5 rest f' len 0 "[]"] f by simp
  with sig raw f show ?case by (simp add: adv_adv)
next
  case (p_map len cs kvs)
  then obtain f' where f: "f = Suc f'" "2 * length cs + 2 \<le> f'" by (cases f) auto
  let ?s1 = "adv 1 s" and ?s5 = "adv 5 s"
  from p_map.prems have sig: "popTypeSignature s = (Ok Type_Map, ?s1)"
    "ready ?s1 (bytes_unsigned len @ cs) rest" "\<not> ser_available s \<le> 0"
    using popTypeSignature_ready[of s "CHR ''M''" "bytes_unsigned len @ cs" rest] by auto
  then have raw: "pop_raw 4 read_unsigned ?s1 = (Ok len, ?s5)"
    using pop_raw_ready[of ?s1 "bytes_unsigned len" "cs @ rest" 4 read_unsigned len] by (simp add: ready_append adv_adv)
  have "ready ?s5 cs rest" using ready_adv[OF sig(2)] by (simp add: adv_adv)
  then have "pop_entries f' 0 len [] ?s5 = (Ok (map_of_entries kvs), adv (length cs) ?s5)"
    using p_map.IH[of ?s5 rest f' len 0 "[]"] f by (simp add: map_of_entries_def)
  with sig raw f show ?case by (simp add: adv_adv)
next
  case p_no_elems
  then show ?case by (cases f) (auto simp: adv_def word_less_nat_alt)
next
  case (p_elem cs v n ds vs)
  then obtain f' where f: "f = Suc f'" by (cases f) auto
  have "length cs > 0" using parses_nonempty[OF p_elem.hyps(1)] by simp
  moreover have "2 * length cs + 2 * length ds + 1 \<le> f'" using p_elem.prems(2) f by simp
  ultimately have "2 * length ds + 2 \<le> f'" by linarith
  then show ?case
    using p_elem.IH(1)[of s "ds @ rest" f'] p_elem.IH(2)[of "adv (length cs) s" rest f' len "i + 1" "acc @ [v]"]
      p_elem.prems ready_adv[of s cs ds rest] loop_index[of len i n] f
    by (simp add: ready_append adv_adv)
next
  case p_no_entries
  then show ?case by (cases f) (auto simp: adv_def word_less_nat_alt)
next
  case (p_entry ks k cs v n ds kvs)
  then obtain f' where f: "f = Suc f'" by (cases f) auto
  let ?s1 = "adv (length ks) s" and ?s2 = "adv (length ks + length cs) s"
  have pos: "length ks > 0" using parses_nonempty[OF p_entry.hyps(1)] by simp
  have r1: "ready ?s1 (cs @ ds) rest" using ready_adv[of s ks "cs @ ds" rest] p_entry.prems by simp
  then have r2: "ready ?s2 ds rest" using ready_adv[of ?s1 cs ds rest] by (simp add: adv_adv)
  have "popValue_fuel f' s = (Ok (VString k), ?s1)"
    using p_entry.IH(1)[of s "(cs @ ds) @ rest" f'] p_entry.prems f by (simp add: ready_append)
  moreover have "popValue_fuel f' ?s1 = (Ok v, ?s2)"
    using p_entry.IH(2)[of ?s1 "ds @ rest" f'] p_entry.prems f r1 by (simp add: ready_append adv_adv)
  moreover have "2 * length ds + 2 \<le> f'"
  proof -
    have "2 * length ks + 2 * length cs + 2 * length ds + 1 \<le> f'" using p_entry.prems(2) f by simp
    with pos show ?thesis by linarith
  qed
  ultimately show ?case
    using p_entry.IH(3)[OF r2, of f' len "i + 1" "map_put k v m"] p_entry.prems
      loop_index[of len i n] f pos by (simp add: adv_adv add.assoc)
qed

section \<open>Memory safety, at every array size\<close>

definition pop_safe :: "serializer \<Rightarrow> 'a outcome \<times> serializer \<Rightarrow> bool" where
  "pop_safe s r \<longleftrightarrow> fst r \<noteq> OutOfBounds \<and> index_ok (snd r) \<and> m_byteArray (snd r) = m_byteArray s"

lemma pop_safe_done [simp]: "pop_safe s (r, s') \<longleftrightarrow>
    r \<noteq> OutOfBounds \<and> index_ok s' \<and> m_byteArray s' = m_byteArray s"
  by (simp add: pop_safe_def)

lemma pop_safe_then:
  assumes "pop_safe s r"
    and "\<And>v s'. index_ok s' \<Longrightarrow> m_byteArray s' = m_byteArray s \<Longrightarrow> pop_safe s' (f v s')"
  shows "pop_safe s (and_then r f)"
proof (cases r)
  case (Pair x s')
  with assms show ?thesis by (cases x) (auto simp: pop_safe_def)
qed

lemma pop_raw_safe: "index_ok s \<Longrightarrow> sz < 2 ^ 32 \<Longrightarrow> pop_safe s (pop_raw sz read s)"
  by (auto simp: pop_raw_eq adv_index_ok split: option.split)

lemma popTypeSignature_safe: "index_ok s \<Longrightarrow> pop_safe s (popTypeSignature s)"
  by (auto simp: popTypeSignature_eq adv_index_ok split: option.split list.split)

lemma popString_safe: "index_ok s \<Longrightarrow> pop_safe s (popString s)"
  by (auto simp: popString_eq take_string_def adv_index_ok)

lemmas pop_safe_intros = pop_raw_safe popTypeSignature_safe popString_safe
  pop_raw_safe[of _ 1 read_bool, folded popBoolean_def]
  pop_raw_safe[of _ 4 read_int, folded popInteger_def]
  pop_raw_safe[of _ 8 read_double, folded popReal_def]

lemma pop_fuel_safe:
  "index_ok s \<Longrightarrow> pop_safe s (popValue_fuel f s)"
  "index_ok s \<Longrightarrow> pop_safe s (pop_elems f i len acc s)"
  "index_ok s \<Longrightarrow> pop_safe s (pop_entries f i len m s)"
proof (induction f s and f i len acc s and f i len m s
    rule: popValue_fuel_pop_elems_pop_entries.induct)
  case (2 f s)
  have "pop_safe s1 (case t of
          Type_Invalid \<Rightarrow> (Ok VInvalid, s1)
        | Type_Null \<Rightarrow> (Ok VNull, s1)
        | Type_Boolean \<Rightarrow> and_then (popBoolean s1) (\<lambda>v s. (Ok (VBoolean v), s))
        | Type_Integer \<Rightarrow> and_then (popInteger s1) (\<lambda>v s. (Ok (VInteger v), s))
        | Type_Real \<Rightarrow> and_then (popReal s1) (\<lambda>v s. (Ok (VReal v), s))
        | Type_String \<Rightarrow> and_then (popString s1) (\<lambda>v s. (Ok (VString v), s))
        | Type_List \<Rightarrow> and_then (pop_raw 4 read_unsigned s1) (\<lambda>len s.
            and_then (pop_elems f 0 len [] s) (\<lambda>v s. (Ok (VList v), s)))
        | Type_Map \<Rightarrow> and_then (pop_raw 4 read_unsigned s1) (\<lambda>len s.
            and_then (pop_entries f 0 len [] s) (\<lambda>v s. (Ok (VMap v), s)))
        | MaxTypes \<Rightarrow> (Fails, s1))" if "index_ok s1" "ser_available s > 0" for t s1
    using that 2(1,2)
    by (cases t) (auto intro!: pop_safe_then pop_safe_intros)
  with 2 show ?case by (auto intro!: pop_safe_then pop_safe_intros simp: word_gt_0)
next
  case (4 f i len acc s)
  then show ?case by (auto intro!: pop_safe_then)
next
  case (6 f i len m s)
  then show ?case by (auto intro!: pop_safe_then split: option.split)
qed auto

section \<open>What a pop accepts is in the grammar, and the fuel suffices\<close>

definition pop_spec :: "bool \<Rightarrow> serializer \<Rightarrow> (char list \<Rightarrow> 'a \<Rightarrow> bool) \<Rightarrow> 'a outcome \<times> serializer \<Rightarrow> bool" where
  "pop_spec enough s P r \<longleftrightarrow> (\<exists>cs. ready s cs (unread (snd r)) \<and> snd r = adv (length cs) s \<and>
     (\<forall>v. fst r = Ok v \<longrightarrow> P cs v) \<and> (enough \<longrightarrow> fst r \<noteq> NoFuel))"

lemma adv_0 [simp]: "adv 0 s = s"
  by (simp add: adv_def)

lemma pop_spec_stay:
  "index_ok s \<Longrightarrow> small s \<Longrightarrow> (\<And>v. r = Ok v \<Longrightarrow> P [] v) \<Longrightarrow> (enough \<Longrightarrow> r \<noteq> NoFuel) \<Longrightarrow> pop_spec enough s P (r, s)"
  unfolding pop_spec_def by (rule exI[of _ "[]"]) (simp add: ready_def)

lemma pop_spec_read:
  assumes "index_ok s" "small s" "n \<le> length (unread s)" "P (take n (unread s)) v"
  shows "pop_spec enough s P (Ok v, adv n s)"
  unfolding pop_spec_def using assms
  by (intro exI[of _ "take n (unread s)"]) (auto simp: ready_def adv_unread min_def)

lemma pop_spec_then:
  assumes "pop_spec enough s P r"
    and "\<And>cs v s'. P cs v \<Longrightarrow> index_ok s' \<Longrightarrow> small s' \<Longrightarrow> length (unread s) = length cs + length (unread s') \<Longrightarrow>
      pop_spec enough s' (\<lambda>ds. Q (cs @ ds)) (f v s')"
  shows "pop_spec enough s Q (and_then r f)"
proof -
  obtain x s' where r: "r = (x, s')" by (cases r)
  from assms(1) r obtain cs where cs: "ready s cs (unread s')" "s' = adv (length cs) s"
    "\<And>v. x = Ok v \<Longrightarrow> P cs v" "enough \<Longrightarrow> x \<noteq> NoFuel" by (auto simp: pop_spec_def)
  show ?thesis
  proof (cases x)
    case (Ok v)
    have s': "index_ok s'" "small s'" using ready_adv[of s cs "[]"] cs(1,2) by (simp_all add: ready_def)
    have "pop_spec enough s' (\<lambda>ds. Q (cs @ ds)) (f v s')"
      using assms(2)[OF cs(3)[OF Ok] s'] cs(1) by (simp add: ready_def)
    then obtain ds where ds: "ready s' ds (unread (snd (f v s')))" "snd (f v s') = adv (length ds) s'"
      "\<And>w. fst (f v s') = Ok w \<Longrightarrow> Q (cs @ ds) w" "enough \<Longrightarrow> fst (f v s') \<noteq> NoFuel"
      by (auto simp: pop_spec_def)
    then show ?thesis using cs r Ok
      by (auto simp: pop_spec_def ready_def adv_adv intro!: exI[of _ "cs @ ds"])
  qed (use cs r in \<open>auto simp: pop_spec_def\<close>)
qed

lemma pop_spec_mono:
  assumes "pop_spec e s P r" and "\<And>cs v. P cs v \<Longrightarrow> Q cs v" and "enough \<Longrightarrow> e"
  shows "pop_spec enough s Q r"
  using assms by (auto simp: pop_spec_def)

lemma pop_raw_spec:
  assumes "index_ok s" "small s" "sz < 2 ^ 32"
    and "\<And>cs v. length cs = sz \<Longrightarrow> read cs = Some v \<Longrightarrow> P cs v"
  shows "pop_spec enough s P (pop_raw sz read s)"
  using assms by (auto simp: pop_raw_eq intro!: pop_spec_stay pop_spec_read split: option.split)

lemma written_back:
  "length cs = Suc 0 \<Longrightarrow> read_bool cs = Some b \<Longrightarrow> cs = bytes_bool b"
  "length cs = 4 \<Longrightarrow> read_int cs = Some i \<Longrightarrow> cs = bytes_int i"
  "length cs = 8 \<Longrightarrow> read_double cs = Some d \<Longrightarrow> cs = bytes_double d"
  "length cs = 4 \<Longrightarrow> read_unsigned cs = Some n \<Longrightarrow> cs = bytes_unsigned n"
  by (auto simp: read_bool_def bytes_bool_def read_int_def bytes_int_def read_double_def
      bytes_double_def read_unsigned_def bytes_unsigned_def le_bytes_of_word split: if_splits)

lemma popTypeSignature_spec:
  assumes "index_ok s" "small s"
  shows "pop_spec enough s (\<lambda>cs t. cs = [cTypeSignature ! type_index t] \<and> t \<noteq> MaxTypes) (popTypeSignature s)"
proof -
  have "c = cTypeSignature ! type_index t \<and> t \<noteq> MaxTypes" if "map_find cSignatureToTypeMap c = Some t" for c t
  proof -
    from that show ?thesis unfolding cSignatureToTypeMap_table by (auto simp: cTypeSignature_def split: if_splits)
  qed
  with assms show ?thesis
    by (auto simp: popTypeSignature_eq intro!: pop_spec_stay pop_spec_read[where n = "Suc 0"]
        split: option.split list.split)
qed

lemma popString_spec:
  assumes "index_ok s" "small s"
  shows "pop_spec enough s (\<lambda>cs str. \<exists>len. cs = bytes_unsigned len @ str \<and> length str = unat len) (popString s)"
proof (cases "length (unread s) < 4")
  case False
  let ?len = "word_of_int (le_val (take 4 (unread s))) :: u32"
  have s4: "index_ok (adv 4 s)" "unread (adv 4 s) = drop 4 (unread s)"
    using assms False by (simp_all add: adv_index_ok adv_unread)
  have len: "take 4 (unread s) = bytes_unsigned ?len"
    using False by (intro written_back(4)) (auto simp: read_unsigned_def)
  have "pop_spec enough s (\<lambda>cs n. cs = bytes_unsigned n) (Ok ?len, adv 4 s)"
    using assms False len by (intro pop_spec_read) auto
  then have "pop_spec enough s (\<lambda>cs str. \<exists>len. cs = bytes_unsigned len @ str \<and> length str = unat len)
      (and_then (Ok ?len, adv 4 s) (\<lambda>len s. take_string len s))"
    by (rule pop_spec_then)
      (auto simp: take_string_def intro!: pop_spec_stay pop_spec_read)
  with False assms show ?thesis by (simp add: popString_eq)
qed (use assms in \<open>auto simp: popString_eq intro!: pop_spec_stay\<close>)

lemma pop_spec_map:
  assumes "pop_spec enough s P r" and "\<And>cs v. P cs v \<Longrightarrow> Q cs (C v)"
  shows "pop_spec enough s Q (and_then r (\<lambda>v s. (Ok (C v), s)))"
  by (rule pop_spec_then[OF assms(1)]) (auto intro!: pop_spec_stay assms(2))

text \<open>The body of \<open>popValue\<close> after the type signature.\<close>

lemma pop_payload_spec:
  assumes s: "index_ok s" "small s" and t: "t \<noteq> MaxTypes"
    and elems: "\<And>len s'. index_ok s' \<Longrightarrow> small s' \<Longrightarrow> length (unread s') < length (unread s) \<Longrightarrow>
      pop_spec enough s' (\<lambda>cs vs. parses_elems (unat len) cs vs) (E len s')"
    and entries: "\<And>len s'. index_ok s' \<Longrightarrow> small s' \<Longrightarrow> length (unread s') < length (unread s) \<Longrightarrow>
      pop_spec enough s' (\<lambda>cs m. \<exists>kvs. m = map_of_entries kvs \<and> parses_entries (unat len) cs kvs) (M len s')"
  shows "pop_spec enough s (\<lambda>cs. parses ([cTypeSignature ! type_index t] @ cs)) (case t of
          Type_Invalid \<Rightarrow> (Ok VInvalid, s)
        | Type_Null \<Rightarrow> (Ok VNull, s)
        | Type_Boolean \<Rightarrow> and_then (popBoolean s) (\<lambda>v s. (Ok (VBoolean v), s))
        | Type_Integer \<Rightarrow> and_then (popInteger s) (\<lambda>v s. (Ok (VInteger v), s))
        | Type_Real \<Rightarrow> and_then (popReal s) (\<lambda>v s. (Ok (VReal v), s))
        | Type_String \<Rightarrow> and_then (popString s) (\<lambda>v s. (Ok (VString v), s))
        | Type_List \<Rightarrow> and_then (pop_raw 4 read_unsigned s) (\<lambda>len s.
            and_then (E len s) (\<lambda>v s. (Ok (VList v), s)))
        | Type_Map \<Rightarrow> and_then (pop_raw 4 read_unsigned s) (\<lambda>len s.
            and_then (M len s) (\<lambda>v s. (Ok (VMap v), s)))
        | MaxTypes \<Rightarrow> (Fails, s))"
proof -
  have len: "pop_spec enough s (\<lambda>cs n. cs = bytes_unsigned n) (pop_raw 4 read_unsigned s)"
    using s by (auto intro: pop_raw_spec written_back)
  note intros = parses_parses_elems_parses_entries.intros[simplified append_Cons append_Nil]
  show ?thesis
  proof (cases t)
    case Type_Boolean
    have "pop_spec enough s (\<lambda>cs v. cs = bytes_bool v) (popBoolean s)"
      unfolding popBoolean_def One_nat_def using s by (auto intro!: pop_raw_spec written_back)
    then show ?thesis using Type_Boolean
      by (auto simp: cTypeSignature_def intro!: intros elim: pop_spec_map)
  next
    case Type_Integer
    have "pop_spec enough s (\<lambda>cs v. cs = bytes_int v) (popInteger s)"
      unfolding popInteger_def using s by (auto intro: pop_raw_spec written_back)
    then show ?thesis using Type_Integer
      by (auto simp: cTypeSignature_def intro!: intros elim: pop_spec_map)
  next
    case Type_Real
    have "pop_spec enough s (\<lambda>cs v. cs = bytes_double v) (popReal s)"
      unfolding popReal_def using s by (auto intro: pop_raw_spec written_back)
    then show ?thesis using Type_Real
      by (auto simp: cTypeSignature_def intro!: intros elim: pop_spec_map)
  next
    case Type_String
    then show ?thesis using popString_spec[OF s, of enough]
      by (auto simp: cTypeSignature_def intro!: intros elim: pop_spec_map)
  next
    case Type_List
    have "pop_spec enough s (\<lambda>cs. parses (''L'' @ cs)) (and_then (pop_raw 4 read_unsigned s) (\<lambda>len s.
            and_then (E len s) (\<lambda>v s. (Ok (VList v), s))))"
      by (rule pop_spec_then[OF len], rule pop_spec_map[OF elems]) (auto intro!: intros)
    then show ?thesis using Type_List by (simp add: cTypeSignature_def)
  next
    case Type_Map
    have "pop_spec enough s (\<lambda>cs. parses (''M'' @ cs)) (and_then (pop_raw 4 read_unsigned s) (\<lambda>len s.
            and_then (M len s) (\<lambda>v s. (Ok (VMap v), s))))"
      by (rule pop_spec_then[OF len], rule pop_spec_map[OF entries]) (auto intro!: intros)
    then show ?thesis using Type_Map by (simp add: cTypeSignature_def)
  qed (use s t in \<open>auto simp: cTypeSignature_def intro!: pop_spec_stay intros\<close>)
qed

definition elems_spec :: "u32 \<Rightarrow> u32 \<Rightarrow> variant list \<Rightarrow> char list \<Rightarrow> variant list \<Rightarrow> bool" where
  "elems_spec i len acc cs ws \<longleftrightarrow> (\<exists>vs. ws = acc @ vs \<and> parses_elems (unat len - unat i) cs vs)"

definition entries_spec :: "u32 \<Rightarrow> u32 \<Rightarrow> (string, variant) stdmap \<Rightarrow> char list \<Rightarrow> (string, variant) stdmap \<Rightarrow> bool" where
  "entries_spec i len m cs m' \<longleftrightarrow>
     (\<exists>kvs. m' = foldl (\<lambda>m (k, v). map_put k v m) m kvs \<and> parses_entries (unat len - unat i) cs kvs)"

lemma loop_step:
  fixes i len :: u32
  assumes "i < len"
  shows "unat len - unat i = Suc (unat len - unat (i + 1))" and "i + 1 \<le> len"
proof -
  have "unat i < unat len" using assms by (simp add: word_less_nat_alt)
  then obtain n where n: "unat len = unat i + Suc n" by (metis add_Suc_right less_imp_Suc_add)
  show "unat len - unat i = Suc (unat len - unat (i + 1))" "i + 1 \<le> len"
    using loop_index[OF n] n by (simp_all add: word_le_nat_alt)
qed

lemma elems_spec_step:
  assumes "i < len" and "parses cs v" and "elems_spec (i + 1) len (acc @ [v]) ds ws"
  shows "elems_spec i len acc (cs @ ds) ws"
proof -
  obtain vs where "ws = acc @ v # vs" "parses_elems (unat len - unat (i + 1)) ds vs"
    using assms(3) by (auto simp: elems_spec_def)
  with p_elem[OF assms(2)] show ?thesis
    unfolding elems_spec_def loop_step(1)[OF assms(1)] by blast
qed

lemma entries_spec_step:
  assumes "i < len" and "parses ks (VString k)" and "parses cs v" and "entries_spec (i + 1) len (map_put k v m) ds m'"
  shows "entries_spec i len m (ks @ cs @ ds) m'"
proof -
  obtain kvs where "m' = foldl (\<lambda>m (k, v). map_put k v m) m ((k, v) # kvs)"
      "parses_entries (unat len - unat (i + 1)) ds kvs"
    using assms(4) by (auto simp: entries_spec_def)
  with p_entry[OF assms(2,3)] show ?thesis
    unfolding entries_spec_def loop_step(1)[OF assms(1)] by blast
qed

lemma spec_done:
  "\<not> i < len \<Longrightarrow> elems_spec i len acc [] acc" "\<not> i < len \<Longrightarrow> entries_spec i len m [] m"
proof -
  assume "\<not> i < len"
  then have 0: "unat len - unat i = 0" by (simp add: word_less_nat_alt)
  show "elems_spec i len acc [] acc" "entries_spec i len m [] m"
    unfolding elems_spec_def entries_spec_def 0
    by (auto intro: p_no_elems p_no_entries exI[of _ "[]"])
qed

lemma pop_fuel_spec:
  "(\<forall>s. index_ok s \<longrightarrow> small s \<longrightarrow>
     pop_spec (2 * length (unread s) + 1 \<le> f) s parses (popValue_fuel f s)) \<and>
   (\<forall>s i len acc. index_ok s \<longrightarrow> small s \<longrightarrow>
     pop_spec (2 * length (unread s) + 2 \<le> f) s (elems_spec i len acc) (pop_elems f i len acc s)) \<and>
   (\<forall>s i len m. index_ok s \<longrightarrow> small s \<longrightarrow>
     pop_spec (2 * length (unread s) + 2 \<le> f) s (entries_spec i len m) (pop_entries f i len m s))"
proof (induction f)
  case 0
  show ?case by (auto intro!: pop_spec_stay)
next
  case (Suc f)
  then have value_IH: "pop_spec (2 * length (unread s) + 1 \<le> f) s parses (popValue_fuel f s)"
    and elems_IH: "pop_spec (2 * length (unread s) + 2 \<le> f) s (elems_spec i len acc) (pop_elems f i len acc s)"
    and entries_IH: "pop_spec (2 * length (unread s) + 2 \<le> f) s (entries_spec i len m) (pop_entries f i len m s)"
    if "index_ok s" "small s" for s i len acc m
    using that by blast+
  have "pop_spec (2 * length (unread s) + 1 \<le> Suc f) s parses (popValue_fuel (Suc f) s)"
    if s: "index_ok s" "small s" for s
  proof (cases "unread s = []")
    case False
    have "pop_spec (2 * length (unread s) + 1 \<le> Suc f) s'' (\<lambda>cs. parses_elems (unat len) cs) (pop_elems f 0 len [] s'')"
      "pop_spec (2 * length (unread s) + 1 \<le> Suc f) s'' (\<lambda>cs m. \<exists>kvs. m = map_of_entries kvs \<and> parses_entries (unat len) cs kvs)
        (pop_entries f 0 len [] s'')"
      if "index_ok s''" "small s''" "length (unread s'') + 1 < length (unread s)" for len s''
      using elems_IH[OF that(1,2), of 0 len "[]"] entries_IH[OF that(1,2), of 0 len "[]"] that(3)
      by (auto elim!: pop_spec_mono simp: elems_spec_def entries_spec_def map_of_entries_def)
    then show ?thesis
      using False s by (auto simp: available_zero
        intro!: pop_spec_then[OF popTypeSignature_spec] pop_payload_spec[simplified])
  qed (use s in \<open>auto simp: available_zero intro!: pop_spec_stay\<close>)
  moreover have "pop_spec (2 * length (unread s) + 2 \<le> Suc f) s (elems_spec i len acc) (pop_elems (Suc f) i len acc s)"
    if s: "index_ok s" "small s" for s i len acc
  proof (cases "i < len")
    case True
    have v: "pop_spec (2 * length (unread s) + 2 \<le> Suc f) s parses (popValue_fuel f s)"
      using value_IH[OF s] by (rule pop_spec_mono) auto
    have rest: "pop_spec (2 * length (unread s) + 2 \<le> Suc f) s'' (\<lambda>ds. elems_spec i len acc (cs @ ds))
        (pop_elems f (i + 1) len (acc @ [v]) s'')"
      if "parses cs v" "index_ok s''" "small s''" "length (unread s) = length cs + length (unread s'')" for cs v s''
      using elems_IH[OF that(2,3), of "i + 1" len "acc @ [v]"]
      by (rule pop_spec_mono)
        (use that parses_nonempty[OF that(1)] True in \<open>auto intro: elems_spec_step simp: Suc_le_eq neq_Nil_conv\<close>)
    have "pop_spec (2 * length (unread s) + 2 \<le> Suc f) s (elems_spec i len acc)
        (and_then (popValue_fuel f s) (\<lambda>v s. pop_elems f (i + 1) len (acc @ [v]) s))"
      by (rule pop_spec_then[OF v]) (rule rest)
    with True show ?thesis by simp
  qed (use s in \<open>auto intro!: pop_spec_stay spec_done\<close>)
  moreover have "pop_spec (2 * length (unread s) + 2 \<le> Suc f) s (entries_spec i len m) (pop_entries (Suc f) i len m s)"
    if s: "index_ok s" "small s" for s i len m
  proof (cases "i < len")
    case True
    let ?en = "2 * length (unread s) + 2 \<le> Suc f"
    have key: "pop_spec ?en s parses (popValue_fuel f s)"
      using value_IH[OF s] by (rule pop_spec_mono) auto
    have rest: "pop_spec ?en s2 (\<lambda>ds. entries_spec i len m (ks @ cs @ ds)) (pop_entries f (i + 1) len (map_put k v m) s2)"
      if "parses ks (VString k)" "parses cs v" "index_ok s2" "small s2"
        "length (unread s) = length ks + length cs + length (unread s2)" for ks k cs v s2
      using entries_IH[OF that(3,4), of "i + 1" len "map_put k v m"]
      by (rule pop_spec_mono)
        (use that parses_nonempty[OF that(1)] True in \<open>auto intro: entries_spec_step simp: Suc_le_eq neq_Nil_conv\<close>)
    have val: "pop_spec ?en s1 (\<lambda>ds. entries_spec i len m (ks @ ds))
        (case variant_string key of None \<Rightarrow> (Fails, s1)
         | Some k \<Rightarrow> and_then (popValue_fuel f s1) (\<lambda>v s. pop_entries f (i + 1) len (map_put k v m) s))"
      if h: "parses ks key" "index_ok s1" "small s1" "length (unread s) = length ks + length (unread s1)" for ks key s1
    proof (cases "variant_string key")
      case (Some k)
      then have key: "key = VString k" by (rule variant_stringE)
      have "pop_spec ?en s1 parses (popValue_fuel f s1)"
        using value_IH[OF h(2,3)] by (rule pop_spec_mono) (use h in auto)
      then have "pop_spec ?en s1 (\<lambda>ds. entries_spec i len m (ks @ ds))
          (and_then (popValue_fuel f s1) (\<lambda>v s. pop_entries f (i + 1) len (map_put k v m) s))"
        by (rule pop_spec_then) (rule rest[OF h(1)[unfolded key]], simp_all add: h(4))
      with Some show ?thesis by simp
    qed (use h in \<open>auto intro!: pop_spec_stay\<close>)
    have "pop_spec ?en s (entries_spec i len m) (and_then (popValue_fuel f s) (\<lambda>key s.
        case variant_string key of None \<Rightarrow> (Fails, s)
         | Some k \<Rightarrow> and_then (popValue_fuel f s) (\<lambda>v s. pop_entries f (i + 1) len (map_put k v m) s)))"
      by (rule pop_spec_then[OF key]) (rule val)
    with True show ?thesis by simp
  qed (use s in \<open>auto intro!: pop_spec_stay spec_done\<close>)
  ultimately show ?case by blast
qed

section \<open>Consequences for popValue\<close>

lemma popValue_spec:
  assumes "index_ok s" and "small s"
  shows "pop_spec True s parses (popValue s)"
proof -
  have "pop_spec (2 * length (unread s) + 1 \<le> Suc (2 * length (unread s))) s parses
      (popValue_fuel (Suc (2 * length (unread s))) s)"
    using pop_fuel_spec assms by blast
  then show ?thesis
    using assms by (simp add: popValue_def available_unread del: popValue_fuel.simps)
qed

lemma popValue_ready:
  assumes "parses cs v" and "ready s cs rest"
  shows "popValue s = (Ok v, adv (length cs) s)"
proof -
  have "2 * length cs + 1 \<le> Suc (2 * length (unread s))" and "index_ok s"
    using assms(2) by (auto simp: ready_def)
  with pop_complete(1)[OF assms] show ?thesis
    by (simp add: popValue_def available_unread del: popValue_fuel.simps)
qed

lemma extend_ok:
  assumes "index_ok s" and "length (ser_bytes s) + length cs < 2 ^ 32"
  shows "index_ok (extend s cs)" and "small (extend s cs)" and "unread (extend s cs) = unread s @ cs"
  using assms by (auto simp: index_ok_def small_def unread_def)

lemma adv_inject:
  assumes "adv m s = adv n s" and "m < 2 ^ 32" and "n < 2 ^ 32"
  shows "m = n"
proof -
  have "m_index (adv m s) = m_index (adv n s)" using assms(1) by simp
  then have "(of_nat m :: u32) = of_nat n" by (simp add: adv_def)
  then have "unat (of_nat m :: u32) = unat (of_nat n :: u32)" by simp
  then show ?thesis using assms(2,3) by (simp add: unat_of_nat)
qed

text \<open>No encoding continues another one.\<close>

lemma parses_prefix_free:
  assumes "parses cs v" and "parses (cs @ ds) w" and "length (cs @ ds) < 2 ^ 32"
  shows "ds = [] \<and> v = w"
proof -
  define s where "s = extend ser_new (cs @ ds)"
  have "index_ok s" "small s" "unread s = cs @ ds"
    using assms(3) by (simp_all add: s_def ser_new_def ser_reset_def ba_new_def index_ok_def small_def unread_def)
  then have "ready s cs ds" "ready s (cs @ ds) []" by (simp_all add: ready_def)
  then have "(Ok v, adv (length cs) s) = (Ok w, adv (length (cs @ ds)) s)"
    using popValue_ready[OF assms(1)] popValue_ready[OF assms(2)] by metis
  then have "v = w" and "length cs = length (cs @ ds)"
    using adv_inject[of "length cs" s "length (cs @ ds)"] assms(3) by auto
  then show ?thesis by simp
qed

lemma truncated_pop:
  assumes "variant_ok v" and "fits v" and "length (enc v) < 2 ^ 32"
    and "n < length (enc v)" and "index_ok s" and "unread s = take n (enc v)" and "small s"
  shows "\<forall>w. fst (popValue s) \<noteq> Ok w"
proof (intro allI notI)
  fix w
  assume "fst (popValue s) = Ok w"
  then obtain cs where cs: "parses cs w" "take n (enc v) = cs @ unread (snd (popValue s))"
    using popValue_spec[OF assms(5,7)] assms(6) by (auto simp: pop_spec_def ready_def)
  then have e: "enc v = cs @ unread (snd (popValue s)) @ drop n (enc v)"
    by (metis append.assoc append_take_drop_id)
  with parses_prefix_free[OF cs(1)] parses_enc(1)[OF assms(1,2)] assms(3)
  have "drop n (enc v) = []" by (metis append_is_Nil_conv)
  with assms(4) show False by simp
qed

section \<open>The serializer interface\<close>

text \<open>
  \<open>src/src/IVariantSerializer.h\<close> declares \<open>pushValue\<close> and \<open>popValue\<close> without
  saying how they relate. The contract below is what a client needs: a serializer holds a
  sequence of values, a push adds at its end (while there is room), a pop takes from its front.
\<close>

fun push_all :: "('s \<Rightarrow> variant \<Rightarrow> 's option) \<Rightarrow> 's \<Rightarrow> variant list \<Rightarrow> 's option" where
  "push_all push s [] = Some s"
| "push_all push s (v # vs) = (case push s v of None \<Rightarrow> None | Some s' \<Rightarrow> push_all push s' vs)"

fun pop_many :: "('s \<Rightarrow> variant outcome \<times> 's) \<Rightarrow> nat \<Rightarrow> 's \<Rightarrow> variant list outcome \<times> 's" where
  "pop_many pop 0 s = (Ok [], s)"
| "pop_many pop (Suc n) s = and_then (pop s) (\<lambda>v s. and_then (pop_many pop n s) (\<lambda>vs s. (Ok (v # vs), s)))"

locale variant_serializer =
  fixes push :: "'s \<Rightarrow> variant \<Rightarrow> 's option"
    and pop :: "'s \<Rightarrow> variant outcome \<times> 's"
    and holds :: "'s \<Rightarrow> variant list \<Rightarrow> bool"
    and room :: "'s \<Rightarrow> variant list \<Rightarrow> bool"
  assumes push_holds: "holds s vs \<Longrightarrow> room s (v # ws) \<Longrightarrow>
      \<exists>s'. push s v = Some s' \<and> holds s' (vs @ [norm v]) \<and> room s' ws"
    and pop_holds: "holds s (v # vs) \<Longrightarrow> \<exists>s'. pop s = (Ok v, s') \<and> holds s' vs"
    and pop_empty: "holds s [] \<Longrightarrow> pop s = (Fails, s)"
begin

lemma push_all_holds:
  "holds s vs \<Longrightarrow> room s ws \<Longrightarrow> \<exists>s'. push_all push s ws = Some s' \<and> holds s' (vs @ map norm ws)"
proof (induction ws arbitrary: s vs)
  case (Cons w ws)
  then obtain s' where s': "push s w = Some s'" "holds s' (vs @ [norm w])" "room s' ws"
    using push_holds by blast
  from Cons.IH[OF s'(2,3)] s'(1) show ?case by simp
qed simp

lemma pop_many_holds:
  "holds s (vs @ ws) \<Longrightarrow> \<exists>s'. pop_many pop (length vs) s = (Ok vs, s') \<and> holds s' ws"
proof (induction vs arbitrary: s)
  case (Cons v vs)
  then obtain s' where s': "pop s = (Ok v, s')" "holds s' (vs @ ws)"
    using pop_holds by fastforce
  from Cons.IH[OF s'(2)] s'(1) show ?case by auto
qed simp

text \<open>First in, first out; nothing is left and the next pop fails without changing the state.\<close>

lemma fifo:
  assumes "holds s []" and "room s ws"
  shows "\<exists>s' s''. push_all push s ws = Some s' \<and>
    pop_many pop (length ws) s' = (Ok (map norm ws), s'') \<and> pop s'' = (Fails, s'')"
proof -
  obtain s' where s': "push_all push s ws = Some s'" "holds s' (map norm ws)"
    using push_all_holds[OF assms] by auto
  obtain s'' where "pop_many pop (length ws) s' = (Ok (map norm ws), s'')" "holds s'' []"
    using pop_many_holds[of s' "map norm ws" "[]"] s'(2) by auto
  with s' pop_empty show ?thesis by blast
qed

end

definition ser_holds :: "serializer \<Rightarrow> variant list \<Rightarrow> bool" where
  "ser_holds s vs \<longleftrightarrow> index_ok s \<and> small s \<and> parses_elems (length vs) (unread s) vs"

definition ser_room :: "serializer \<Rightarrow> variant list \<Rightarrow> bool" where
  "ser_room s vs \<longleftrightarrow> elems_ok vs \<and> fits_elems vs \<and> length (ser_bytes s) + length (enc_elems vs) < 2 ^ 32"

lemma parses_elems_snoc:
  "parses_elems n cs vs \<Longrightarrow> length vs = n \<Longrightarrow> parses ds v \<Longrightarrow> parses_elems (Suc n) (cs @ ds) (vs @ [v])"
proof (induction vs arbitrary: n cs)
  case Nil
  then show ?case using p_elem[OF _ p_no_elems] by (auto elim: parses_elems_0E)
next
  case (Cons w vs)
  then obtain m as bs where split: "n = Suc m" "cs = as @ bs" "parses as w" "parses_elems m bs vs"
    by (auto elim: parses_elems.cases)
  with Cons have "parses_elems (Suc m) (bs @ ds) (vs @ [v])" by auto
  with p_elem[OF split(3)] split(1,2) show ?case by simp
qed

interpretation ser: variant_serializer pushValue popValue ser_holds ser_room
proof
  fix s vs v ws
  assume h: "ser_holds s vs" and r: "ser_room s (v # ws)"
  let ?s = "extend s (enc v)"
  have ok: "index_ok ?s" "small ?s" "unread ?s = unread s @ enc v"
    using extend_ok[of s "enc v"] h r by (auto simp: ser_holds_def ser_room_def)
  have "parses_elems (Suc (length vs)) (unread s @ enc v) (vs @ [norm v])"
    using parses_elems_snoc[of _ "unread s" vs] parses_enc(1)[of v] h r
    by (auto simp: ser_holds_def ser_room_def)
  then have "ser_holds ?s (vs @ [norm v])" using ok by (simp add: ser_holds_def)
  moreover have "ser_room ?s ws" using r by (simp add: ser_room_def)
  ultimately show "\<exists>s'. pushValue s v = Some s' \<and> ser_holds s' (vs @ [norm v]) \<and> ser_room s' ws"
    by (simp add: pushValue_extend)
next
  fix s v vs
  assume h: "ser_holds s (v # vs)"
  then obtain cs ds where cs: "unread s = cs @ ds" "parses cs v" "parses_elems (length vs) ds vs"
    by (auto simp: ser_holds_def elim: parses_elems_SucE)
  then have "ready s cs ds" using h by (simp add: ser_holds_def ready_def)
  with cs have "popValue s = (Ok v, adv (length cs) s)" "ser_holds (adv (length cs) s) vs"
    using popValue_ready ready_adv[of s cs "[]" ds] by (auto simp: ser_holds_def ready_def)
  then show "\<exists>s'. popValue s = (Ok v, s') \<and> ser_holds s' vs" by blast
next
  fix s
  assume "ser_holds s []"
  then have "index_ok s" "unread s = []" by (auto simp: ser_holds_def elim: parses_elems_0E)
  then show "popValue s = (Fails, s)" by (simp add: popValue_def available_zero)
qed

section \<open>Properties\<close>

lemmas fresh_defs = ser_new_def ser_of_def ser_reset_def ba_new_def ba_copy_def index_ok_def small_def
  unread_def extend_def

lemma fresh_ser [simp]:
  "index_ok ser_new" "small ser_new" "unread ser_new = []" "ser_bytes ser_new = []"
  by (simp_all add: fresh_defs)

lemma fresh_of:
  assumes "length cs < 2 ^ 32"
  shows "index_ok (ser_of \<lparr>ba_data = cs\<rparr>)" "small (ser_of \<lparr>ba_data = cs\<rparr>)" "unread (ser_of \<lparr>ba_data = cs\<rparr>) = cs"
  using assms by (simp_all add: fresh_defs)

text \<open>C1: a sequence of values pushed on a serializer whose bytes were all read comes back,
  in order, from as many pops; then nothing is left and the next pop returns false without
  changing the state.\<close>

theorem serializer_fifo:
  assumes "index_ok s" and "unread s = []"
    and "list_all variant_ok vs" and "fits_elems vs"
    and "length (ser_bytes s) + length (enc_elems vs) < 2 ^ 32"
  shows "\<exists>s' s''. push_all pushValue s vs = Some s' \<and>
     pop_many popValue (length vs) s' = (Ok (map norm vs), s'') \<and> popValue s'' = (Fails, s'')"
  by (rule ser.fifo) (use assms in \<open>auto simp: ser_holds_def ser_room_def small_def elems_ok_list_all
    intro: p_no_elems\<close>)

theorem serializer_fifo_witness:
  "\<exists>s' s''. push_all pushValue ser_new [VInteger 7, VMap [(''a'', VNull), (''b'', VMaxTypes)]] = Some s' \<and>
     pop_many popValue (length [VInteger 7, VMap [(''a'', VNull), (''b'', VMaxTypes)]]) s' =
       (Ok (map norm [VInteger 7, VMap [(''a'', VNull), (''b'', VMaxTypes)]]), s'') \<and>
     popValue s'' = (Fails, s'')"
  by (rule serializer_fifo) (simp_all add: map_ok_def)

text \<open>C2: \<open>popValue\<close> implements the grammar of the wire format: it succeeds exactly when a
  prefix of the unread bytes is the text of a value, returns that value and consumes exactly
  that prefix.\<close>

theorem popValue_iff_grammar:
  assumes "index_ok s" and "small s"
  shows "popValue s = (Ok v, s') \<longleftrightarrow>
     (\<exists>cs rest. unread s = cs @ rest \<and> parses cs v \<and> s' = adv (length cs) s)"
proof
  assume "popValue s = (Ok v, s')"
  then show "\<exists>cs rest. unread s = cs @ rest \<and> parses cs v \<and> s' = adv (length cs) s"
    using popValue_spec[OF assms] by (auto simp: pop_spec_def ready_def)
next
  assume "\<exists>cs rest. unread s = cs @ rest \<and> parses cs v \<and> s' = adv (length cs) s"
  then show "popValue s = (Ok v, s')"
    using popValue_ready assms by (auto simp: ready_def)
qed

theorem popValue_iff_grammar_witness:
  "popValue (ser_of \<lparr>ba_data = ''NX''\<rparr>) = (Ok VNull, adv 1 (ser_of \<lparr>ba_data = ''NX''\<rparr>))"
proof -
  let ?s = "ser_of \<lparr>ba_data = ''NX''\<rparr>"
  have s: "index_ok ?s" "small ?s" "unread ?s = ''N'' @ ''X''" by (simp_all add: fresh_of)
  show ?thesis
    by (rule popValue_iff_grammar[OF s(1,2), THEN iffD2], rule exI[of _ "''N''"], rule exI[of _ "''X''"])
      (simp add: s(3) p_null)
qed

text \<open>C8: \<open>pushValue\<close> appends exactly the encoding of the value, whatever the state, and no
  append it makes reads outside its source buffer.\<close>

theorem pushValue_refines_enc: "pushValue s v = Some (extend s (enc v))"
  by (rule pushValue_extend)

text \<open>C9: memory safety on arbitrary input, also for arrays above 4 GiB whose index wraps:
  \<open>popValue\<close> never reads outside the byte array, leaves the array unchanged and keeps the
  read index within it.\<close>

theorem popValue_memory_safe:
  assumes "index_ok s" and "popValue s = (r, s')"
  shows "r \<noteq> OutOfBounds \<and> m_byteArray s' = m_byteArray s \<and> unat (m_index s') \<le> length (ser_bytes s')"
  using pop_fuel_safe(1)[OF assms(1), of "Suc (2 * unat (ser_available s))"] assms(2)
  unfolding popValue_def pop_safe_def index_ok_def by (simp del: popValue_fuel.simps) metis

theorem popValue_memory_safe_witness:
  "snd (popValue (ser_of \<lparr>ba_data = ''I7''\<rparr>)) = adv 1 (ser_of \<lparr>ba_data = ''I7''\<rparr>) \<and>
     fst (popValue (ser_of \<lparr>ba_data = ''I7''\<rparr>)) \<noteq> OutOfBounds"
proof -
  have "popValue (ser_of \<lparr>ba_data = ''I7''\<rparr>) = (Fails, adv 1 (ser_of \<lparr>ba_data = ''I7''\<rparr>))"
    by code_simp
  then show ?thesis
    using popValue_memory_safe[of "ser_of \<lparr>ba_data = ''I7''\<rparr>"] fresh_of[of "''I7''"] by simp
qed

text \<open>C10: \<open>popValue\<close> returns on every input below 4 GiB: its recursion, through nested
  lists and maps of any claimed length, is bounded by the number of unread bytes.\<close>

theorem popValue_terminates:
  assumes "index_ok s" and "small s"
  shows "fst (popValue s) \<noteq> NoFuel"
  using popValue_spec[OF assms] by (auto simp: pop_spec_def)

theorem popValue_terminates_witness:
  "fst (popValue (ser_of \<lparr>ba_data = ''L'' @ [CHR 0xFF, CHR 0xFF, CHR 0xFF, CHR 0xFF]\<rparr>)) \<noteq> NoFuel"
  by (rule popValue_terminates) (simp_all add: fresh_of)

text \<open>One value pushed on a serializer that has been read to its end is popped back and
  nothing is left to read.\<close>

theorem serializer_roundtrip:
  assumes "index_ok s" and "unread s = []" and "variant_ok v" and "fits v"
    and "length (ser_bytes s) + length (enc v) < 2 ^ 32"
  shows "\<exists>s1 s2. pushValue s v = Some s1 \<and> popValue s1 = (Ok (norm v), s2) \<and> ser_available s2 = 0"
proof -
  let ?s1 = "extend s (enc v)"
  have ready: "ready ?s1 (enc v) []"
    using extend_ok[OF assms(1,5)] assms(2) by (simp add: ready_def)
  then have "popValue ?s1 = (Ok (norm v), adv (length (enc v)) ?s1)"
    by (intro popValue_ready parses_enc assms)
  moreover have "ser_available (adv (length (enc v)) ?s1) = 0"
    using ready_adv[of ?s1 "enc v" "[]" "[]"] ready by (simp add: ready_def available_zero)
  ultimately show ?thesis by (simp add: pushValue_extend)
qed

theorem serializer_roundtrip_witness:
  "\<exists>s1 s2. pushValue ser_new (VList [VString ''hi'', VMaxTypes]) = Some s1 \<and>
     popValue s1 = (Ok (norm (VList [VString ''hi'', VMaxTypes])), s2) \<and> ser_available s2 = 0"
  by (rule serializer_roundtrip) simp_all

text \<open>C17: an input cut short is rejected: from any proper prefix of the encoding of a value,
  \<open>popValue\<close> returns no value.\<close>

theorem popValue_rejects_truncation:
  assumes "variant_ok v" and "fits v" and "length (enc v) < 2 ^ 32"
    and "n < length (enc v)" and "index_ok s" and "unread s = take n (enc v)" and "small s"
  shows "\<forall>w. fst (popValue s) \<noteq> Ok w"
  by (rule truncated_pop[OF assms])

theorem popValue_rejects_truncation_witness:
  "\<forall>w. fst (popValue (ser_of \<lparr>ba_data = take 3 (enc (VInteger 5))\<rparr>)) \<noteq> Ok w"
  by (rule popValue_rejects_truncation[of "VInteger 5" 3]) (simp_all add: fresh_of)

text \<open>What \<open>pushValue\<close> writes determines the value: if pushing two values on the same
  serializer gives the same bytes, the values are the same, up to \<open>MaxTypes\<close>, which is
  written as an invalid value.\<close>

theorem pushValue_injective:
  assumes "variant_ok v" "fits v" "variant_ok w" "fits w" "length (enc v) < 2 ^ 32"
    and "pushValue s v = Some t" "pushValue s w = Some u" "ser_bytes t = ser_bytes u"
  shows "norm v = norm w"
proof -
  have "enc v = enc w" using assms(6-8) by (auto simp: pushValue_extend)
  then show ?thesis
    using parses_prefix_free[of "enc v" "norm v" "[]" "norm w"] parses_enc(1)[of v] parses_enc(1)[of w] assms(1-5)
    by simp
qed

theorem pushValue_injective_witness: "norm VInvalid = norm VMaxTypes"
  by (rule pushValue_injective[where s = ser_new and t = "pushTypeSignature ser_new Type_Invalid"
        and u = "pushTypeSignature ser_new Type_Invalid"]) (simp_all add: pushInvalid_def)

text \<open>The length of a string is written as \<open>unsigned\<close>: a string of \<open>2^32\<close> bytes or
  more comes back cut to its length modulo \<open>2^32\<close>.\<close>

theorem string_length_truncated:
  assumes "index_ok s" and "unread s = []"
    and "length (ser_bytes s) + length (enc (VString str)) < 2 ^ 32"
  shows "\<exists>s1 s2. pushValue s (VString str) = Some s1 \<and>
     popValue s1 = (Ok (VString (take (length str mod 2 ^ 32) str)), s2)"
proof -
  let ?len = "of_nat (length str) :: u32" and ?s1 = "extend s (enc (VString str))"
  have len: "unat ?len = length str mod 2 ^ 32" by (simp add: unat_of_nat)
  then have "length (take (unat ?len) str) = unat ?len" by (simp add: min_def)
  then have "parses (enc (VString str)) (VString (take (unat ?len) str))"
    using p_string[of "take (unat ?len) str" ?len] by simp
  moreover have "ready ?s1 (enc (VString str)) []"
    using extend_ok[OF assms(1,3)] assms(2) by (simp add: ready_def)
  ultimately show ?thesis using popValue_ready len by (auto simp: pushValue_extend)
qed

theorem string_length_truncated_witness:
  "\<exists>s1 s2. pushValue ser_new (VString (replicate 4294967298 (CHR ''a''))) = Some s1 \<and>
     popValue s1 = (Ok (VString ''aa''), s2)"
proof -
  let ?str = "replicate 4294967298 (CHR ''a'')"
  have len: "length ?str = 4294967298" by (rule length_replicate)
  have tk: "take (length ?str mod 2 ^ 32) ?str = ''aa''"
  proof -
    have "min (4294967298 mod 2 ^ 32) (4294967298::nat) = Suc (Suc 0)" by simp
    then have "take (4294967298 mod 2 ^ 32) ?str = replicate (Suc (Suc 0)) (CHR ''a'')"
      by (simp only: take_replicate)
    then show ?thesis unfolding len by simp
  qed
  have "unat (of_nat (length ?str) :: u32) = 2" unfolding len by (simp add: unat_of_nat)
  then have "length (enc (VString ?str)) = 7"
    by (simp add: min_def del: replicate.simps)
  then show ?thesis
    using string_length_truncated[of ser_new ?str] unfolding tk by simp
qed

text \<open>A failing pop is not undone: an integer cut short returns false with its type
  signature consumed.\<close>

theorem popValue_cut_integer:
  assumes "index_ok s" and "small s" and "unread s = ''I'' @ cs" and "length cs < 4"
  shows "popValue s = (Fails, adv 1 s)"
proof -
  have "ready s ''I'' cs" using assms by (simp add: ready_def)
  then have "ready (adv 1 s) [] cs" "popTypeSignature s = (Ok Type_Integer, adv 1 s)" "\<not> ser_available s \<le> 0"
    using popTypeSignature_ready[of s "CHR ''I''" "[]" cs Type_Integer] by auto
  with assms(4) show ?thesis
    by (simp add: popValue_def popInteger_def pop_raw_eq ready_def)
qed

theorem popValue_cut_integer_witness:
  "popValue (ser_of \<lparr>ba_data = ''I123''\<rparr>) = (Fails, adv 1 (ser_of \<lparr>ba_data = ''I123''\<rparr>))"
  by (rule popValue_cut_integer[of _ "''123''"]) (simp_all add: fresh_of)

text \<open>An unknown type signature is rejected and left unread.\<close>

theorem popValue_unknown_signature:
  assumes "index_ok s" and "unread s = c # cs" and "c \<notin> set cTypeSignature"
  shows "popValue s = (Fails, s)"
proof -
  have "map_find cSignatureToTypeMap c = None"
    using assms(3) unfolding cSignatureToTypeMap_table by (simp add: cTypeSignature_def)
  with assms show ?thesis
    by (simp add: popValue_def available_zero popTypeSignature_eq)
qed

theorem popValue_unknown_signature_witness:
  "popValue (ser_of \<lparr>ba_data = ''Z''\<rparr>) = (Fails, ser_of \<lparr>ba_data = ''Z''\<rparr>)"
  by (rule popValue_unknown_signature[of _ "CHR ''Z''" "[]"]) (simp_all add: fresh_of cTypeSignature_def)

text \<open>A boolean byte other than 0 and 1 is not refused: the read through a
  \<open>bool\<close> pointer is undefined.\<close>

theorem popValue_bad_boolean:
  assumes "index_ok s" and "small s" and "unread s = ''B'' @ c # cs" and "c \<notin> {CHR 0x00, CHR 0x01}"
  shows "fst (popValue s) = BadBool"
proof -
  have "ready s ''B'' (c # cs)" using assms by (simp add: ready_def)
  then have "ready (adv 1 s) [] (c # cs)" "popTypeSignature s = (Ok Type_Boolean, adv 1 s)" "\<not> ser_available s \<le> 0"
    using popTypeSignature_ready[of s "CHR ''B''" "[]" "c # cs" Type_Boolean] by auto
  with assms(4) show ?thesis
    by (simp add: popValue_def popBoolean_def pop_raw_eq ready_def read_bool_def)
qed

theorem popValue_bad_boolean_witness:
  "fst (popValue (ser_of \<lparr>ba_data = ''B2''\<rparr>)) = BadBool"
  by (rule popValue_bad_boolean[of _ "CHR ''2''" "[]"]) (simp_all add: fresh_of)


text \<open>C15: whatever bytes \<open>popValue\<close> accepts, the value is well formed (the keys of every map
  strictly increase) and canonical: its own encoding is no longer than the bytes read, and
  pushing it on a new serializer and popping gives it back unchanged.\<close>

theorem popped_value_canonical:
  assumes "index_ok s" and "small s" and "popValue s = (Ok v, s')"
  shows "variant_ok v \<and> fits v \<and> length (enc v) \<le> unat (m_index s') - unat (m_index s) \<and>
     (\<exists>s1 s2. pushValue ser_new v = Some s1 \<and> popValue s1 = (Ok v, s2) \<and> ser_available s2 = 0)"
proof -
  obtain cs rest where p: "unread s = cs @ rest" "parses cs v" "s' = adv (length cs) s"
    using popValue_spec[OF assms(1,2)] assms(3) by (auto simp: pop_spec_def ready_def)
  have v: "variant_ok v" "fits v" "norm v = v" "length (enc v) \<le> length cs"
    using parses_map_ok(1)[OF p(2)] parses_canonical(1)[OF p(2)] by simp_all
  have cs: "length cs \<le> length (unread s)" using p(1) by simp
  have total: "length (unread s) < 2 ^ 32" using assms(2) by (simp add: unread_def small_def)
  have ready: "ready (extend ser_new (enc v)) (enc v) []"
    using extend_ok[OF fresh_ser(1), of "enc v"] v(4) cs total by (simp add: ready_def)
  have "popValue (extend ser_new (enc v)) = (Ok v, adv (length (enc v)) (extend ser_new (enc v)))"
    using popValue_ready[OF parses_enc(1)[OF v(1,2)] ready] v(3) by simp
  moreover have "ser_available (adv (length (enc v)) (extend ser_new (enc v))) = 0"
    using ready_adv[of _ "enc v" "[]" "[]"] ready by (simp add: ready_def available_zero)
  moreover have "unat (m_index s') = unat (m_index s) + length cs"
  proof -
    have "unat (m_index s) + length cs < 2 ^ 32"
      using cs assms(1,2) by (auto simp: index_ok_def small_def unread_def)
    then show ?thesis unfolding p(3) adv_def by (simp add: unat_word_ariths unat_of_nat)
  qed
  ultimately show ?thesis using v by (simp add: pushValue_extend)
qed

theorem popped_value_canonical_witness:
  "\<exists>s1 s2. pushValue ser_new VNull = Some s1 \<and> popValue s1 = (Ok VNull, s2) \<and> ser_available s2 = 0"
proof -
  let ?s = "ser_of \<lparr>ba_data = ''NX''\<rparr>"
  have s: "index_ok ?s" "small ?s" "unread ?s = ''N'' @ ''X''" by (simp_all add: fresh_of)
  then have "popValue ?s = (Ok VNull, adv (length ''N'') ?s)"
    by (intro popValue_ready p_null) (simp add: ready_def)
  from popped_value_canonical[OF s(1,2) this] show ?thesis by simp
qed

end
