(* ===== verification/Socket.thy ===== *)
theory Socket
  imports ByteArray
begin

text \<open>
  Model of \<open>src/src/Socket.h\<close> and \<open>src/src/Socket.cpp\<close>: the state of the abstract socket,
  and its \<open>read\<close> and \<open>write\<close>, which delegate to the virtual \<open>readBuffer\<close> and
  \<open>writeBuffer\<close> of a derived class. These are arguments of the definitions, and the locale
  \<open>stream_socket\<close> is the contract a derived class keeps. Outside Windows \<open>initialize\<close> and
  \<open>cleanup\<close> do nothing; their Windows code is the last section.
\<close>

section \<open>State\<close>

datatype protocol = Protocol_Tcp | Protocol_Udp

datatype stream = Stream_Incoming | Stream_Outgoing | Stream_All

record socket =
  m_protocol :: protocol
  m_error :: bool
  m_errorText :: string

definition socket_new :: "protocol \<Rightarrow> socket" where
  "socket_new p = \<lparr>m_protocol = p, m_error = False, m_errorText = []\<rparr>"

definition setError :: "string \<Rightarrow> 'a socket_scheme \<Rightarrow> 'a socket_scheme" where
  "setError txt s = s\<lparr>m_error := True, m_errorText := txt\<rparr>"

definition socket_protocol :: "'a socket_scheme \<Rightarrow> protocol" where
  "socket_protocol s = m_protocol s"

definition isError :: "'a socket_scheme \<Rightarrow> bool" where
  "isError s = m_error s"

definition errorText :: "'a socket_scheme \<Rightarrow> string" where
  "errorText s = m_errorText s"

lemma error_reported [simp]:
  "isError (setError t s)" "errorText (setError t s) = t" "\<not> isError (socket_new p)" "socket_protocol (setError t s) = socket_protocol s"
  by (simp_all add: isError_def errorText_def setError_def socket_new_def socket_protocol_def)

section \<open>Reading and writing byte arrays\<close>

text \<open>
  \<open>readBuffer n buf\<close> returns its count and the buffer afterwards; \<open>junk\<close> is what
  \<open>new char[size]\<close> contains. The result \<open>None\<close> is a count beyond the buffer.
\<close>

type_synonym 's readBuffer = "size_t \<Rightarrow> char list \<Rightarrow> 's \<Rightarrow> size_t \<times> char list \<times> 's"
type_synonym 's writeBuffer = "char list \<Rightarrow> size_t \<Rightarrow> 's \<Rightarrow> size_t \<times> 's"

definition socket_write :: "'s writeBuffer \<Rightarrow> bytearray \<Rightarrow> 's \<Rightarrow> size_t \<times> 's" where
  "socket_write writeBuffer ba st = writeBuffer (ba_constData ba) (ba_size ba) st"

definition socket_read :: "'s readBuffer \<Rightarrow> char list \<Rightarrow> size_t \<Rightarrow> 's \<Rightarrow> bytearray option \<times> 's" where
  "socket_read readBuffer junk n st =
     (case readBuffer n junk st of (bytes, buf, st') \<Rightarrow> (ba_of_buffer buf bytes, st'))"

section \<open>The contract of a derived class\<close>

text \<open>\<open>got st st'\<close> is what the peer has delivered between the two states.\<close>

locale stream_socket =
  fixes readBuffer :: "'s readBuffer"
    and writeBuffer :: "'s writeBuffer"
    and got :: "size_t \<Rightarrow> 's \<Rightarrow> char list"
  assumes reads: "length buf = unat n \<Longrightarrow> unat n < 2 ^ 31 \<Longrightarrow> readBuffer n buf st = (k, buf', st') \<Longrightarrow>
      k = of_nat (length (got n st)) \<and> length (got n st) \<le> unat n \<and> buf' = got n st @ drop (length (got n st)) buf"
    and writes: "length data = unat n \<Longrightarrow> unat n < 2 ^ 31 \<Longrightarrow> writeBuffer data n st = (k, st') \<Longrightarrow> k \<le> n"
begin

lemma read_got:
  assumes "length junk = unat n" and "unat n < 2 ^ 31"
  shows "\<exists>st'. socket_read readBuffer junk n st = (Some \<lparr>ba_data = got n st\<rparr>, st') \<and> length (got n st) \<le> unat n"
proof -
  obtain k buf' st' where r: "readBuffer n junk st = (k, buf', st')" by (cases "readBuffer n junk st") auto
  from reads[OF assms r] have k: "k = of_nat (length (got n st))" "length (got n st) \<le> unat n"
    and buf': "buf' = got n st @ drop (length (got n st)) junk" by simp_all
  have "unat k = length (got n st)"
    unfolding k(1) using k(2) assms(2) by (intro unat_of_nat_size) simp
  moreover from this have "uint k = int (length (got n st))" by (metis of_nat_unat)
  ultimately show ?thesis
    using k(2) by (simp add: socket_read_def r ba_of_buffer_def ba_new_def buf')
qed

lemma write_bound:
  assumes "length (ba_data ba) < 2 ^ 31" and "socket_write writeBuffer ba st = (k, st')"
  shows "unat k \<le> length (ba_data ba)"
proof -
  have n: "unat (ba_size ba) = length (ba_data ba)" using assms(1) by (intro ba_size_unat) simp
  have "k \<le> ba_size ba"
    by (rule writes[of "ba_constData ba" _ st k st']) (use assms n in \<open>simp_all add: socket_write_def ba_constData_def\<close>)
  then show ?thesis using n by (simp add: word_le_nat_alt)
qed

end

section \<open>Starting up the socket library on Windows\<close>

text \<open>
  \<open>WSAStartup\<close> returns 0 when it succeeds; it and \<open>WSACleanup\<close> are parameters that act on a
  world. The state adds the static member \<open>s_winSockInitialized\<close>. A static object calls
  \<open>initialize\<close> when the program starts and \<open>cleanup\<close> when it ends, and every constructor
  of a socket or server calls \<open>initialize\<close> again.
\<close>

definition initializeWinSock :: "('w \<Rightarrow> int32 \<times> 'w) \<Rightarrow> 'w \<Rightarrow> bool \<times> 'w" where
  "initializeWinSock startup w = (case startup w of (r, w') \<Rightarrow> (r \<noteq> 0, w'))"

definition socket_initialize :: "('w \<Rightarrow> int32 \<times> 'w) \<Rightarrow> bool \<times> 'w \<Rightarrow> bool \<times> 'w" where
  "socket_initialize startup st = (case st of (s_winSockInitialized, w) \<Rightarrow>
     if \<not> s_winSockInitialized then initializeWinSock startup w else (s_winSockInitialized, w))"

definition socket_cleanup :: "('w \<Rightarrow> 'w) \<Rightarrow> bool \<times> 'w \<Rightarrow> bool \<times> 'w" where
  "socket_cleanup wsa_cleanup st = (case st of (s_winSockInitialized, w) \<Rightarrow>
     if s_winSockInitialized then (s_winSockInitialized, wsa_cleanup w) else (s_winSockInitialized, w))"

text \<open>
  A program run: the constructor of the static \<open>WSAInitializer\<close>, then the \<open>k\<close> sockets and
  servers the program makes, and the destructor of the static object.
\<close>

definition wsa_program :: "('w \<Rightarrow> int32 \<times> 'w) \<Rightarrow> ('w \<Rightarrow> 'w) \<Rightarrow> nat \<Rightarrow> 'w \<Rightarrow> bool \<times> 'w" where
  "wsa_program startup wsa_cleanup k w =
     (let st = socket_initialize startup (False, w);
          st = (socket_initialize startup ^^ k) st
      in socket_cleanup wsa_cleanup st)"

lemma initialize_again:
  "(\<And>w. fst (startup w) = 0) \<Longrightarrow>
     (socket_initialize startup ^^ k) (False, w) = (False, ((\<lambda>w. snd (startup w)) ^^ k) w)"
  by (induction k) (simp_all add: socket_initialize_def initializeWinSock_def split_beta)

lemma initialize_done: "(socket_initialize startup ^^ k) (True, w) = (True, w)"
  by (induction k) (simp_all add: socket_initialize_def)

text \<open>The flag records the failure of \<open>WSAStartup\<close>, not its success: when the library starts up, every
  one of the \<open>k\<close> sockets made later starts it up again, and it is never cleaned up; when it cannot
  be started, it is taken as initialised and cleaned up in the end.\<close>

theorem winsock_flag_inverted:
  "((\<forall>w. fst (startup w) = 0) \<longrightarrow>
      wsa_program startup wsa_cleanup k w = (False, ((\<lambda>w. snd (startup w)) ^^ Suc k) w)) \<and>
   (fst (startup w) \<noteq> 0 \<longrightarrow> wsa_program startup wsa_cleanup k w = (True, wsa_cleanup (snd (startup w))))"
proof -
  have first: "socket_initialize startup (False, w) = (fst (startup w) \<noteq> 0, snd (startup w))"
    by (simp add: socket_initialize_def initializeWinSock_def split_beta)
  show ?thesis
    using initialize_again[of startup k "snd (startup w)"] initialize_done[of k startup]
      funpow_swap1[of "\<lambda>w. snd (startup w)" k w]
    by (simp add: wsa_program_def first socket_cleanup_def Let_def)
qed

theorem winsock_flag_inverted_witness:
  "wsa_program (\<lambda>n. (0, Suc n)) (\<lambda>n. n + 10) 2 0 = (False, (Suc ^^ Suc 2) 0) \<and>
   wsa_program (\<lambda>n. (1, n)) (\<lambda>n. n + 10) 2 (0 :: nat) = (True, 0 + 10)"
  using winsock_flag_inverted[of "\<lambda>n. (0, Suc n)" "\<lambda>n. n + 10" 2 0]
    winsock_flag_inverted[of "\<lambda>n. (1, n)" "\<lambda>n. n + 10" 2 "0 :: nat"]
  by simp

end
