(* ===== verification/Net.thy ===== *)
theory Net
  imports Ucxx_Prelude
begin

text \<open>
  The socket calls of the system, as parameters: an implementation \<open>N\<close> of the record
  \<open>net\<close> acts on an abstract world \<open>'w\<close>. The locale \<open>net_calls\<close> states what the
  documentation of the calls promises, in terms of the descriptors that are open, the bytes that
  have arrived at one and whether its peer has shut the connection down.
  \<open>ref_net\<close> is one concrete implementation, showing that the laws can be met.
\<close>

type_synonym fd = int32
type_synonym port = "16 word"

record sockaddr =
  sin_addr :: u32
  sin_port :: port

text \<open>
  Results have the C types: \<open>recv\<close> and \<open>send\<close> return \<open>ssize_t\<close>, the other calls
  \<open>int\<close>. \<open>n_recv\<close> also gives the bytes it stored, \<open>n_accept\<close> the address of the
  peer, and \<open>n_fionread\<close> the number it stored, if any.
\<close>

record 'w net =
  n_socket :: "'w \<Rightarrow> fd \<times> 'w"
  n_connect :: "fd \<Rightarrow> sockaddr \<Rightarrow> 'w \<Rightarrow> int32 \<times> 'w"
  n_bind :: "fd \<Rightarrow> sockaddr \<Rightarrow> 'w \<Rightarrow> int32 \<times> 'w"
  n_listen :: "fd \<Rightarrow> int32 \<Rightarrow> 'w \<Rightarrow> int32 \<times> 'w"
  n_select :: "fd \<Rightarrow> 'w \<Rightarrow> int32 \<times> 'w"
  n_accept :: "fd \<Rightarrow> 'w \<Rightarrow> fd \<times> sockaddr \<times> 'w"
  n_recv :: "fd \<Rightarrow> size_t \<Rightarrow> 'w \<Rightarrow> 64 word \<times> char list \<times> 'w"
  n_send :: "fd \<Rightarrow> char list \<Rightarrow> 'w \<Rightarrow> 64 word \<times> 'w"
  n_fionread :: "fd \<Rightarrow> 'w \<Rightarrow> int32 option"
  n_rcvtimeo :: "fd \<Rightarrow> 'w \<Rightarrow> 'w"
  n_shutdown :: "fd \<Rightarrow> int \<Rightarrow> 'w \<Rightarrow> 'w"
  n_close :: "fd \<Rightarrow> 'w \<Rightarrow> 'w"
  n_inet_addr :: "string \<Rightarrow> u32"
  n_inet_ntoa :: "u32 \<Rightarrow> string"
  n_htons :: "port \<Rightarrow> port"
  n_ntohs :: "port \<Rightarrow> port"
  n_gethostbyname :: "string \<Rightarrow> u32 list option"
  n_SOMAXCONN :: int32

locale net_calls =
  fixes N :: "'w net"
    and opened :: "'w \<Rightarrow> fd set"
    and inbox :: "fd \<Rightarrow> 'w \<Rightarrow> char list"
    and hungup :: "fd \<Rightarrow> 'w \<Rightarrow> bool"
  assumes socket_fd: "n_socket N w = (s, w') \<Longrightarrow>
      if 0 \<le> sint s then s \<notin> opened w \<and> opened w' = insert s (opened w) else opened w' = opened w"
    and accept_fd: "n_accept N l w = (s, a, w') \<Longrightarrow>
      if 0 \<le> sint s then s \<notin> opened w \<and> opened w' = insert s (opened w) else opened w' = opened w"
    and connect_fd: "n_connect N s a w = (r, w') \<Longrightarrow> opened w' = opened w"
    and bind_fd: "n_bind N s a w = (r, w') \<Longrightarrow> opened w' = opened w"
    and listen_fd: "n_listen N s b w = (r, w') \<Longrightarrow> opened w' = opened w"
    and select_fd: "n_select N s w = (r, w') \<Longrightarrow> opened w' = opened w"
    and recv_fd: "n_recv N s n w = (k, bs, w') \<Longrightarrow> opened w' = opened w"
    and send_fd: "n_send N s bs w = (k, w') \<Longrightarrow> opened w' = opened w"
    and rcvtimeo_fd: "opened (n_rcvtimeo N s w) = opened w"
    and shutdown_fd: "opened (n_shutdown N s how w) = opened w"
    and close_fd: "opened (n_close N s w) = opened w - {s}"
    and recv_count: "n_recv N s n w = (k, bs, w') \<Longrightarrow>
      sint k = - 1 \<and> bs = [] \<or> 0 \<le> sint k \<and> nat (sint k) \<le> unat n \<and> length bs = nat (sint k)"
    and send_count: "n_send N s bs w = (k, w') \<Longrightarrow> sint k = - 1 \<or> 0 \<le> sint k \<and> nat (sint k) \<le> length bs"
    and recv_byte: "s \<in> opened w \<Longrightarrow> inbox s w = c # cs \<Longrightarrow>
      \<exists>w'. n_recv N s 1 w = (1, [c], w') \<and> inbox s w' = cs \<and> hungup s w' = hungup s w"
    and recv_end: "s \<in> opened w \<Longrightarrow> inbox s w = [] \<Longrightarrow> hungup s w \<Longrightarrow>
      \<exists>w'. n_recv N s 1 w = (0, [], w') \<and> inbox s w' = [] \<and> hungup s w'"
begin

lemma rcvtimeo_close [simp]: "opened (n_close N s (n_rcvtimeo N t w)) = opened w - {s}"
  by (simp add: close_fd rcvtimeo_fd)

end

section \<open>A concrete implementation\<close>

text \<open>
  Descriptors are handed out in order; every peer accepts unless \<open>rw_refuse\<close> is set; a
  pending connection comes from a fixed address; addresses and ports are kept as they are.
\<close>

record ref_world =
  rw_open :: "fd list"
  rw_next :: fd
  rw_in :: "fd \<Rightarrow> char list"
  rw_hung :: "fd \<Rightarrow> bool"
  rw_refuse :: bool

definition ref_open :: "ref_world \<Rightarrow> fd \<times> ref_world" where
  "ref_open w = (let s = rw_next w in
     if s \<in> set (rw_open w) \<or> sint s < 0 then (- 1, w)
     else (s, w\<lparr>rw_open := s # rw_open w, rw_next := s + 1\<rparr>))"

definition ref_try :: "ref_world \<Rightarrow> int32 \<times> ref_world" where
  "ref_try w = (if rw_refuse w then - 1 else 0, w)"

definition ref_recv :: "fd \<Rightarrow> size_t \<Rightarrow> ref_world \<Rightarrow> 64 word \<times> char list \<times> ref_world" where
  "ref_recv s n w =
     (if s \<notin> set (rw_open w) then (- 1, [], w)
      else if rw_in w s = [] then if rw_hung w s then (0, [], w) else (- 1, [], w)
      else let k = min (min (unat n) (length (rw_in w s))) (2 ^ 62)
        in (word_of_int (int k), take k (rw_in w s), w\<lparr>rw_in := (rw_in w)(s := drop k (rw_in w s))\<rparr>))"

definition ref_net :: "ref_world net" where
  "ref_net = \<lparr>
     n_socket = ref_open,
     n_connect = (\<lambda>s a. ref_try),
     n_bind = (\<lambda>s a. ref_try),
     n_listen = (\<lambda>s b. ref_try),
     n_select = (\<lambda>s w. (1, w)),
     n_accept = (\<lambda>s w. case ref_open w of (t, w') \<Rightarrow> (t, \<lparr>sin_addr = 42, sin_port = 7000\<rparr>, w')),
     n_recv = ref_recv,
     n_send = (\<lambda>s bs w. (word_of_int (int (min (length bs) (2 ^ 62))), w)),
     n_fionread = (\<lambda>s w. Some (of_nat (length (rw_in w s)))),
     n_rcvtimeo = (\<lambda>s w. w),
     n_shutdown = (\<lambda>s how w. w),
     n_close = (\<lambda>s w. w\<lparr>rw_open := removeAll s (rw_open w)\<rparr>),
     n_inet_addr = (\<lambda>s. of_nat (length s)),
     n_inet_ntoa = (\<lambda>a. ''10.0.0.1''),
     n_htons = id,
     n_ntohs = id,
     n_gethostbyname = (\<lambda>s. if s = [] then None else Some [42]),
     n_SOMAXCONN = 128\<rparr>"

text \<open>A world with one open descriptor, 5, where \<open>bs\<close> has arrived.\<close>

definition demo_world :: "fd \<Rightarrow> bool \<Rightarrow> bool \<Rightarrow> char list \<Rightarrow> ref_world" where
  "demo_world next hung refuse bs = \<lparr>rw_open = [5], rw_next = next, rw_in = (\<lambda>s. if s = 5 then bs else []),
     rw_hung = (\<lambda>s. s = 5 \<and> hung), rw_refuse = refuse\<rparr>"

lemma sint_small64: "0 \<le> k \<Longrightarrow> k < 2 ^ 63 \<Longrightarrow> sint (word_of_int k :: 64 word) = k"
  by (simp add: sint_sbintrunc' signed_take_bit_int_eq_self)

interpretation rn: net_calls ref_net "\<lambda>w. set (rw_open w)" "\<lambda>s w. rw_in w s" "\<lambda>s w. rw_hung w s"
proof unfold_locales
  fix s l :: fd and w w' :: ref_world and a :: sockaddr and n :: size_t and r :: "64 word" and bs :: "char list"
  show "n_socket ref_net w = (s, w') \<Longrightarrow>
      if 0 \<le> sint s then s \<notin> set (rw_open w) \<and> set (rw_open w') = insert s (set (rw_open w))
      else set (rw_open w') = set (rw_open w)"
    by (auto simp: ref_net_def ref_open_def Let_def split: if_splits)
  show "n_accept ref_net l w = (s, a, w') \<Longrightarrow>
      if 0 \<le> sint s then s \<notin> set (rw_open w) \<and> set (rw_open w') = insert s (set (rw_open w))
      else set (rw_open w') = set (rw_open w)"
    by (auto simp: ref_net_def ref_open_def Let_def split: if_splits)
  let ?k = "min (min (unat n) (length (rw_in w s))) (2 ^ 62)"
  have k: "sint (word_of_int (int ?k) :: 64 word) = int ?k"
    by (rule sint_small64) (simp_all add: min_less_iff_disj)
  show "n_recv ref_net s n w = (r, bs, w') \<Longrightarrow>
      sint r = - 1 \<and> bs = [] \<or> 0 \<le> sint r \<and> nat (sint r) \<le> unat n \<and> length bs = nat (sint r)"
    using k by (auto simp: ref_net_def ref_recv_def Let_def split: if_splits)
  show "n_recv ref_net s n w = (r, bs, w') \<Longrightarrow> set (rw_open w') = set (rw_open w)"
    by (auto simp: ref_net_def ref_recv_def Let_def split: if_splits)
  let ?m = "min (length bs) (2 ^ 62)"
  have m: "sint (word_of_int (int ?m) :: 64 word) = int ?m"
    by (rule sint_small64) (simp_all add: min_less_iff_disj)
  show "n_send ref_net s bs w = (r, w') \<Longrightarrow> sint r = - 1 \<or> 0 \<le> sint r \<and> nat (sint r) \<le> length bs"
    using m by (auto simp: ref_net_def)
qed (auto simp: ref_net_def ref_try_def ref_recv_def)

end
