(* ===== verification/TcpSocket.thy ===== *)
theory TcpSocket
  imports Socket Net StringUtils
begin

text \<open>
  Model of \<open>src/src/TcpSocket.h\<close> and \<open>src/src/TcpSocket.cpp\<close> (the POSIX build). A state is
  the object together with the world of the system calls. The mutex of the class guards single
  reads and writes of a member and is released before the accessor returns, so it does not
  appear in this sequential model. \<open>m_peerPort\<close> is not initialised by the constructors
  (\<open>None\<close>).
\<close>

section \<open>State and constructors\<close>

record tcpsocket = socket +
  m_socket :: fd
  m_peerAddr :: string
  m_peerPort :: "port option"

type_synonym 'w tcp = "tcpsocket \<times> 'w"

definition tcp_new :: tcpsocket where
  "tcp_new = \<lparr>m_protocol = Protocol_Tcp, m_error = False, m_errorText = [],
     m_socket = - 1, m_peerAddr = [], m_peerPort = None\<rparr>"

definition tcp_of :: "'w net \<Rightarrow> fd \<Rightarrow> 'w \<Rightarrow> 'w tcp" where
  "tcp_of N s w = (tcp_new\<lparr>m_socket := s\<rparr>, n_rcvtimeo N s w)"

definition nativeSocket :: "tcpsocket \<Rightarrow> fd" where
  "nativeSocket s = m_socket s"

definition isConnected :: "tcpsocket \<Rightarrow> bool" where
  "isConnected s \<longleftrightarrow> 0 < sint (m_socket s)"

definition setPeerAddr :: "string \<Rightarrow> tcpsocket \<Rightarrow> tcpsocket" where
  "setPeerAddr a s = s\<lparr>m_peerAddr := a\<rparr>"

definition setPeerPort :: "port \<Rightarrow> tcpsocket \<Rightarrow> tcpsocket" where
  "setPeerPort p s = s\<lparr>m_peerPort := Some p\<rparr>"

definition peerAddr :: "tcpsocket \<Rightarrow> string" where
  "peerAddr s = m_peerAddr s"

definition peerPort :: "tcpsocket \<Rightarrow> port option" where
  "peerPort s = m_peerPort s"

section \<open>Closing\<close>

definition shutdown_how :: "stream \<Rightarrow> int" where
  "shutdown_how stream = (case stream of Stream_Incoming \<Rightarrow> 0 | Stream_Outgoing \<Rightarrow> 1 | _ \<Rightarrow> 2)"

definition tcp_close :: "'w net \<Rightarrow> stream \<Rightarrow> tcpsocket \<Rightarrow> 'w \<Rightarrow> 'w" where
  "tcp_close N stream s w =
     (let sock = nativeSocket s; w1 = n_shutdown N sock (shutdown_how stream) w in n_close N sock w1)"

definition tcp_delete :: "'w net \<Rightarrow> tcpsocket \<Rightarrow> 'w \<Rightarrow> 'w" where
  "tcp_delete N s w = n_close N (m_socket s) (tcp_close N Stream_All s w)"

section \<open>Reading and writing\<close>

text \<open>\<open>int s = recv(...)\<close> keeps the low 32 bits of the count.\<close>

definition tcp_readBuffer :: "'w net \<Rightarrow> size_t \<Rightarrow> char list \<Rightarrow> 'w tcp \<Rightarrow> size_t \<times> char list \<times> 'w tcp" where
  "tcp_readBuffer N n buf st = (case st of (s, w) \<Rightarrow>
     if \<not> isConnected s then (0, buf, st)
     else (case n_recv N (nativeSocket s) n w of (r, bs, w') \<Rightarrow>
       let k = (ucast r :: int32); buf' = bs @ drop (length bs) buf
       in if sint k < 0 then (0, buf', (setError ''Unable to read data'' s, w'))
          else (scast k, buf', (s, w'))))"

definition tcp_writeBuffer :: "'w net \<Rightarrow> char list \<Rightarrow> size_t \<Rightarrow> 'w tcp \<Rightarrow> size_t \<times> 'w tcp" where
  "tcp_writeBuffer N data n st = (case st of (s, w) \<Rightarrow>
     if \<not> isConnected s then (0, st)
     else (case n_send N (nativeSocket s) (take (unat n) data) w of (r, w') \<Rightarrow>
       let k = (ucast r :: int32)
       in if sint k < 0 then (0, (setError ''Unable to send data'' s, w'))
          else (scast k, (s, w'))))"

definition tcp_available :: "'w net \<Rightarrow> 'w tcp \<Rightarrow> size_t" where
  "tcp_available N st = (case st of (s, w) \<Rightarrow>
     if \<not> isConnected s then 0
     else (let bytes = (case n_fionread N (nativeSocket s) w of None \<Rightarrow> 0 | Some k \<Rightarrow> (ucast k :: 64 word))
           in bytes))"

text \<open>
  The loop of \<open>readLine\<close>: the result says whether it ended by an error. It may run for
  ever (\<open>None\<close>).
\<close>

partial_function (option) readLine_loop ::
  "'w net \<Rightarrow> fd \<Rightarrow> size_t \<Rightarrow> string \<Rightarrow> size_t \<Rightarrow> char \<Rightarrow> 'w \<Rightarrow> (string \<times> bool \<times> 'w) option" where
  "readLine_loop N sock n line len c w =
     (case n_recv N sock 1 w of (r, bs, w') \<Rightarrow>
        let read = (ucast r :: int32); c' = (case bs of [] \<Rightarrow> c | b # _ \<Rightarrow> b)
        in if sint read < 0 then Some (line, True, w')
           else let keep = (read = 1 \<and> c' \<noteq> CHR 0x0A \<and> c' \<noteq> CHR 0x0D);
                    line' = (if keep then line @ [c'] else line);
                    len' = (if keep then len + 1 else len)
                in if c' \<noteq> CHR 0x0A \<and> len' < n then readLine_loop N sock n line' len' c' w'
                   else Some (line', False, w'))"

definition readLine :: "'w net \<Rightarrow> size_t \<Rightarrow> 'w tcp \<Rightarrow> (string \<times> 'w tcp) option" where
  "readLine N n st = (case st of (s, w) \<Rightarrow>
     if \<not> isConnected s then Some ([], st)
     else (case readLine_loop N (nativeSocket s) n [] 0 CHR 0x00 w of
         None \<Rightarrow> None
       | Some (line, err, w') \<Rightarrow>
           Some (line, (if err then setError ''Unable to read data'' s else s, w'))))"

section \<open>Connecting\<close>

definition connectToHost :: "'w net \<Rightarrow> string \<Rightarrow> port \<Rightarrow> 'w tcp \<Rightarrow> bool \<times> 'w tcp" where
  "connectToHost N hostName p st = (case st of (s, w) \<Rightarrow>
     let w1 = (if isConnected s then tcp_close N Stream_All s w else w)
     in case n_socket N w1 of (sock, w2) \<Rightarrow>
       if sint sock < 0 then (False, (setError ''Unable to create a socket'' s, w2))
       else let server = \<lparr>sin_addr = n_inet_addr N (c_str hostName), sin_port = n_htons N p\<rparr>
         in case n_connect N sock server w2 of (r, w3) \<Rightarrow>
           if 0 \<le> sint r then (True, (s\<lparr>m_socket := sock\<rparr>, w3)) else (False, (s, w3)))"

text \<open>\<open>hostNameToIp\<close>: the first address of the host, as text; empty if there is none.\<close>

definition hostNameToIp :: "'w net \<Rightarrow> string \<Rightarrow> string" where
  "hostNameToIp N hostName = (case n_gethostbyname N (c_str hostName) of
     None \<Rightarrow> [] | Some [] \<Rightarrow> [] | Some (a # _) \<Rightarrow> n_inet_ntoa N a)"


section \<open>The contract of a stream socket\<close>

text \<open>The bytes a read of at most \<open>n\<close> bytes delivers.\<close>

definition delivered :: "'w net \<Rightarrow> size_t \<Rightarrow> 'w tcp \<Rightarrow> char list" where
  "delivered N n st = (case st of (s, w) \<Rightarrow>
     if isConnected s then fst (snd (n_recv N (nativeSocket s) n w)) else [])"

lemma ucast_count:
  assumes "0 \<le> sint (r :: 64 word)" and "sint r < 2 ^ 31"
  shows "sint (ucast r :: int32) = sint r" and "(scast (ucast r :: int32) :: size_t) = r"
proof -
  have u: "uint r = sint r"
    using assms by (simp add: uint_sint take_bit_int_eq_self)
  show k: "sint (ucast r :: int32) = sint r"
    using assms by (simp add: signed_ucast_eq u signed_take_bit_int_eq_self)
  have "uint (scast (ucast r :: int32) :: size_t) = uint r"
    using assms by (simp add: uint_scast64 k u)
  then show "(scast (ucast r :: int32) :: size_t) = r" by (rule unsigned_word_eqI)
qed

lemma ucast_minus_one: "sint (r :: 64 word) = - 1 \<Longrightarrow> sint (ucast r :: int32) < 0"
proof -
  assume "sint r = - 1"
  then have "r = - 1" by (intro signed_word_eqI) simp
  then have "(ucast r :: int32) = - 1" by (auto intro: bit_word_eqI simp: bit_simps)
  then show ?thesis by simp
qed

context net_calls
begin

lemma tcp_of_fd: "tcp_of N s w = (t, w') \<Longrightarrow> opened w' = opened w \<and> m_socket t = s"
  by (auto simp: tcp_of_def tcp_new_def rcvtimeo_fd)

lemma tcp_close_fd: "opened (tcp_close N how s w) = opened w - {m_socket s}"
  by (simp add: tcp_close_def nativeSocket_def close_fd shutdown_fd Let_def)

lemma tcp_delete_fd: "opened (tcp_delete N s w) = opened w - {m_socket s}"
  by (simp add: tcp_delete_def tcp_close_fd close_fd)

end

sublocale net_calls \<subseteq> ss: stream_socket "tcp_readBuffer N" "tcp_writeBuffer N" "delivered N"
proof
  fix buf buf' :: "char list" and n k :: size_t and st st' :: "'w tcp"
  assume n: "length buf = unat n" "unat n < 2 ^ 31" and r: "tcp_readBuffer N n buf st = (k, buf', st')"
  obtain s w where st: "st = (s, w)" by (cases st)
  obtain r bs w' where rv: "n_recv N (nativeSocket s) n w = (r, bs, w')" by (cases "n_recv N (nativeSocket s) n w") auto
  show "k = of_nat (length (delivered N n st)) \<and> length (delivered N n st) \<le> unat n \<and>
      buf' = delivered N n st @ drop (length (delivered N n st)) buf"
  proof (cases "isConnected s \<and> 0 \<le> sint r")
    case True
    then have c: "0 \<le> sint r" "sint r < 2 ^ 31" "length bs = nat (sint r)" "length bs \<le> unat n"
      using recv_count[OF rv] n(2) by auto
    have u: "unat r = length bs"
      using c by (simp add: unat_eq_nat_uint uint_sint take_bit_int_eq_self)
    have d: "delivered N n st = bs" using True rv by (simp add: st delivered_def)
    have "tcp_readBuffer N n buf st = (r, bs @ drop (length bs) buf, s, w')"
      using True by (simp add: st tcp_readBuffer_def rv ucast_count[OF c(1,2)] Let_def)
    then have "k = r" "buf' = bs @ drop (length bs) buf" using r by simp_all
    moreover have "r = of_nat (length bs)" unfolding u[symmetric] by simp
    ultimately show ?thesis using d c(4) by simp
  next
    case False
    then consider "\<not> isConnected s" | "isConnected s" "sint r < 0" by fastforce
    then show ?thesis
    proof cases
      case 1
      then show ?thesis using r by (auto simp: st tcp_readBuffer_def delivered_def)
    next
      case 2
      then have "sint r = - 1" "bs = []" using recv_count[OF rv] by auto
      then show ?thesis
        using 2 r ucast_minus_one[of r] by (auto simp: st tcp_readBuffer_def delivered_def rv Let_def)
    qed
  qed
next
  fix data :: "char list" and n k :: size_t and st st' :: "'w tcp"
  assume n: "length data = unat n" "unat n < 2 ^ 31" and r: "tcp_writeBuffer N data n st = (k, st')"
  obtain s w where st: "st = (s, w)" by (cases st)
  obtain r w' where sd: "n_send N (nativeSocket s) (take (unat n) data) w = (r, w')"
    by (cases "n_send N (nativeSocket s) (take (unat n) data) w") auto
  show "k \<le> n"
  proof (cases "isConnected s \<and> 0 \<le> sint r")
    case True
    then have c: "0 \<le> sint r" "sint r < 2 ^ 31" "nat (sint r) \<le> unat n"
      using send_count[OF sd] n by auto
    have "unat r = nat (sint r)"
      using c by (simp add: unat_eq_nat_uint uint_sint take_bit_int_eq_self)
    then have "r \<le> n" using c(3) unfolding word_le_nat_alt by simp
    then show ?thesis
      using True r sd ucast_count[OF c(1,2)] by (simp add: st tcp_writeBuffer_def Let_def)
  next
    case False
    then consider "\<not> isConnected s" | "isConnected s" "sint r < 0" by fastforce
    then show ?thesis
    proof cases
      case 1
      then show ?thesis using r by (auto simp: st tcp_writeBuffer_def)
    next
      case 2
      then have "sint r = - 1" using send_count[OF sd] by auto
      then show ?thesis
        using 2 r ucast_minus_one[of r] by (auto simp: st tcp_writeBuffer_def sd Let_def)
    qed
  qed
qed

section \<open>Reading a line\<close>

text \<open>
  What a call of \<open>readLine\<close> makes of the bytes that arrive: the line with the rest of the
  bytes, or \<open>None\<close> if they end before the line does.
\<close>

fun line_scan :: "nat \<Rightarrow> string \<Rightarrow> char list \<Rightarrow> (string \<times> char list) option" where
  "line_scan k line [] = None"
| "line_scan k line (c # cs) =
     (if c = CHR 0x0A then Some (line, cs)
      else let line' = (if c = CHR 0x0D then line else line @ [c])
        in if length line' < k then line_scan k line' cs else Some (line', cs))"

lemma line_scan_line:
  "CHR 0x0A \<notin> set pre \<Longrightarrow> length line + length (filter ((\<noteq>) CHR 0x0D) pre) < k \<Longrightarrow>
   line_scan k line (pre @ CHR 0x0A # rest) = Some (line @ filter ((\<noteq>) CHR 0x0D) pre, rest)"
  by (induction pre arbitrary: line) (auto simp: Let_def)

lemma line_scan_none:
  "CHR 0x0A \<notin> set bs \<Longrightarrow> length line + length (filter ((\<noteq>) CHR 0x0D) bs) < k \<Longrightarrow> line_scan k line bs = None"
  by (induction bs arbitrary: line) (auto simp: Let_def)

lemma unat_suc: "len < n \<or> len = 0 \<Longrightarrow> unat (len + 1 :: size_t) = Suc (unat len)"
proof -
  assume "len < n \<or> len = 0"
  then have "unat len + unat (1 :: size_t) < 2 ^ 64"
    using Word.unsigned_less[of n, where ?'a = nat] by (auto simp: word_less_nat_alt)
  then show ?thesis by (simp add: unat_word_ariths(1))
qed

context net_calls
begin

lemma line_step:
  assumes "s \<in> opened w" and "inbox s w = c # cs"
  shows "\<exists>w'. s \<in> opened w' \<and> inbox s w' = cs \<and> hungup s w' = hungup s w \<and>
    readLine_loop N s n line len c0 w =
      (let keep = (c \<noteq> CHR 0x0A \<and> c \<noteq> CHR 0x0D); line' = (if keep then line @ [c] else line);
           len' = (if keep then len + 1 else len)
       in if c \<noteq> CHR 0x0A \<and> len' < n then readLine_loop N s n line' len' c w' else Some (line', False, w'))"
proof -
  from recv_byte[OF assms] obtain w' where r: "n_recv N s 1 w = (1, [c], w')"
    and w': "inbox s w' = cs" "hungup s w' = hungup s w" by blast
  have "s \<in> opened w'" using assms(1) recv_fd[OF r] by simp
  moreover have "readLine_loop N s n line len c0 w =
      (let keep = (c \<noteq> CHR 0x0A \<and> c \<noteq> CHR 0x0D); line' = (if keep then line @ [c] else line);
           len' = (if keep then len + 1 else len)
       in if c \<noteq> CHR 0x0A \<and> len' < n then readLine_loop N s n line' len' c w' else Some (line', False, w'))"
    by (subst readLine_loop.simps) (simp add: r Let_def)
  ultimately show ?thesis using w' by blast
qed

lemma loop_hang:
  assumes "s \<in> opened w" and "inbox s w = []" and "hungup s w" and "c \<noteq> CHR 0x0A" and "len < n"
  shows "readLine_loop N s n line len c w = None"
proof (rule ccontr)
  assume "readLine_loop N s n line len c w \<noteq> None"
  then obtain r where r: "readLine_loop N s n line len c w = Some r" by blast
  let ?P = "\<lambda>M s n line len c w r. M = N \<and> s \<in> opened w \<and> inbox s w = [] \<and> hungup s w \<and>
    c \<noteq> CHR 0x0A \<and> len < n \<longrightarrow> False"
  have "?P N s n line len c w r"
    using _ r
  proof (rule readLine_loop.raw_induct [where P = ?P])
    fix loop :: "'w net \<Rightarrow> fd \<Rightarrow> size_t \<Rightarrow> string \<Rightarrow> size_t \<Rightarrow> char \<Rightarrow> 'w \<Rightarrow> (string \<times> bool \<times> 'w) option"
      and M s n line len c w r
    assume IH: "\<And>M s n line len c w r. loop M s n line len c w = Some r \<Longrightarrow> ?P M s n line len c w r"
      and body: "(case n_recv M s 1 w of (r, bs, w') \<Rightarrow>
        let read = (ucast r :: int32); c' = (case bs of [] \<Rightarrow> c | b # _ \<Rightarrow> b)
        in if sint read < 0 then Some (line, True, w')
           else let keep = (read = 1 \<and> c' \<noteq> CHR 0x0A \<and> c' \<noteq> CHR 0x0D);
                    line' = (if keep then line @ [c'] else line);
                    len' = (if keep then len + 1 else len)
                in if c' \<noteq> CHR 0x0A \<and> len' < n then loop M s n line' len' c' w'
                   else Some (line', False, w')) = Some r"
    show "?P M s n line len c w r"
    proof
      assume h: "M = N \<and> s \<in> opened w \<and> inbox s w = [] \<and> hungup s w \<and> c \<noteq> CHR 0x0A \<and> len < n"
      then obtain w' where e: "n_recv N s 1 w = (0, [], w')" "inbox s w' = []" "hungup s w'"
        using recv_end by blast
      then have "loop N s n line len c w' = Some r" using body h by (simp add: Let_def)
      moreover have "s \<in> opened w'" using h recv_fd[OF e(1)] by simp
      ultimately show False using IH[of N s n line len c w' r] h e by blast
    qed
  qed
  then show False using assms by blast
qed

lemma loop_scan:
  "s \<in> opened w \<Longrightarrow> inbox s w = bs \<Longrightarrow> unat len = length line \<Longrightarrow> len < n \<or> len = 0 \<Longrightarrow>
   line_scan (unat n) line bs = Some (l, rest) \<Longrightarrow>
   \<exists>w'. readLine_loop N s n line len c0 w = Some (l, False, w') \<and> s \<in> opened w' \<and> inbox s w' = rest"
proof (induction bs arbitrary: w line len c0)
  case (Cons c cs)
  from line_step[OF Cons.prems(1,2), of n line len c0] obtain w' where w': "s \<in> opened w'" "inbox s w' = cs"
    and step: "readLine_loop N s n line len c0 w =
      (let keep = (c \<noteq> CHR 0x0A \<and> c \<noteq> CHR 0x0D); line' = (if keep then line @ [c] else line);
           len' = (if keep then len + 1 else len)
       in if c \<noteq> CHR 0x0A \<and> len' < n then readLine_loop N s n line' len' c w' else Some (line', False, w'))"
    by blast
  show ?case
    using Cons.prems(3-5) step w' Cons.IH[OF w', of len line c] Cons.IH[OF w', of "len + 1" "line @ [c]" c]
      unat_suc[OF Cons.prems(4)]
    by (auto simp: Let_def word_less_nat_alt split: if_splits)
qed simp

lemma loop_none:
  "s \<in> opened w \<Longrightarrow> inbox s w = bs \<Longrightarrow> hungup s w \<Longrightarrow> unat len = length line \<Longrightarrow> len < n \<Longrightarrow> c0 \<noteq> CHR 0x0A \<Longrightarrow>
   line_scan (unat n) line bs = None \<Longrightarrow> readLine_loop N s n line len c0 w = None"
proof (induction bs arbitrary: w line len c0)
  case Nil
  then show ?case by (simp add: loop_hang)
next
  case (Cons c cs)
  from line_step[OF Cons.prems(1,2), of n line len c0] obtain w' where w': "s \<in> opened w'" "inbox s w' = cs"
    "hungup s w'"
    and step: "readLine_loop N s n line len c0 w =
      (let keep = (c \<noteq> CHR 0x0A \<and> c \<noteq> CHR 0x0D); line' = (if keep then line @ [c] else line);
           len' = (if keep then len + 1 else len)
       in if c \<noteq> CHR 0x0A \<and> len' < n then readLine_loop N s n line' len' c w' else Some (line', False, w'))"
    using Cons.prems(3) by blast
  show ?case
    using Cons.prems(4-7) step Cons.IH[OF w', of len line c] Cons.IH[OF w', of "len + 1" "line @ [c]" c]
      unat_suc[of len n]
    by (auto simp: Let_def word_less_nat_alt split: if_splits)
qed

lemma readLine_scan:
  assumes "isConnected s" and "m_socket s \<in> opened w"
    and "line_scan (unat n) [] (inbox (m_socket s) w) = Some (line, rest)"
  shows "\<exists>w'. readLine N n (s, w) = Some (line, s, w') \<and> inbox (m_socket s) w' = rest"
  using loop_scan[OF assms(2) refl, of 0 "[]" n line rest "CHR 0x00"] assms
  by (auto simp: readLine_def nativeSocket_def)

lemma readLine_hang:
  assumes "isConnected s" and "m_socket s \<in> opened w" and "hungup (m_socket s) w" and "0 < n"
    and "line_scan (unat n) [] (inbox (m_socket s) w) = None"
  shows "readLine N n (s, w) = None"
  using loop_none[OF assms(2) refl assms(3), of 0 "[]" n "CHR 0x00"] assms
  by (auto simp: readLine_def nativeSocket_def)

end

section \<open>Connecting a socket\<close>

text \<open>The descriptor a socket object believes it is connected through.\<close>

definition tcp_fds :: "tcpsocket \<Rightarrow> fd set" where
  "tcp_fds s = (if isConnected s then {m_socket s} else {})"

context net_calls
begin

lemma connect_result:
  assumes "connectToHost N h p (s, w) = (ok, s', w')"
  shows "if ok then \<exists>sock. 0 \<le> sint sock \<and> sock \<notin> opened w - tcp_fds s \<and> s' = s\<lparr>m_socket := sock\<rparr> \<and>
       opened w' = insert sock (opened w - tcp_fds s)
     else m_socket s' = m_socket s \<and>
       (m_error s' \<and> opened w' = opened w - tcp_fds s \<or>
        s' = s \<and> (\<exists>sock. 0 \<le> sint sock \<and> sock \<notin> opened w - tcp_fds s \<and>
          opened w' = insert sock (opened w - tcp_fds s)))"
proof -
  let ?w1 = "if isConnected s then tcp_close N Stream_All s w else w"
  obtain sock w2 where sock: "n_socket N ?w1 = (sock, w2)" by (cases "n_socket N ?w1")
  let ?a = "\<lparr>sin_addr = n_inet_addr N (c_str h), sin_port = n_htons N p\<rparr>"
  obtain r w3 where con: "n_connect N sock ?a w2 = (r, w3)" by (cases "n_connect N sock ?a w2")
  have w1: "opened ?w1 = opened w - tcp_fds s" by (simp add: tcp_fds_def tcp_close_fd)
  have fds: "if 0 \<le> sint sock then sock \<notin> opened ?w1 \<and> opened w2 = insert sock (opened ?w1) else opened w2 = opened ?w1"
    "opened w3 = opened w2"
    using socket_fd[OF sock] connect_fd[OF con] by simp_all
  consider "sint sock < 0" | "0 \<le> sint sock" "0 \<le> sint r" | "0 \<le> sint sock" "sint r < 0" by linarith
  then show ?thesis
  proof cases
    case 1
    then have "ok = False" "s' = setError ''Unable to create a socket'' s" "w' = w2"
      using assms by (simp_all add: connectToHost_def sock)
    then show ?thesis using 1 fds w1 by (simp add: setError_def)
  next
    case 2
    then have "ok" "s' = s\<lparr>m_socket := sock\<rparr>" "w' = w3"
      using assms by (simp_all add: connectToHost_def sock con Let_def)
    then show ?thesis using 2 fds unfolding w1 by auto
  next
    case 3
    then have "\<not> ok" "s' = s" "w' = w3"
      using assms by (simp_all add: connectToHost_def sock con Let_def)
    then show ?thesis using 3 fds unfolding w1 by auto
  qed
qed

lemma close_twice:
  assumes "n_socket N (tcp_close N how s w) = (t, w2)" and "t = m_socket s" and "0 \<le> sint t"
  shows "t \<in> opened w2 \<and> t \<notin> opened (tcp_delete N s w2)"
  using assms socket_fd[OF assms(1)] by (simp add: tcp_delete_fd)

lemma readBuffer_state:
  assumes "tcp_readBuffer N n buf (s, w) = (k, buf', s', w')" and "unat n < 2 ^ 31"
  shows "s' = s \<or> delivered N n (s, w) = [] \<and> s' = setError ''Unable to read data'' s"
proof -
  obtain r bs w2 where rv: "n_recv N (nativeSocket s) n w = (r, bs, w2)"
    by (cases "n_recv N (nativeSocket s) n w") auto
  consider "isConnected s" "sint r < 0" | "\<not> isConnected s" | "0 \<le> sint r" by linarith
  then show ?thesis
  proof cases
    case 1
    then have "bs = []" "sint r = - 1" using recv_count[OF rv] by auto
    then show ?thesis
      using assms 1 ucast_minus_one[of r] by (auto simp: tcp_readBuffer_def delivered_def rv Let_def)
  next
    case 2
    then show ?thesis using assms by (simp add: tcp_readBuffer_def)
  next
    case 3
    then have "0 \<le> sint (ucast r :: int32)"
      using recv_count[OF rv] assms(2) ucast_count(1)[of r] by auto
    then show ?thesis using assms by (auto simp: tcp_readBuffer_def rv Let_def split: if_splits)
  qed
qed

lemma tcp_read:
  assumes "length junk = unat n" and "unat n < 2 ^ 31"
  shows "\<exists>s' w'. socket_read (tcp_readBuffer N) junk n (s, w) = (Some \<lparr>ba_data = delivered N n (s, w)\<rparr>, s', w') \<and>
    length (delivered N n (s, w)) \<le> unat n \<and>
    (s' = s \<or> delivered N n (s, w) = [] \<and> s' = setError ''Unable to read data'' s)"
proof -
  obtain k buf' s' w' where r: "tcp_readBuffer N n junk (s, w) = (k, buf', s', w')"
    by (cases "tcp_readBuffer N n junk (s, w)") auto
  from ss.read_got[OF assms, of "(s, w)"] r readBuffer_state[OF r assms(2)] show ?thesis
    by (auto simp: socket_read_def)
qed

lemma failed_connect:
  assumes "\<not> isConnected s" and "n_socket N w = (sock, w1)" and "0 \<le> sint sock"
    and "sint (fst (n_connect N sock \<lparr>sin_addr = n_inet_addr N (c_str h), sin_port = n_htons N p\<rparr> w1)) < 0"
    and "connectToHost N h p (s, w) = (ok, s', w')" and "m_socket s \<noteq> sock"
  shows "\<not> ok \<and> s' = s \<and> sock \<notin> opened w \<and> sock \<in> opened (tcp_delete N s' w')"
proof -
  obtain r w2 where c: "n_connect N sock \<lparr>sin_addr = n_inet_addr N (c_str h), sin_port = n_htons N p\<rparr> w1 = (r, w2)"
    by (cases "n_connect N sock \<lparr>sin_addr = n_inet_addr N (c_str h), sin_port = n_htons N p\<rparr> w1")
  then have "\<not> ok" "s' = s" "w' = w2"
    using assms by (simp_all add: connectToHost_def Let_def split: if_splits)
  then show ?thesis
    using socket_fd[OF assms(2)] connect_fd[OF c] assms(3,6) by (simp add: tcp_delete_fd)
qed

end

section \<open>Properties\<close>

text \<open>C29: \<open>read\<close> of fewer than 2 GiB returns exactly the bytes that \<open>recv\<close> delivered, at most the
  number asked for, and leaves out the rest of its uninitialised buffer. When the socket is not
  connected or the call fails the array is empty, and only then is the error text set.\<close>

theorem tcp_read_delivers:
  assumes "net_calls N opened inbox hungup" and "length junk = unat n" and "unat n < 2 ^ 31"
  shows "\<exists>s' w'. socket_read (tcp_readBuffer N) junk n (s, w) = (Some \<lparr>ba_data = delivered N n (s, w)\<rparr>, s', w') \<and>
    length (delivered N n (s, w)) \<le> unat n \<and>
    (s' = s \<or> delivered N n (s, w) = [] \<and> s' = setError ''Unable to read data'' s)"
  by (rule net_calls.tcp_read[OF assms])

theorem tcp_read_delivers_witness:
  "\<exists>s' w'. socket_read (tcp_readBuffer ref_net) (replicate 8 CHR 0xCC) 8
      (tcp_new\<lparr>m_socket := 5\<rparr>, demo_world 6 False False ''abc'') = (Some \<lparr>ba_data = ''abc''\<rparr>, s', w')"
proof -
  have "delivered ref_net 8 (tcp_new\<lparr>m_socket := 5\<rparr>, demo_world 6 False False ''abc'') = ''abc''"
    by (simp add: delivered_def isConnected_def nativeSocket_def ref_net_def ref_recv_def demo_world_def)
  then show ?thesis
    using tcp_read_delivers[OF rn.net_calls_axioms, of "replicate 8 CHR 0xCC" 8 "tcp_new\<lparr>m_socket := 5\<rparr>"
        "demo_world 6 False False ''abc''"] by auto
qed

text \<open>C24: when a line feed arrives before the line is as long as \<open>readLine\<close> may read, it returns the bytes
  before the line feed without the carriage returns, and leaves exactly the bytes after it.\<close>

theorem readLine_reads_line:
  assumes "net_calls N opened inbox hungup" and "isConnected s" and "m_socket s \<in> opened w"
    and "inbox (m_socket s) w = pre @ CHR 0x0A # rest" and "CHR 0x0A \<notin> set pre"
    and "length (filter ((\<noteq>) CHR 0x0D) pre) < unat n"
  shows "\<exists>w'. readLine N n (s, w) = Some (filter ((\<noteq>) CHR 0x0D) pre, s, w') \<and> inbox (m_socket s) w' = rest"
  by (rule net_calls.readLine_scan[OF assms(1-3)]) (simp add: assms(4-6) line_scan_line)

theorem readLine_reads_line_witness:
  "\<exists>w'. readLine ref_net 80 (tcp_new\<lparr>m_socket := 5\<rparr>, demo_world 6 False False (''GET'' @ [CHR 0x0D, CHR 0x0A, CHR ''x'']))
     = Some (''GET'', tcp_new\<lparr>m_socket := 5\<rparr>, w') \<and> rw_in w' 5 = ''x''"
  using readLine_reads_line[OF rn.net_calls_axioms, of "tcp_new\<lparr>m_socket := 5\<rparr>"
      "demo_world 6 False False (''GET'' @ [CHR 0x0D, CHR 0x0A, CHR ''x''])" "''GET'' @ [CHR 0x0D]" "''x''" 80]
  by (simp add: demo_world_def isConnected_def)

text \<open>C32: when the peer has closed the connection in the middle of a line, \<open>readLine\<close> never returns:
  \<open>recv\<close> gives 0 again and again, which is neither an error nor a character.\<close>

theorem readLine_hangs_at_end:
  assumes "net_calls N opened inbox hungup" and "isConnected s" and "m_socket s \<in> opened w"
    and "hungup (m_socket s) w" and "CHR 0x0A \<notin> set (inbox (m_socket s) w)"
    and "length (filter ((\<noteq>) CHR 0x0D) (inbox (m_socket s) w)) < unat n"
  shows "readLine N n (s, w) = None"
  by (rule net_calls.readLine_hang[OF assms(1-4)]) (use assms(5,6) in \<open>auto simp: line_scan_none word_less_nat_alt\<close>)

theorem readLine_hangs_at_end_witness:
  "readLine ref_net 80 (tcp_new\<lparr>m_socket := 5\<rparr>, demo_world 6 True False ''GE'') = None"
  by (rule readLine_hangs_at_end[OF rn.net_calls_axioms]) (simp_all add: demo_world_def isConnected_def)

text \<open>C28: \<open>connectToHost\<close> on every path. It first closes the descriptor it was connected through. On
  success the object owns one descriptor, a new one; when no socket can be created the error is
  set; and when the connection is refused the object is as before (still naming the closed
  descriptor) although a new descriptor has been opened.\<close>

theorem connectToHost_result:
  assumes "net_calls N opened inbox hungup" and "connectToHost N h p (s, w) = (ok, s', w')"
  shows "if ok then \<exists>sock. 0 \<le> sint sock \<and> sock \<notin> opened w - tcp_fds s \<and> s' = s\<lparr>m_socket := sock\<rparr> \<and>
       opened w' = insert sock (opened w - tcp_fds s)
     else m_socket s' = m_socket s \<and>
       (m_error s' \<and> opened w' = opened w - tcp_fds s \<or>
        s' = s \<and> (\<exists>sock. 0 \<le> sint sock \<and> sock \<notin> opened w - tcp_fds s \<and>
          opened w' = insert sock (opened w - tcp_fds s)))"
  by (rule net_calls.connect_result[OF assms])

theorem connectToHost_result_witness:
  "\<exists>s' w'. connectToHost ref_net ''10.0.0.1'' 80 (tcp_new\<lparr>m_socket := 5\<rparr>, demo_world 6 False False [])
     = (True, s', w') \<and> set (rw_open w') = {m_socket s'} \<and> m_socket s' = 6"
proof -
  let ?s = "tcp_new\<lparr>m_socket := 5\<rparr>" and ?w = "demo_world 6 False False []"
  have close: "tcp_close ref_net Stream_All ?s ?w = ?w\<lparr>rw_open := []\<rparr>"
    by (simp add: tcp_close_def nativeSocket_def ref_net_def demo_world_def)
  have sock: "n_socket ref_net (?w\<lparr>rw_open := []\<rparr>) = (6, ?w\<lparr>rw_open := [6], rw_next := 7\<rparr>)"
    by (simp add: ref_net_def ref_open_def demo_world_def)
  have con: "n_connect ref_net t a (?w\<lparr>rw_open := [6], rw_next := 7\<rparr>) = (0, ?w\<lparr>rw_open := [6], rw_next := 7\<rparr>)" for t a
    by (simp add: ref_net_def ref_try_def demo_world_def)
  have c: "connectToHost ref_net ''10.0.0.1'' 80 (?s, ?w) = (True, ?s\<lparr>m_socket := 6\<rparr>, ?w\<lparr>rw_open := [6], rw_next := 7\<rparr>)"
    by (simp add: connectToHost_def isConnected_def close sock con)
  from connectToHost_result[OF rn.net_calls_axioms c] c show ?thesis by auto
qed

text \<open>A refused connection leaks its descriptor: it is still open when the object has been destroyed,
  and no object names it.\<close>

theorem failed_connect_leaks:
  assumes "net_calls N opened inbox hungup" and "\<not> isConnected s" and "n_socket N w = (sock, w1)"
    and "0 \<le> sint sock"
    and "sint (fst (n_connect N sock \<lparr>sin_addr = n_inet_addr N (c_str h), sin_port = n_htons N p\<rparr> w1)) < 0"
    and "connectToHost N h p (s, w) = (ok, s', w')" and "m_socket s \<noteq> sock"
  shows "\<not> ok \<and> s' = s \<and> sock \<notin> opened w \<and> sock \<in> opened (tcp_delete N s' w')"
  by (rule net_calls.failed_connect[OF assms])

theorem failed_connect_leaks_witness:
  "\<exists>s' w'. connectToHost ref_net ''10.0.0.1'' 80 (tcp_new, demo_world 6 False True []) = (False, s', w') \<and>
     6 \<in> set (rw_open (tcp_delete ref_net s' w'))"
proof -
  obtain ok s' w' where c: "connectToHost ref_net ''10.0.0.1'' 80 (tcp_new, demo_world 6 False True []) = (ok, s', w')"
    by (cases "connectToHost ref_net ''10.0.0.1'' 80 (tcp_new, demo_world 6 False True [])") auto
  have n: "n_socket ref_net (demo_world 6 False True []) = (6, (demo_world 6 False True [])\<lparr>rw_open := [6, 5], rw_next := 7\<rparr>)"
    by (simp add: ref_net_def ref_open_def demo_world_def)
  have "\<not> ok \<and> s' = tcp_new \<and> 6 \<notin> set (rw_open (demo_world 6 False True [])) \<and>
      6 \<in> set (rw_open (tcp_delete ref_net s' w'))"
    by (rule failed_connect_leaks[OF rn.net_calls_axioms _ n _ _ c])
       (simp_all add: tcp_new_def isConnected_def ref_net_def ref_try_def demo_world_def)
  then have ok: "ok = False" and leak: "6 \<in> set (rw_open (tcp_delete ref_net s' w'))" by blast+
  show ?thesis using c leak unfolding ok by blast
qed

text \<open>\<open>close\<close> leaves the descriptor in the object, so the destructor closes it again; when the system
  has given the number to a new socket in between, that one is closed under its owner.\<close>

theorem destructor_closes_stranger:
  assumes "net_calls N opened inbox hungup"
    and "n_socket N (tcp_close N how s w) = (t, w2)" and "t = m_socket s" and "0 \<le> sint t"
  shows "t \<in> opened w2 \<and> t \<notin> opened (tcp_delete N s w2)"
  by (rule net_calls.close_twice[OF assms])

theorem destructor_closes_stranger_witness:
  "5 \<in> set (rw_open (snd (n_socket ref_net (tcp_close ref_net Stream_All (tcp_new\<lparr>m_socket := 5\<rparr>) (demo_world 5 False False []))))) \<and>
   5 \<notin> set (rw_open (tcp_delete ref_net (tcp_new\<lparr>m_socket := 5\<rparr>)
     (snd (n_socket ref_net (tcp_close ref_net Stream_All (tcp_new\<lparr>m_socket := 5\<rparr>) (demo_world 5 False False []))))))"
proof (rule destructor_closes_stranger[OF rn.net_calls_axioms])
  let ?w = "tcp_close ref_net Stream_All (tcp_new\<lparr>m_socket := 5\<rparr>) (demo_world 5 False False [])"
  show "n_socket ref_net ?w = (5, snd (n_socket ref_net ?w))"
    by (simp add: ref_net_def ref_open_def demo_world_def tcp_close_def nativeSocket_def Let_def)
qed simp_all

end
