(* ===== verification/VariantLink.thy ===== *)
theory VariantLink
  imports SerializerProofs TcpSocket
begin

text \<open>
  Variants sent from one program to another: the values are pushed through the interface of
  \<open>src/src/IVariantSerializer.h\<close> on a \<open>ByteArraySerializer\<close>, its byte array is written to a socket
  with \<open>Socket::write\<close>, read from another with \<open>Socket::read\<close>, and popped there. One call of
  \<open>readBuffer\<close> may deliver any part of what was sent, so that the question is what the receiver makes of it.
\<close>

section \<open>The interface\<close>

text \<open>The two virtual functions of \<open>IVariantSerializer\<close>, and \<open>ByteArraySerializer\<close> as an implementation.\<close>

record 's ivariantserializer =
  iv_pushValue :: "'s \<Rightarrow> variant \<Rightarrow> 's option"
  iv_popValue :: "'s \<Rightarrow> variant outcome \<times> 's"

definition byteArraySerializer :: "serializer ivariantserializer" where
  "byteArraySerializer = \<lparr>iv_pushValue = pushValue, iv_popValue = popValue\<rparr>"

interpretation iv: variant_serializer "iv_pushValue byteArraySerializer" "iv_popValue byteArraySerializer" ser_holds ser_room
  by (simp add: byteArraySerializer_def ser.variant_serializer_axioms)

section \<open>Popping from a part of what was pushed\<close>

lemma push_all_extend: "push_all pushValue s vs = Some (SerializerProofs.extend s (enc_elems vs))"
  by (induction vs arbitrary: s) (simp_all add: pushValue_extend SerializerProofs.extend_def)

text \<open>The number of values whose encodings lie entirely within \<open>n\<close> bytes.\<close>

fun whole :: "nat \<Rightarrow> variant list \<Rightarrow> nat" where
  "whole n [] = 0"
| "whole n (v # vs) = (if length (enc v) \<le> n then Suc (whole (n - length (enc v)) vs) else 0)"

lemma whole_le: "whole n vs \<le> length vs"
  by (induction n vs rule: whole.induct) auto

lemma whole_all: "length (enc_elems vs) \<le> n \<Longrightarrow> whole n vs = length vs"
  by (induction n vs rule: whole.induct) auto

lemma pop_part:
  assumes "elems_ok vs" and "fits_elems vs" and "length (enc_elems vs) < 2 ^ 32"
    and "index_ok s" and "small s" and "unread s = take n (enc_elems vs)"
  shows "\<exists>s'. pop_many popValue (whole n vs) s = (Ok (map norm (take (whole n vs) vs)), s') \<and>
     (\<forall>w. fst (popValue s') \<noteq> Ok w)"
  using assms
proof (induction n vs arbitrary: s rule: whole.induct)
  case (1 n)
  then show ?case by (simp add: popValue_def available_zero)
next
  case (2 n v vs)
  then have v: "variant_ok v" "fits v" "elems_ok vs" "fits_elems vs" "length (enc v) < 2 ^ 32" "length (enc_elems vs) < 2 ^ 32"
    by simp_all
  show ?case
  proof (cases "length (enc v) \<le> n")
    case True
    then have "ready s (enc v) (take (n - length (enc v)) (enc_elems vs))"
      using "2.prems" by (simp add: ready_def)
    with parses_enc(1)[OF v(1,2)] ready_adv[of s "enc v" "[]"]
    have pop: "popValue s = (Ok (norm v), adv (length (enc v)) s)"
      and rest: "ready (adv (length (enc v)) s) [] (take (n - length (enc v)) (enc_elems vs))"
      using popValue_ready by simp_all
    from "2.IH"[OF True v(3,4,6), of "adv (length (enc v)) s"] rest obtain s' where
      "pop_many popValue (whole (n - length (enc v)) vs) (adv (length (enc v)) s) =
         (Ok (map norm (take (whole (n - length (enc v)) vs) vs)), s')" "\<forall>w. fst (popValue s') \<noteq> Ok w"
      by (auto simp: ready_def)
    with pop True show ?thesis by simp
  next
    case False
    then have "unread s = take n (enc v)" using "2.prems" by simp
    with truncated_pop[OF v(1,2,5) _ "2.prems"(4) this "2.prems"(5)] False show ?thesis by simp
  qed
qed

section \<open>Over a connection\<close>

context net_calls
begin

lemma received_prefix:
  assumes junk: "length junk = unat n" "unat n < 2 ^ 31" and got: "delivered N n st = take m data"
  shows "\<exists>st'. socket_read (tcp_readBuffer N) junk n st = (Some \<lparr>ba_data = take m data\<rparr>, st')"
  using ss.read_got[OF junk, of st] got by auto

end

lemma send_bytes:
  assumes "push_all pushValue ser_new vs = Some s"
  shows "ba_data (ser_byteArray s) = enc_elems vs"
  using assms by (auto simp: push_all_extend ser_byteArray_def fresh_defs)

section \<open>Properties\<close>

text \<open>C11: values sent over a connection: when the bytes of a serialiser are written to a socket and the peer reads
  any first part of what \<open>send\<close> has accepted, the serialiser made from the bytes read gives back, in order and
  unchanged, exactly the values that have arrived in full, and refuses the next; when everything has arrived it
  gives back all of them.\<close>

theorem values_over_connection:
  assumes "net_calls N opened inbox hungup"
    and "list_all variant_ok vs" and "fits_elems vs" and "length (enc_elems vs) < 2 ^ 31"
    and "push_all (iv_pushValue byteArraySerializer) ser_new vs = Some s"
    and "socket_write (tcp_writeBuffer N) (ser_byteArray s) sender = (k, sender')"
    and "delivered N n receiver = take m (take (unat k) (ba_data (ser_byteArray s)))"
    and "length junk = unat n" and "unat n < 2 ^ 31"
  shows "\<exists>ba receiver' s'. socket_read (tcp_readBuffer N) junk n receiver = (Some ba, receiver') \<and>
     ba_data ba = delivered N n receiver \<and>
     (let got = whole (length (ba_data ba)) vs
      in pop_many (iv_popValue byteArraySerializer) got (ser_of ba) = (Ok (map norm (take got vs)), s') \<and>
         (\<forall>w. fst (iv_popValue byteArraySerializer s') \<noteq> Ok w) \<and>
         (length (ba_data ba) = length (ba_data (ser_byteArray s)) \<longrightarrow> got = length vs))"
proof -
  have data: "ba_data (ser_byteArray s) = enc_elems vs"
    using send_bytes[of vs s] assms(5) by (simp add: byteArraySerializer_def)
  let ?j = "min m (unat k)"
  let ?ba = "\<lparr>ba_data = take ?j (enc_elems vs)\<rparr>"
  have del: "delivered N n receiver = take ?j (enc_elems vs)" using assms(7) by (simp add: data)
  from net_calls.received_prefix[OF assms(1,8,9) del] obtain receiver' where
    r: "socket_read (tcp_readBuffer N) junk n receiver = (Some ?ba, receiver')" by blast
  let ?n = "length (take ?j (enc_elems vs))"
  have ser: "index_ok (ser_of ?ba)" "small (ser_of ?ba)" "unread (ser_of ?ba) = take ?n (enc_elems vs)"
    using assms(4) fresh_of[of "take ?j (enc_elems vs)"] by (simp_all add: min_def)
  have len: "length (enc_elems vs) < 2 ^ 32" using assms(4) by simp
  have ok: "elems_ok vs" using assms(2) by (simp add: elems_ok_list_all)
  from pop_part[OF ok assms(3) len ser] obtain s' where
    "pop_many popValue (whole ?n vs) (ser_of ?ba) = (Ok (map norm (take (whole ?n vs) vs)), s')"
    "\<forall>w. fst (popValue s') \<noteq> Ok w" by blast
  moreover have "?n = length (enc_elems vs) \<longrightarrow> whole ?n vs = length vs"
    by (intro impI whole_all) (simp only: le_refl)
  ultimately show ?thesis
    using r by (intro exI[of _ ?ba] exI[of _ receiver'] exI[of _ s'])
      (simp add: byteArraySerializer_def data del Let_def del: length_take)
qed

theorem values_over_connection_witness:
  "\<exists>s ba receiver' s'. push_all (iv_pushValue byteArraySerializer) ser_new [VInteger 7, VNull] = Some s \<and>
     socket_read (tcp_readBuffer ref_net) (replicate 9 CHR 0x00) 9
       (tcp_new\<lparr>m_socket := 5\<rparr>, demo_world 6 False False (take 5 (ba_data (ser_byteArray s)))) = (Some ba, receiver') \<and>
     pop_many (iv_popValue byteArraySerializer) 1 (ser_of ba) = (Ok [VInteger 7], s') \<and>
     fst (iv_popValue byteArraySerializer s') \<noteq> Ok VNull"
proof -
  let ?vs = "[VInteger 7, VNull]" and ?sender = "(tcp_new\<lparr>m_socket := 5\<rparr>, demo_world 6 False False [])"
  obtain s where s: "push_all (iv_pushValue byteArraySerializer) ser_new ?vs = Some s"
    using push_all_extend[of ser_new ?vs] by (simp only: byteArraySerializer_def ivariantserializer.simps)
  have data: "ba_data (ser_byteArray s) = enc_elems ?vs"
    using send_bytes[of ?vs s] s by (simp add: byteArraySerializer_def)
  let ?recv = "(tcp_new\<lparr>m_socket := 5\<rparr>, demo_world 6 False False (take 5 (ba_data (ser_byteArray s))))"
  obtain sender' where wrote: "socket_write (tcp_writeBuffer ref_net) (ser_byteArray s) ?sender = (6, sender')"
    by (simp add: socket_write_def tcp_writeBuffer_def isConnected_def tcp_new_def ref_net_def ba_constData_def ba_size_def data
        bytes_int_def Let_def)
  have recv: "delivered ref_net 9 ?recv = take 5 (take (unat (6 :: size_t)) (ba_data (ser_byteArray s)))"
    by (simp add: delivered_def isConnected_def tcp_new_def nativeSocket_def ref_net_def ref_recv_def demo_world_def data
        bytes_int_def Let_def)
  have pre: "list_all variant_ok ?vs" "fits_elems ?vs" "length (enc_elems ?vs) < 2 ^ 31"
    by (simp_all add: bytes_int_def)
  have junk: "length (replicate 9 CHR 0x00) = unat (9 :: size_t)" "unat (9 :: size_t) < 2 ^ 31" by simp_all
  from values_over_connection[OF rn.net_calls_axioms pre s wrote recv junk] obtain ba receiver' s' where
    r: "socket_read (tcp_readBuffer ref_net) (replicate 9 CHR 0x00) 9 ?recv = (Some ba, receiver')"
      "ba_data ba = delivered ref_net 9 ?recv"
      "pop_many (iv_popValue byteArraySerializer) (whole (length (ba_data ba)) ?vs) (ser_of ba) =
         (Ok (map norm (take (whole (length (ba_data ba)) ?vs) ?vs)), s')"
      "\<forall>w. fst (iv_popValue byteArraySerializer s') \<noteq> Ok w"
    unfolding Let_def by blast
  have "ba_data ba = take 5 (take (unat (6 :: size_t)) (enc_elems ?vs))" using r(2) recv by (simp only: data)
  then have "length (ba_data ba) = 5" by (simp add: bytes_int_def)
  then have "whole (length (ba_data ba)) ?vs = 1" by (simp add: bytes_int_def)
  with r(3) have "pop_many (iv_popValue byteArraySerializer) 1 (ser_of ba) = (Ok [VInteger 7], s')" by simp
  with s r(1,4) show ?thesis by blast
qed

end
