(* ===== verification/TcpServer.thy ===== *)
theory TcpServer
  imports TcpSocket
begin

text \<open>
  Model of \<open>src/src/TcpServer.h\<close> and \<open>src/src/TcpServer.cpp\<close> (the POSIX build), on the
  calls of \<open>Net\<close> and the sockets of \<open>TcpSocket\<close>. As there, the accessors' use of the mutex
  leaves no trace in a sequential model.
\<close>

section \<open>State\<close>

record tcpserver =
  m_pServerSocket :: "tcpsocket option"
  m_maxPendingConnections :: int32

definition server_new :: tcpserver where
  "server_new = \<lparr>m_pServerSocket = None, m_maxPendingConnections = 0\<rparr>"

definition server_delete :: "'w net \<Rightarrow> tcpserver \<Rightarrow> 'w \<Rightarrow> 'w" where
  "server_delete N v w = (case m_pServerSocket v of None \<Rightarrow> w | Some s \<Rightarrow> tcp_delete N s w)"

definition setMaxPendingConnections :: "int32 \<Rightarrow> tcpserver \<Rightarrow> tcpserver" where
  "setMaxPendingConnections c v = v\<lparr>m_maxPendingConnections := c\<rparr>"

definition maxPendingConnections :: "tcpserver \<Rightarrow> int32" where
  "maxPendingConnections v = m_maxPendingConnections v"

definition isListening :: "tcpserver \<Rightarrow> bool" where
  "isListening v \<longleftrightarrow> m_pServerSocket v \<noteq> None"

definition server_nativeSocket :: "tcpserver \<Rightarrow> fd" where
  "server_nativeSocket v = (case m_pServerSocket v of None \<Rightarrow> - 1 | Some s \<Rightarrow> nativeSocket s)"

section \<open>Operations\<close>

definition server_listen :: "'w net \<Rightarrow> string \<Rightarrow> port \<Rightarrow> tcpserver \<times> 'w \<Rightarrow> bool \<times> tcpserver \<times> 'w" where
  "server_listen N hostName p st = (case st of (v, w) \<Rightarrow>
     if isListening v then (False, v, w)
     else (case n_socket N w of (sock, w1) \<Rightarrow>
       if sint sock < 0 then (False, v, w1)
       else let server = \<lparr>sin_addr = (if hostName = [] then 0 else n_inet_addr N (c_str hostName)),
                          sin_port = n_htons N p\<rparr>
         in case n_bind N sock server w1 of (r, w2) \<Rightarrow>
           if sint r < 0 then (False, v, n_close N sock w2)
           else let backlog = (if 0 < sint (m_maxPendingConnections v) then m_maxPendingConnections v
                               else n_SOMAXCONN N)
             in case n_listen N sock backlog w2 of (r', w3) \<Rightarrow>
               if r' \<noteq> 0 then (False, v, n_close N sock w3)
               else (case tcp_of N sock w3 of (s, w4) \<Rightarrow> (True, v\<lparr>m_pServerSocket := Some s\<rparr>, w4))))"

definition server_listen_any :: "'w net \<Rightarrow> port \<Rightarrow> tcpserver \<times> 'w \<Rightarrow> bool \<times> tcpserver \<times> 'w" where
  "server_listen_any N p st = server_listen N [] p st"

text \<open>
  \<open>FD_SET\<close> writes past the end of a \<open>fd_set\<close> for descriptors from \<open>FD_SETSIZE\<close> on:
  undefined behaviour, the outer \<open>None\<close>. The inner one is the null pointer.
\<close>

definition FD_SETSIZE :: int where
  "FD_SETSIZE = 1024"

definition server_accept :: "'w net \<Rightarrow> tcpserver \<Rightarrow> 'w \<Rightarrow> (tcpsocket option \<times> 'w) option" where
  "server_accept N v w =
     (if \<not> isListening v then Some (None, w)
      else let sock = server_nativeSocket v
        in if sint sock < 0 then Some (None, w)
           else if FD_SETSIZE \<le> sint sock then None
           else (case n_select N sock w of (n, w1) \<Rightarrow>
             if sint n \<le> 0 then Some (None, w1)
             else (case n_accept N sock w1 of (clientSock, client, w2) \<Rightarrow>
               if sint clientSock < 0 then Some (None, w2)
               else let clientIp = n_inet_ntoa N (sin_addr client); clientPort = n_ntohs N (sin_port client)
                 in case tcp_of N clientSock w2 of (s, w3) \<Rightarrow>
                   Some (Some (setPeerPort clientPort (setPeerAddr clientIp s)), w3))))"

definition server_close :: "'w net \<Rightarrow> tcpserver \<times> 'w \<Rightarrow> tcpserver \<times> 'w" where
  "server_close N st = (case st of (v, w) \<Rightarrow>
     (case m_pServerSocket v of
        None \<Rightarrow> (v, w)
      | Some s \<Rightarrow> (v\<lparr>m_pServerSocket := None\<rparr>, tcp_delete N s (tcp_close N Stream_All s w))))"

section \<open>Descriptors\<close>

text \<open>What the server owns: the descriptor of its socket.\<close>

definition server_fds :: "tcpserver \<Rightarrow> fd set" where
  "server_fds v = (case m_pServerSocket v of None \<Rightarrow> {} | Some s \<Rightarrow> {m_socket s})"

context net_calls
begin

lemma listen_result:
  assumes "server_listen N h p (v, w) = (ok, v', w')"
  shows "if ok then \<not> isListening v \<and> isListening v' \<and>
       (\<exists>s. 0 \<le> sint s \<and> s \<notin> opened w \<and> opened w' = insert s (opened w) \<and> server_nativeSocket v' = s)
     else v' = v \<and> opened w' = opened w"
proof (cases "isListening v")
  case True
  then show ?thesis using assms by (simp add: server_listen_def)
next
  case False
  obtain sock w1 where sock: "n_socket N w = (sock, w1)" by (cases "n_socket N w")
  show ?thesis
  proof (cases "sint sock < 0")
    case True
    then show ?thesis using assms sock False socket_fd[OF sock] by (simp add: server_listen_def)
  next
    case fresh: False
    let ?a = "\<lparr>sin_addr = (if h = [] then 0 else n_inet_addr N (c_str h)), sin_port = n_htons N p\<rparr>"
    let ?b = "if 0 < sint (m_maxPendingConnections v) then m_maxPendingConnections v else n_SOMAXCONN N"
    obtain r w2 where bind: "n_bind N sock ?a w1 = (r, w2)" by (cases "n_bind N sock ?a w1")
    obtain r' w3 where lis: "n_listen N sock ?b w2 = (r', w3)" by (cases "n_listen N sock ?b w2")
    have fds: "sock \<notin> opened w" "opened w1 = insert sock (opened w)" "opened w2 = opened w1" "opened w3 = opened w2"
      using socket_fd[OF sock] fresh bind_fd[OF bind] listen_fd[OF lis] by simp_all
    show ?thesis
      using assms False sock fresh bind lis fds tcp_of_fd[of sock w3]
      by (auto simp: server_listen_def Let_def close_fd isListening_def server_nativeSocket_def nativeSocket_def
          tcp_of_def tcp_new_def rcvtimeo_fd split: if_splits)
  qed
qed

lemma accept_result:
  "case server_accept N v w of
     None \<Rightarrow> isListening v \<and> FD_SETSIZE \<le> sint (server_nativeSocket v)
   | Some (None, w') \<Rightarrow> opened w' = opened w
   | Some (Some s, w') \<Rightarrow> isListening v \<and> 0 \<le> sint (m_socket s) \<and> m_socket s \<notin> opened w \<and>
        opened w' = insert (m_socket s) (opened w) \<and> \<not> m_error s \<and>
        (\<exists>u client u'. n_accept N (server_nativeSocket v) u = (m_socket s, client, u') \<and>
           peerAddr s = n_inet_ntoa N (sin_addr client) \<and> peerPort s = Some (n_ntohs N (sin_port client)))"
proof -
  let ?l = "server_nativeSocket v"
  obtain n w1 where sel: "n_select N ?l w = (n, w1)" by (cases "n_select N ?l w")
  obtain cs client w2 where acc: "n_accept N ?l w1 = (cs, client, w2)" by (cases "n_accept N ?l w1")
  have fds: "opened w1 = opened w"
    "if 0 \<le> sint cs then cs \<notin> opened w1 \<and> opened w2 = insert cs (opened w1) else opened w2 = opened w1"
    using select_fd[OF sel] accept_fd[OF acc] by simp_all
  consider "\<not> isListening v \<or> sint ?l < 0" | "isListening v" "FD_SETSIZE \<le> sint ?l"
    | "isListening v" "0 \<le> sint ?l" "sint ?l < FD_SETSIZE" by linarith
  then show ?thesis
  proof cases
    case 1
    then show ?thesis by (auto simp: server_accept_def)
  next
    case 2
    then show ?thesis by (simp add: server_accept_def FD_SETSIZE_def)
  next
    case 3
    show ?thesis
    proof (cases "0 < sint n \<and> 0 \<le> sint cs")
      case True
      with 3 have r: "server_accept N v w = Some (Some (setPeerPort (n_ntohs N (sin_port client))
          (setPeerAddr (n_inet_ntoa N (sin_addr client)) (tcp_new\<lparr>m_socket := cs\<rparr>))), n_rcvtimeo N cs w2)"
        using sel acc by (simp add: server_accept_def Let_def tcp_of_def)
      show ?thesis
        using True 3 fds acc unfolding r
        by (auto simp: tcp_new_def rcvtimeo_fd setPeerAddr_def setPeerPort_def peerAddr_def peerPort_def)
    next
      case False
      with 3 have "\<exists>w'. server_accept N v w = Some (None, w') \<and> opened w' = opened w"
        using sel acc fds by (auto simp: server_accept_def Let_def split: if_splits)
      then show ?thesis by auto
    qed
  qed
qed

lemma close_result:
  "server_close N (v, w) = (v', w') \<Longrightarrow> \<not> isListening v' \<and> opened w' = opened w - server_fds v"
  by (auto simp: server_close_def server_fds_def isListening_def tcp_delete_fd tcp_close_fd split: option.splits)

lemma listen_then_close:
  assumes "server_listen N h p (v, w) = (True, v', w')" and "server_close N (v', w') = (v'', w'')"
  shows "\<not> isListening v'' \<and> opened w'' = opened w \<and> maxPendingConnections v'' = maxPendingConnections v"
proof -
  from listen_result[OF assms(1)] obtain s where s: "s \<notin> opened w" "opened w' = insert s (opened w)"
      "server_nativeSocket v' = s" "isListening v'" by auto
  then have "server_fds v' = {s}"
    by (auto simp: server_fds_def server_nativeSocket_def nativeSocket_def isListening_def)
  moreover have "maxPendingConnections v'' = maxPendingConnections v"
    using assms by (auto simp: server_listen_def server_close_def maxPendingConnections_def tcp_of_def Let_def split: if_splits prod.splits option.splits)
  ultimately show ?thesis using close_result[OF assms(2)] s by auto
qed

end

section \<open>Properties\<close>

text \<open>C27: \<open>listen\<close> on every path: when it succeeds the server was not listening and now owns exactly one
  descriptor, a new one; when it fails the server is unchanged and every descriptor opened on the
  way has been closed again.\<close>

theorem server_listen_owns:
  assumes "net_calls N opened inbox hungup" and "server_listen N h p (v, w) = (ok, v', w')"
  shows "if ok then \<not> isListening v \<and> isListening v' \<and>
       (\<exists>s. 0 \<le> sint s \<and> s \<notin> opened w \<and> opened w' = insert s (opened w) \<and> server_nativeSocket v' = s)
     else v' = v \<and> opened w' = opened w"
  by (rule net_calls.listen_result[OF assms])

theorem server_listen_owns_witness:
  "server_listen ref_net [] 80 (server_new, demo_world 6 False True []) =
     (False, server_new, (demo_world 6 False True [])\<lparr>rw_next := 7\<rparr>) \<and> 5 \<in> set (rw_open ((demo_world 6 False True [])\<lparr>rw_next := 7\<rparr>))"
proof -
  have r: "server_listen ref_net [] 80 (server_new, demo_world 6 False True []) =
     (False, server_new, (demo_world 6 False True [])\<lparr>rw_next := 7\<rparr>)"
    by (simp add: server_listen_def server_new_def isListening_def ref_net_def ref_open_def ref_try_def demo_world_def Let_def)
  then show ?thesis
    using server_listen_owns[OF rn.net_calls_axioms r] by (simp add: demo_world_def)
qed

text \<open>\<open>accept\<close> on every path: undefined exactly when the listening descriptor does not fit a
  \<open>fd_set\<close>; a null pointer leaves no descriptor behind; and a socket owns exactly the new
  descriptor of the connection, with the address and port of the peer in host byte order.\<close>

theorem server_accept_owns:
  assumes "net_calls N opened inbox hungup"
  shows "case server_accept N v w of
     None \<Rightarrow> isListening v \<and> FD_SETSIZE \<le> sint (server_nativeSocket v)
   | Some (None, w') \<Rightarrow> opened w' = opened w
   | Some (Some s, w') \<Rightarrow> isListening v \<and> 0 \<le> sint (m_socket s) \<and> m_socket s \<notin> opened w \<and>
        opened w' = insert (m_socket s) (opened w) \<and> \<not> m_error s \<and>
        (\<exists>u client u'. n_accept N (server_nativeSocket v) u = (m_socket s, client, u') \<and>
           peerAddr s = n_inet_ntoa N (sin_addr client) \<and> peerPort s = Some (n_ntohs N (sin_port client)))"
  by (rule net_calls.accept_result[OF assms])

theorem server_accept_owns_witness:
  "\<exists>s w'. server_accept ref_net (server_new\<lparr>m_pServerSocket := Some (tcp_new\<lparr>m_socket := 5\<rparr>)\<rparr>) (demo_world 6 False False [])
     = Some (Some s, w') \<and> m_socket s = 6 \<and> set (rw_open w') = {6, 5}"
proof -
  let ?v = "server_new\<lparr>m_pServerSocket := Some (tcp_new\<lparr>m_socket := 5\<rparr>)\<rparr>" and ?w = "demo_world 6 False False []"
  have "\<exists>s w'. server_accept ref_net ?v ?w = Some (Some s, w') \<and> m_socket s = 6"
    by (simp add: server_accept_def isListening_def server_nativeSocket_def nativeSocket_def FD_SETSIZE_def
        ref_net_def ref_open_def demo_world_def Let_def tcp_of_def setPeerAddr_def setPeerPort_def tcp_new_def)
  then obtain s w' where r: "server_accept ref_net ?v ?w = Some (Some s, w')" "m_socket s = 6" by blast
  then show ?thesis
    using server_accept_owns[OF rn.net_calls_axioms, of ?v ?w] by (auto simp: demo_world_def)
qed

text \<open>A server that has started to listen and is closed gives every descriptor back and can listen again.\<close>

theorem server_listen_close:
  assumes "net_calls N opened inbox hungup" and "server_listen N h p (v, w) = (True, v', w')"
    and "server_close N (v', w') = (v'', w'')"
  shows "\<not> isListening v'' \<and> opened w'' = opened w \<and> maxPendingConnections v'' = maxPendingConnections v"
  by (rule net_calls.listen_then_close[OF assms])

theorem server_listen_close_witness:
  "\<exists>v' w' v'' w''. server_listen ref_net ''10.0.0.1'' 80 (server_new, demo_world 6 False False []) = (True, v', w') \<and>
     server_close ref_net (v', w') = (v'', w'') \<and> set (rw_open w'') = {5}"
proof -
  let ?w = "demo_world 6 False False []"
  have "\<exists>v' w'. server_listen ref_net ''10.0.0.1'' 80 (server_new, ?w) = (True, v', w')"
    by (simp add: server_listen_def server_new_def isListening_def ref_net_def ref_open_def ref_try_def
        demo_world_def Let_def tcp_of_def)
  then obtain v' w' where l: "server_listen ref_net ''10.0.0.1'' 80 (server_new, ?w) = (True, v', w')" by blast
  obtain v'' w'' where c: "server_close ref_net (v', w') = (v'', w'')" by (cases "server_close ref_net (v', w')") auto
  show ?thesis
    using server_listen_close[OF rn.net_calls_axioms l c] l c by (auto simp: demo_world_def)
qed

end
