(* ===== verification/ServerThreads.thy ===== *)
theory ServerThreads
  imports TcpServer Mutex
begin

text \<open>
  Model of \<open>src/src/TcpServer.cpp\<close> for several threads: one server, called by any number of them.
  Every thread runs one operation at a time, its program counter names the statement it executes
  next, and the threads interleave between statements; what the rest of the program does to the
  world of the system calls may happen at any time. The server's \<open>m_mutex\<close> and the mutex of the
  \<open>TcpSocket\<close> it points to are those of \<open>Mutex\<close>, and a blocked statement has no step. The sockets the
  server makes for listening live on a heap, so that a pointer may outlive its object: using it
  then is undefined behaviour, recorded in \<open>sv_ub\<close>, and nothing happens after it.
\<close>

section \<open>State\<close>

record 'm sockobj =
  o_data :: tcpsocket
  o_mutex :: 'm

datatype server_op = OpListen string port | OpAccept | OpClose | OpIsListening | OpSetMax int32

datatype server_ret = RDone | RBool bool | RSock "tcpsocket option"

text \<open>The caller of \<open>TcpServer::isListening\<close>, and the caller of \<open>TcpSocket::nativeSocket\<close>.\<close>

datatype asker = ForListen string port | ForAccept | ForCaller

datatype getter = ForNative | ForClose | ForDelete

datatype spc = Rest | Returned server_ret
  | IsLock asker | IsTest asker | IsUnlock asker bool
  | LsSocket string port | LsBind string port fd | LsBacklog fd | LsMax fd | LsListen int32 fd
  | LsFail fd | LsLock fd | LsNew fd | LsUnlock
  | NsLock | NsTest | NsUnlock fd
  | AcSelect fd | AcAccept fd
  | ClLock | ClTest | ClNull | ClUnlock
  | TsLock getter nat | TsRead getter nat | TsUnlock getter nat fd
  | TcShutdown getter nat fd | TcClose getter nat fd
  | DtClose nat | DtFree nat
  | MxStore int32

datatype server_ub = Dangling | FdSetOverflow

record ('m, 'w) srv =
  sv_mutex :: 'm
  sv_ptr :: "nat option"
  sv_max :: int32
  sv_heap :: "'m sockobj option list"
  sv_world :: 'w
  sv_pcs :: "spc list"
  sv_ub :: "server_ub option"

definition server_start :: "('m, 's) posix \<Rightarrow> nat \<Rightarrow> 'w \<Rightarrow> ('m, 'w) srv" where
  "server_start P n w = \<lparr>sv_mutex = mutex_new P, sv_ptr = None, sv_max = 0, sv_heap = [], sv_world = w,
     sv_pcs = replicate n Rest, sv_ub = None\<rparr>"

definition sgo :: "tid \<Rightarrow> spc \<Rightarrow> ('m, 'w) srv \<Rightarrow> ('m, 'w) srv" where
  "sgo t pc st = st\<lparr>sv_pcs := (sv_pcs st)[t := pc]\<rparr>"

definition obj_at :: "'m sockobj option list \<Rightarrow> nat \<Rightarrow> 'm sockobj option" where
  "obj_at heap a = (if a < length heap then heap ! a else None)"

section \<open>Statements\<close>

text \<open>\<open>MutexLocker locker(&m_mutex)\<close> of the server, and its destructor.\<close>

definition srv_lock :: "('m, 's) posix \<Rightarrow> tid \<Rightarrow> spc \<Rightarrow> ('m, 'w) srv \<Rightarrow> ('m, 'w) srv option" where
  "srv_lock P t pc st = (case locker_new P t (Some (sv_mutex st)) of
     Some (Some m) \<Rightarrow> Some (sgo t pc (st\<lparr>sv_mutex := m\<rparr>)) | _ \<Rightarrow> None)"

definition srv_unlock :: "('m, 's) posix \<Rightarrow> tid \<Rightarrow> spc \<Rightarrow> ('m, 'w) srv \<Rightarrow> ('m, 'w) srv option" where
  "srv_unlock P t pc st = (case locker_delete P t (Some (sv_mutex st)) of
     Some m \<Rightarrow> Some (sgo t pc (st\<lparr>sv_mutex := m\<rparr>)) | None \<Rightarrow> None)"

text \<open>A statement that uses the socket at an address, and the two lines of its \<open>MutexLocker\<close>.\<close>

definition with_obj :: "nat \<Rightarrow> ('m sockobj \<Rightarrow> ('m, 'w) srv option) \<Rightarrow> ('m, 'w) srv \<Rightarrow> ('m, 'w) srv option" where
  "with_obj a f st = (case obj_at (sv_heap st) a of
     None \<Rightarrow> Some (st\<lparr>sv_ub := Some Dangling\<rparr>) | Some ob \<Rightarrow> f ob)"

definition put_obj :: "nat \<Rightarrow> 'm sockobj \<Rightarrow> ('m, 'w) srv \<Rightarrow> ('m, 'w) srv" where
  "put_obj a ob st = st\<lparr>sv_heap := (sv_heap st)[a := Some ob]\<rparr>"

definition obj_lock :: "('m, 's) posix \<Rightarrow> tid \<Rightarrow> nat \<Rightarrow> spc \<Rightarrow> ('m, 'w) srv \<Rightarrow> ('m, 'w) srv option" where
  "obj_lock P t a pc st = with_obj a (\<lambda>ob. case locker_new P t (Some (o_mutex ob)) of
     Some (Some m) \<Rightarrow> Some (sgo t pc (put_obj a (ob\<lparr>o_mutex := m\<rparr>) st)) | _ \<Rightarrow> None) st"

definition obj_unlock :: "('m, 's) posix \<Rightarrow> tid \<Rightarrow> nat \<Rightarrow> spc \<Rightarrow> ('m, 'w) srv \<Rightarrow> ('m, 'w) srv option" where
  "obj_unlock P t a pc st = with_obj a (\<lambda>ob. case locker_delete P t (Some (o_mutex ob)) of
     Some m \<Rightarrow> Some (sgo t pc (put_obj a (ob\<lparr>o_mutex := m\<rparr>) st)) | None \<Rightarrow> None) st"

text \<open>A system call: it returns a result and changes the world.\<close>

definition sys :: "tid \<Rightarrow> ('w \<Rightarrow> 'r \<times> 'w) \<Rightarrow> ('r \<Rightarrow> spc) \<Rightarrow> ('m, 'w) srv \<Rightarrow> ('m, 'w) srv option" where
  "sys t call pc st = (case call (sv_world st) of (r, w) \<Rightarrow> Some (sgo t (pc r) (st\<lparr>sv_world := w\<rparr>)))"

text \<open>Where a thread goes on after \<open>isListening\<close> has returned, and after \<open>nativeSocket\<close> of the socket.\<close>

primrec asked :: "asker \<Rightarrow> bool \<Rightarrow> spc" where
  "asked (ForListen h p) b = (if b then Returned (RBool False) else LsSocket h p)"
| "asked ForAccept b = (if b then NsLock else Returned (RSock None))"
| "asked ForCaller b = Returned (RBool b)"

definition got_native :: "getter \<Rightarrow> nat \<Rightarrow> fd \<Rightarrow> spc" where
  "got_native g a sock = (if g = ForNative then NsUnlock sock else TcShutdown g a sock)"

text \<open>
  One statement of thread \<open>t\<close>. The accepted socket is not shared before \<open>accept\<close> returns, so that
  its construction is one step with the call.
\<close>

fun sexec :: "('m, 's) posix \<Rightarrow> 'w net \<Rightarrow> tid \<Rightarrow> spc \<Rightarrow> ('m, 'w) srv \<Rightarrow> ('m, 'w) srv option" where
  "sexec P N t Rest st = None"
| "sexec P N t (Returned r) st = None"
| "sexec P N t (IsLock q) st = srv_lock P t (IsTest q) st"
| "sexec P N t (IsTest q) st = Some (sgo t (IsUnlock q (sv_ptr st \<noteq> None)) st)"
| "sexec P N t (IsUnlock q b) st = srv_unlock P t (asked q b) st"
| "sexec P N t (LsSocket h p) st = sys t (n_socket N)
     (\<lambda>sock. if sint sock < 0 then Returned (RBool False) else LsBind h p sock) st"
| "sexec P N t (LsBind h p sock) st = sys t (n_bind N sock
       \<lparr>sin_addr = (if h = [] then 0 else n_inet_addr N (c_str h)), sin_port = n_htons N p\<rparr>)
     (\<lambda>r. if sint r < 0 then LsFail sock else LsBacklog sock) st"
| "sexec P N t (LsBacklog sock) st =
     Some (sgo t (if 0 < sint (sv_max st) then LsMax sock else LsListen (n_SOMAXCONN N) sock) st)"
| "sexec P N t (LsMax sock) st = Some (sgo t (LsListen (sv_max st) sock) st)"
| "sexec P N t (LsListen backlog sock) st = sys t (n_listen N sock backlog)
     (\<lambda>r. if r \<noteq> 0 then LsFail sock else LsLock sock) st"
| "sexec P N t (LsFail sock) st = sys t (\<lambda>w. ((), n_close N sock w)) (\<lambda>_. Returned (RBool False)) st"
| "sexec P N t (LsLock sock) st = srv_lock P t (LsNew sock) st"
| "sexec P N t (LsNew sock) st = (case tcp_of N sock (sv_world st) of (s, w) \<Rightarrow>
     Some (sgo t LsUnlock (st\<lparr>sv_ptr := Some (length (sv_heap st)),
       sv_heap := sv_heap st @ [Some \<lparr>o_data = s, o_mutex = mutex_new P\<rparr>], sv_world := w\<rparr>)))"
| "sexec P N t LsUnlock st = srv_unlock P t (Returned (RBool True)) st"
| "sexec P N t NsLock st = srv_lock P t NsTest st"
| "sexec P N t NsTest st =
     Some (sgo t (case sv_ptr st of None \<Rightarrow> NsUnlock (- 1) | Some a \<Rightarrow> TsLock ForNative a) st)"
| "sexec P N t (NsUnlock sock) st = srv_unlock P t (AcSelect sock) st"
| "sexec P N t (AcSelect sock) st =
     (if sint sock < 0 then Some (sgo t (Returned (RSock None)) st)
      else if FD_SETSIZE \<le> sint sock then Some (st\<lparr>sv_ub := Some FdSetOverflow\<rparr>)
      else sys t (n_select N sock) (\<lambda>n. if sint n \<le> 0 then Returned (RSock None) else AcAccept sock) st)"
| "sexec P N t (AcAccept sock) st = (case n_accept N sock (sv_world st) of (clientSock, client, w) \<Rightarrow>
     if sint clientSock < 0 then Some (sgo t (Returned (RSock None)) (st\<lparr>sv_world := w\<rparr>))
     else let clientIp = n_inet_ntoa N (sin_addr client); clientPort = n_ntohs N (sin_port client)
       in case tcp_of N clientSock w of (s, w') \<Rightarrow>
         Some (sgo t (Returned (RSock (Some (setPeerPort clientPort (setPeerAddr clientIp s))))) (st\<lparr>sv_world := w'\<rparr>)))"
| "sexec P N t ClLock st = srv_lock P t ClTest st"
| "sexec P N t ClTest st =
     Some (sgo t (case sv_ptr st of None \<Rightarrow> ClUnlock | Some a \<Rightarrow> TsLock ForClose a) st)"
| "sexec P N t (TsLock g a) st = obj_lock P t a (TsRead g a) st"
| "sexec P N t (TsRead g a) st = with_obj a (\<lambda>ob. Some (sgo t (TsUnlock g a (m_socket (o_data ob))) st)) st"
| "sexec P N t (TsUnlock g a sock) st = obj_unlock P t a (got_native g a sock) st"
| "sexec P N t (TcShutdown g a sock) st =
     sys t (\<lambda>w. ((), n_shutdown N sock (shutdown_how Stream_All) w)) (\<lambda>_. TcClose g a sock) st"
| "sexec P N t (TcClose g a sock) st = sys t (\<lambda>w. ((), n_close N sock w))
     (\<lambda>_. if g = ForClose then TsLock ForDelete a else DtClose a) st"
| "sexec P N t (DtClose a) st =
     with_obj a (\<lambda>ob. sys t (\<lambda>w. ((), n_close N (m_socket (o_data ob)) w)) (\<lambda>_. DtFree a) st) st"
| "sexec P N t (DtFree a) st = with_obj a (\<lambda>ob. Some (sgo t ClNull (st\<lparr>sv_heap := (sv_heap st)[a := None]\<rparr>))) st"
| "sexec P N t ClNull st = Some (sgo t ClUnlock (st\<lparr>sv_ptr := None\<rparr>))"
| "sexec P N t ClUnlock st = srv_unlock P t (Returned RDone) st"
| "sexec P N t (MxStore c) st = Some (sgo t (Returned RDone) (st\<lparr>sv_max := c\<rparr>))"

primrec sentry :: "server_op \<Rightarrow> spc" where
  "sentry (OpListen h p) = IsLock (ForListen h p)"
| "sentry OpAccept = IsLock ForAccept"
| "sentry OpClose = ClLock"
| "sentry OpIsListening = IsLock ForCaller"
| "sentry (OpSetMax c) = MxStore c"

text \<open>
  A thread that runs nothing calls an operation, a thread executes its next statement, or something
  happens elsewhere, in the program or on the network, that changes the world.
\<close>

datatype 'w sevent = Begin tid server_op | Stmt tid | Elsewhere 'w

definition resting :: "spc \<Rightarrow> bool" where
  "resting pc \<longleftrightarrow> (case pc of Rest \<Rightarrow> True | Returned _ \<Rightarrow> True | _ \<Rightarrow> False)"

fun sfire :: "('m, 's) posix \<Rightarrow> 'w net \<Rightarrow> 'w sevent \<Rightarrow> ('m, 'w) srv \<Rightarrow> ('m, 'w) srv option" where
  "sfire P N (Begin t opn) st = (if sv_ub st = None \<and> t < length (sv_pcs st) \<and> resting (sv_pcs st ! t)
     then Some (sgo t (sentry opn) st) else None)"
| "sfire P N (Stmt t) st = (if sv_ub st = None \<and> t < length (sv_pcs st) then sexec P N t (sv_pcs st ! t) st else None)"
| "sfire P N (Elsewhere w) st = (if sv_ub st = None then Some (st\<lparr>sv_world := w\<rparr>) else None)"

primrec srun :: "('m, 's) posix \<Rightarrow> 'w net \<Rightarrow> 'w sevent list \<Rightarrow> ('m, 'w) srv \<Rightarrow> ('m, 'w) srv option" where
  "srun P N [] st = Some st"
| "srun P N (e # es) st = (case sfire P N e st of None \<Rightarrow> None | Some st' \<Rightarrow> srun P N es st')"

end
