(* ===== verification/ServerThreadsInv.thy ===== *)
theory ServerThreadsInv
  imports ServerThreads
begin

text \<open>
  What holds of \<open>ServerThreads\<close> in every interleaving: the invariant of the server's mutex, of its
  pointer and of the mutex of the socket behind it; that every operation comes to an end; and who
  owns the sockets that \<open>listen\<close> makes.
\<close>

section \<open>Invariant\<close>

text \<open>Statements executed with the server's mutex held.\<close>

definition scrit :: "spc \<Rightarrow> bool" where
  "scrit pc \<longleftrightarrow> (case pc of
     IsTest _ \<Rightarrow> True | IsUnlock _ _ \<Rightarrow> True | LsNew _ \<Rightarrow> True | LsUnlock \<Rightarrow> True
   | NsTest \<Rightarrow> True | NsUnlock _ \<Rightarrow> True | ClTest \<Rightarrow> True | ClNull \<Rightarrow> True | ClUnlock \<Rightarrow> True
   | TsLock _ _ \<Rightarrow> True | TsRead _ _ \<Rightarrow> True | TsUnlock _ _ _ \<Rightarrow> True
   | TcShutdown _ _ _ \<Rightarrow> True | TcClose _ _ _ \<Rightarrow> True | DtClose _ \<Rightarrow> True | DtFree _ \<Rightarrow> True
   | _ \<Rightarrow> False)"

text \<open>The socket a statement uses, and whether its thread is inside the socket's own mutex.\<close>

definition uses :: "spc \<Rightarrow> nat option" where
  "uses pc = (case pc of
     TsLock _ a \<Rightarrow> Some a | TsRead _ a \<Rightarrow> Some a | TsUnlock _ a _ \<Rightarrow> Some a
   | TcShutdown _ a _ \<Rightarrow> Some a | TcClose _ a _ \<Rightarrow> Some a | DtClose a \<Rightarrow> Some a | DtFree a \<Rightarrow> Some a
   | _ \<Rightarrow> None)"

definition inner :: "spc \<Rightarrow> nat option" where
  "inner pc = (case pc of TsRead _ a \<Rightarrow> Some a | TsUnlock _ a _ \<Rightarrow> Some a | _ \<Rightarrow> None)"

lemmas spc_simps = scrit_def uses_def inner_def

lemma outside_uses: "\<not> scrit pc \<Longrightarrow> uses pc = None \<and> inner pc = None \<and> pc \<noteq> ClNull"
  by (cases pc) (simp_all add: spc_simps)

lemma asked_outside [simp]: "\<not> scrit (asked q b)"
  by (cases q) (auto simp: scrit_def)

lemma obj_at_update [simp]:
  "a < length heap \<Longrightarrow> obj_at (heap[a := ob]) b = (if b = a then ob else obj_at heap b)"
  "obj_at (heap @ [ob]) b = (if b = length heap then ob else obj_at heap b)"
  by (auto simp: obj_at_def nth_append)

lemma obj_at_bound: "obj_at heap a = Some ob \<Longrightarrow> a < length heap"
  by (auto simp: obj_at_def split: if_splits)

context posix_sync
begin

definition unlocked :: "'m sockobj \<Rightarrow> bool" where
  "unlocked ob \<longleftrightarrow> owner (o_mutex ob) = None"

text \<open>What the thread that holds the server's mutex knows of the pointer, the heap and the sockets.\<close>

definition srv_knows :: "tid \<Rightarrow> spc \<Rightarrow> nat option \<Rightarrow> 'm sockobj option list \<Rightarrow> bool" where
  "srv_knows t pc ptr heap \<longleftrightarrow>
     (\<forall>a. uses pc = Some a \<longrightarrow> ptr = Some a) \<and>
     (pc \<noteq> ClNull \<longrightarrow> (\<forall>a. ptr = Some a \<longrightarrow> obj_at heap a \<noteq> None)) \<and>
     (\<forall>a ob. obj_at heap a = Some ob \<longrightarrow>
        (if inner pc = Some a then owner (o_mutex ob) = Some t \<and> depth (o_mutex ob) = 1 else unlocked ob))"

definition srv_inv :: "('m, 'w) srv \<Rightarrow> bool" where
  "srv_inv st \<longleftrightarrow>
     (\<forall>t < length (sv_pcs st). scrit (sv_pcs st ! t) \<longleftrightarrow> owner (sv_mutex st) = Some t) \<and>
     (case owner (sv_mutex st) of
        None \<Rightarrow> srv_knows 0 Rest (sv_ptr st) (sv_heap st)
      | Some t \<Rightarrow> t < length (sv_pcs st) \<and> depth (sv_mutex st) = 1 \<and>
          srv_knows t (sv_pcs st ! t) (sv_ptr st) (sv_heap st)) \<and>
     sv_ub st \<noteq> Some Dangling"

lemma knows_outside: "\<not> scrit pc \<Longrightarrow> srv_knows t pc ptr heap = srv_knows u Rest ptr heap"
  using outside_uses[of pc] by (simp add: srv_knows_def spc_simps)

lemma srv_inv_init: "srv_inv (server_start P n w)"
  using init_mutex by (simp add: srv_inv_def server_start_def mutex_new_def srv_knows_def obj_at_def spc_simps)

lemma srv_lock_inv:
  assumes inv: "srv_inv st" and t: "t < length (sv_pcs st)" and into: "srv_lock P t pc st = Some st'"
    and out: "\<not> scrit (sv_pcs st ! t)" and crit: "scrit pc" "uses pc = None" "inner pc = None" "pc \<noteq> ClNull"
  shows "srv_inv st'"
proof -
  obtain m where m: "p_mutex_lock P t (sv_mutex st) = Some m" and st': "st' = sgo t pc (st\<lparr>sv_mutex := m\<rparr>)"
    using into by (auto simp: srv_lock_def locker_new_def mutex_lock_def split: option.splits)
  have "owner (sv_mutex st) \<noteq> Some t" using inv t out by (simp add: srv_inv_def)
  then have own: "owner (sv_mutex st) = None" "owner m = Some t" "depth m = 1" using lock_owner[OF m] by auto
  have "srv_knows t pc (sv_ptr st) (sv_heap st)"
    using inv own(1) crit by (simp add: srv_inv_def srv_knows_def spc_simps)
  then show ?thesis
    using inv t crit own by (auto simp: st' srv_inv_def sgo_def nth_list_update)
qed

lemma srv_unlock_inv:
  assumes inv: "srv_inv st" and t: "t < length (sv_pcs st)" and out: "srv_unlock P t pc st = Some st'"
    and crit: "scrit (sv_pcs st ! t)" "uses (sv_pcs st ! t) = None" "inner (sv_pcs st ! t) = None" "sv_pcs st ! t \<noteq> ClNull"
    and pc: "\<not> scrit pc"
  shows "srv_inv st'"
proof -
  have st': "st' = sgo t pc (st\<lparr>sv_mutex := p_mutex_unlock P t (sv_mutex st)\<rparr>)"
    using out by (simp add: srv_unlock_def locker_delete_def mutex_unlock_def)
  have own: "owner (sv_mutex st) = Some t" "depth (sv_mutex st) = 1"
    using inv t crit(1) by (auto simp: srv_inv_def)
  then have none: "owner (p_mutex_unlock P t (sv_mutex st)) = None" by (rule unlock_last)
  have "srv_knows 0 Rest (sv_ptr st) (sv_heap st)"
    using inv own(1) crit by (simp add: srv_inv_def srv_knows_def spc_simps)
  then show ?thesis
    using inv t pc own none by (auto simp: st' srv_inv_def sgo_def nth_list_update)
qed

text \<open>A statement that keeps the server's mutex as it is.\<close>

lemma srv_local_inv:
  assumes inv: "srv_inv st" and t: "t < length (sv_pcs st)"
    and st': "st' = sgo t pc (st\<lparr>sv_ptr := ptr, sv_heap := heap, sv_max := mx, sv_world := w\<rparr>)"
    and same: "scrit pc = scrit (sv_pcs st ! t)" "\<not> scrit pc \<Longrightarrow> ptr = sv_ptr st \<and> heap = sv_heap st"
    and keep: "scrit pc \<Longrightarrow> srv_knows t (sv_pcs st ! t) (sv_ptr st) (sv_heap st) \<Longrightarrow> srv_knows t pc ptr heap"
  shows "srv_inv st'"
proof (cases "scrit pc")
  case True
  then have "owner (sv_mutex st) = Some t" using inv t same(1) by (simp add: srv_inv_def)
  then show ?thesis using inv t True same(1) keep by (auto simp: st' srv_inv_def sgo_def nth_list_update)
next
  case False
  then have "owner (sv_mutex st) \<noteq> Some t" using inv t same(1) by (simp add: srv_inv_def)
  then show ?thesis
    using inv t False same by (auto simp: st' srv_inv_def sgo_def nth_list_update split: option.splits)
qed

lemma holder:
  "srv_inv st \<Longrightarrow> t < length (sv_pcs st) \<Longrightarrow> scrit (sv_pcs st ! t) \<Longrightarrow>
     srv_knows t (sv_pcs st ! t) (sv_ptr st) (sv_heap st)"
  by (auto simp: srv_inv_def)

lemma uses_alive:
  "srv_inv st \<Longrightarrow> t < length (sv_pcs st) \<Longrightarrow> uses (sv_pcs st ! t) = Some a \<Longrightarrow>
     \<exists>ob. obj_at (sv_heap st) a = Some ob \<and> sv_ptr st = Some a"
  using holder[of st t] outside_uses[of "sv_pcs st ! t"]
  by (cases "sv_pcs st ! t") (auto simp: srv_knows_def spc_simps)


lemma obj_lock_step:
  assumes "srv_inv st" and "t < length (sv_pcs st)" and "sv_pcs st ! t = TsLock g a"
  shows "\<exists>ob m. obj_at (sv_heap st) a = Some ob \<and> owner m = Some t \<and> depth m = 1 \<and>
    obj_lock P t a pc st = Some (sgo t pc (st\<lparr>sv_heap := (sv_heap st)[a := Some (ob\<lparr>o_mutex := m\<rparr>)]\<rparr>))"
proof -
  obtain ob where ob: "obj_at (sv_heap st) a = Some ob"
    using uses_alive[OF assms(1,2), of a] assms(3) by (auto simp: spc_simps)
  then have "owner (o_mutex ob) = None"
    using holder[OF assms(1,2)] assms(3) by (auto simp: srv_knows_def spc_simps unlocked_def)
  from lock_free[OF this, of t] ob show ?thesis
    by (auto simp: obj_lock_def with_obj_def put_obj_def locker_new_def mutex_lock_def)
qed

lemma obj_unlock_step:
  assumes "srv_inv st" and "t < length (sv_pcs st)" and "sv_pcs st ! t = TsUnlock g a s"
  shows "\<exists>ob m. obj_at (sv_heap st) a = Some ob \<and> owner m = None \<and>
    obj_unlock P t a pc st = Some (sgo t pc (st\<lparr>sv_heap := (sv_heap st)[a := Some (ob\<lparr>o_mutex := m\<rparr>)]\<rparr>))"
proof -
  obtain ob where ob: "obj_at (sv_heap st) a = Some ob"
    using uses_alive[OF assms(1,2), of a] assms(3) by (auto simp: spc_simps)
  then have "owner (o_mutex ob) = Some t" "depth (o_mutex ob) = 1"
    using holder[OF assms(1,2)] assms(3) by (auto simp: srv_knows_def spc_simps)
  from unlock_last[OF this] ob show ?thesis
    by (auto simp: obj_unlock_def with_obj_def put_obj_def locker_delete_def mutex_unlock_def)
qed

text \<open>A statement after which its thread has the same mutexes.\<close>

definition alike :: "nat option \<Rightarrow> spc \<Rightarrow> spc \<Rightarrow> bool" where
  "alike ptr pc pc' \<longleftrightarrow> scrit pc = scrit pc' \<and> inner pc = inner pc' \<and> pc \<noteq> ClNull \<and> pc' \<noteq> ClNull \<and>
     (uses pc' = None \<or> uses pc' = uses pc \<or> uses pc' = ptr)"

lemma alike_full_inv:
  assumes inv: "srv_inv st" and t: "t < length (sv_pcs st)" and pc: "alike (sv_ptr st) (sv_pcs st ! t) pc"
  shows "srv_inv (sgo t pc (st\<lparr>sv_max := mx, sv_world := w\<rparr>))"
proof (rule srv_local_inv[OF inv t, where ptr = "sv_ptr st" and heap = "sv_heap st" and mx = mx and w = w and pc = pc])
  show "srv_knows t (sv_pcs st ! t) (sv_ptr st) (sv_heap st) \<Longrightarrow> srv_knows t pc (sv_ptr st) (sv_heap st)"
    using pc by (auto simp: alike_def srv_knows_def)
qed (use pc in \<open>simp_all add: alike_def\<close>)

lemma alike_inv:
  assumes "srv_inv st" and "t < length (sv_pcs st)" and "alike (sv_ptr st) (sv_pcs st ! t) pc"
  shows "srv_inv (sgo t pc (st\<lparr>sv_world := w\<rparr>))" and "srv_inv (sgo t pc (st\<lparr>sv_max := mx\<rparr>))" and "srv_inv (sgo t pc st)"
  using alike_full_inv[OF assms, where mx = "sv_max st" and w = w]
    alike_full_inv[OF assms, where mx = mx and w = "sv_world st"]
    alike_full_inv[OF assms, where mx = "sv_max st" and w = "sv_world st"] by simp_all

lemma sys_inv:
  assumes "srv_inv st" and "t < length (sv_pcs st)" and "sys t call k st = Some st'"
    and "\<And>r. alike (sv_ptr st) (sv_pcs st ! t) (k r)"
  shows "srv_inv st'"
  using assms(3) alike_inv(1)[OF assms(1,2,4)] by (auto simp: sys_def split: prod.splits)

text \<open>A statement of the holder that changes the pointer or the heap.\<close>

lemma held_inv:
  assumes inv: "srv_inv st" and t: "t < length (sv_pcs st)"
    and st': "st' = sgo t pc (st\<lparr>sv_ptr := ptr, sv_heap := heap, sv_world := w\<rparr>)"
    and crit: "scrit (sv_pcs st ! t)" "scrit pc"
    and keep: "srv_knows t (sv_pcs st ! t) (sv_ptr st) (sv_heap st) \<Longrightarrow> srv_knows t pc ptr heap"
  shows "srv_inv st'"
  by (rule srv_local_inv[OF inv t, where ptr = ptr and heap = heap and mx = "sv_max st" and w = w and pc = pc])
    (use st' crit keep in simp_all)

lemma stop_inv: "srv_inv st \<Longrightarrow> srv_inv (st\<lparr>sv_ub := Some FdSetOverflow\<rparr>)"
  by (simp add: srv_inv_def cong: option.case_cong)

lemma world_inv: "srv_inv st \<Longrightarrow> srv_inv (st\<lparr>sv_world := w\<rparr>)"
  by (simp add: srv_inv_def cong: option.case_cong)

lemma srv_inv_step:
  assumes inv: "srv_inv st" and t: "t < length (sv_pcs st)"
    and step: "sexec P N t (sv_pcs st ! t) st = Some st'"
  shows "srv_inv st'"
proof -
  note enter = srv_lock_inv[OF inv t] and leave = srv_unlock_inv[OF inv t]
  note stay = alike_inv[OF inv t] sys_inv[OF inv t]
  note held = held_inv[OF inv t]
  note alive = uses_alive[OF inv t]
  show ?thesis
  proof (cases "sv_pcs st ! t")
    case (LsNew s)
    obtain sk w where new: "tcp_of N s (sv_world st) = (sk, w)" by (cases "tcp_of N s (sv_world st)")
    show ?thesis
      by (rule held[where pc = LsUnlock and w = w and ptr = "Some (length (sv_heap st))"
            and heap = "sv_heap st @ [Some \<lparr>o_data = sk, o_mutex = mutex_new P\<rparr>]"])
        (use LsNew step new init_mutex in \<open>auto simp: spc_simps srv_knows_def unlocked_def mutex_new_def\<close>)
  next
    case (TsLock g a)
    from obj_lock_step[OF inv t TsLock, of "TsRead g a"] step TsLock obtain ob m
      where ob: "obj_at (sv_heap st) a = Some ob" "owner m = Some t" "depth m = 1"
        and st': "st' = sgo t (TsRead g a) (st\<lparr>sv_heap := (sv_heap st)[a := Some (ob\<lparr>o_mutex := m\<rparr>)]\<rparr>)" by auto
    show ?thesis
      by (rule held[where pc = "TsRead g a" and w = "sv_world st" and ptr = "sv_ptr st"
            and heap = "(sv_heap st)[a := Some (ob\<lparr>o_mutex := m\<rparr>)]"])
        (use TsLock st' ob obj_at_bound[OF ob(1)] in \<open>auto simp: spc_simps srv_knows_def\<close>)
  next
    case (TsUnlock g a s)
    from obj_unlock_step[OF inv t TsUnlock, of "got_native g a s"] step TsUnlock obtain ob m
      where ob: "obj_at (sv_heap st) a = Some ob" "owner m = None"
        and st': "st' = sgo t (got_native g a s) (st\<lparr>sv_heap := (sv_heap st)[a := Some (ob\<lparr>o_mutex := m\<rparr>)]\<rparr>)" by auto
    show ?thesis
      by (rule held[where pc = "got_native g a s" and w = "sv_world st" and ptr = "sv_ptr st"
            and heap = "(sv_heap st)[a := Some (ob\<lparr>o_mutex := m\<rparr>)]"])
        (use TsUnlock st' ob obj_at_bound[OF ob(1)] in
          \<open>auto simp: spc_simps srv_knows_def got_native_def unlocked_def split: if_splits\<close>)
  next
    case (DtFree a)
    then obtain ob where ob: "obj_at (sv_heap st) a = Some ob" using alive by (auto simp: spc_simps)
    show ?thesis
      by (rule held[where pc = ClNull and w = "sv_world st" and ptr = "sv_ptr st" and heap = "(sv_heap st)[a := None]"])
        (use DtFree step ob obj_at_bound[OF ob] in \<open>auto simp: spc_simps srv_knows_def with_obj_def split: if_splits\<close>)
  next
    case ClNull
    show ?thesis
      by (rule held[where pc = ClUnlock and w = "sv_world st" and ptr = None and heap = "sv_heap st"])
        (use ClNull step in \<open>auto simp: spc_simps srv_knows_def\<close>)
  next
    case (TsRead g a)
    with step alive[of a] obtain s where "st' = sgo t (TsUnlock g a s) st"
      by (auto simp: with_obj_def spc_simps)
    with TsRead stay(3) show ?thesis by (simp add: alike_def spc_simps)
  next
    case (DtClose a)
    with step alive[of a] show ?thesis by (auto simp: alike_def spc_simps with_obj_def intro: stay)
  next
    case (IsUnlock q b)
    show ?thesis by (rule leave[of "asked q b"]) (use IsUnlock step in \<open>simp_all add: spc_simps(2,3) scrit_def[of "IsUnlock _ _"]\<close>)
  next
    case (AcSelect s)
    with step inv show ?thesis
      by (auto simp: alike_def spc_simps intro: stay stop_inv split: if_splits)
  next
    case (AcAccept s)
    with step show ?thesis
      by (auto simp: alike_def spc_simps Let_def intro: stay split: prod.splits if_splits)
  qed (use step in \<open>auto simp: alike_def spc_simps intro: enter leave stay split: if_splits option.splits\<close>)
qed

lemma srv_inv_fire:
  assumes inv: "srv_inv st" and e: "sfire P N e st = Some st'"
  shows "srv_inv st'"
proof (cases e)
  case (Begin t opn)
  then have t: "t < length (sv_pcs st)" "resting (sv_pcs st ! t)" and st': "st' = sgo t (sentry opn) st"
    using e by (auto split: if_splits)
  have "alike (sv_ptr st) (sv_pcs st ! t) (sentry opn)"
    using t(2) by (cases opn; cases "sv_pcs st ! t") (simp_all add: alike_def spc_simps resting_def)
  with alike_inv(3)[OF inv t(1)] st' show ?thesis by simp
next
  case (Stmt t)
  with e srv_inv_step[OF inv] show ?thesis by (auto split: if_splits)
next
  case (Elsewhere w)
  with e world_inv[OF inv] show ?thesis by (auto split: if_splits)
qed

lemma srv_inv_run: "srv_inv st \<Longrightarrow> srun P N es st = Some st' \<Longrightarrow> srv_inv st'"
  by (induction es arbitrary: st) (auto dest: srv_inv_fire split: option.splits)

section \<open>Every operation comes to an end\<close>

lemma step_enabled:
  assumes inv: "srv_inv st" and t: "t < length (sv_pcs st)" and busy: "\<not> resting (sv_pcs st ! t)"
    and turn: "scrit (sv_pcs st ! t) \<or> owner (sv_mutex st) = None"
  shows "sexec P N t (sv_pcs st ! t) st \<noteq> None"
proof -
  have lock: "srv_lock P t pc st \<noteq> None" if "\<not> scrit (sv_pcs st ! t)" for pc
    using turn that lock_free[of "sv_mutex st" t] by (auto simp: srv_lock_def locker_new_def mutex_lock_def)
  show ?thesis
  proof (cases "sv_pcs st ! t")
    case (TsLock g a)
    from obj_lock_step[OF inv t TsLock] TsLock show ?thesis by fastforce
  next
    case (TsUnlock g a s)
    from obj_unlock_step[OF inv t TsUnlock] TsUnlock show ?thesis by fastforce
  qed (use busy lock in \<open>auto simp: resting_def srv_unlock_def locker_delete_def sys_def with_obj_def Let_def scrit_def
        split: prod.splits option.splits\<close>)
qed

lemma some_step:
  assumes inv: "srv_inv st" and t: "t < length (sv_pcs st)" and busy: "\<not> resting (sv_pcs st ! t)"
  shows "\<exists>u < length (sv_pcs st). sexec P N u (sv_pcs st ! u) st \<noteq> None"
proof (cases "owner (sv_mutex st)")
  case None
  with step_enabled[OF inv t busy] t show ?thesis by blast
next
  case (Some u)
  then have u: "u < length (sv_pcs st)" "scrit (sv_pcs st ! u)" using inv by (auto simp: srv_inv_def)
  then have "\<not> resting (sv_pcs st ! u)" by (auto simp: resting_def scrit_def split: spc.splits)
  with step_enabled[OF inv u(1)] u show ?thesis by blast
qed

end

text \<open>The longest way from a statement to the end of its operation.\<close>

primrec getter_left :: "getter \<Rightarrow> nat" where
  "getter_left ForNative = 4"
| "getter_left ForDelete = 7"
| "getter_left ForClose = 12"

fun left :: "spc \<Rightarrow> nat" where
  "left Rest = 0"
| "left (Returned r) = 0"
| "left (IsLock q) = 11"
| "left (IsTest q) = 10"
| "left (IsUnlock q b) = 9"
| "left (LsSocket h p) = 8"
| "left (LsBind h p s) = 7"
| "left (LsBacklog s) = 6"
| "left (LsMax s) = 5"
| "left (LsListen b s) = 4"
| "left (LsFail s) = 1"
| "left (LsLock s) = 3"
| "left (LsNew s) = 2"
| "left LsUnlock = 1"
| "left NsLock = 8"
| "left NsTest = 7"
| "left (NsUnlock s) = 3"
| "left (AcSelect s) = 2"
| "left (AcAccept s) = 1"
| "left ClLock = 16"
| "left ClTest = 15"
| "left ClNull = 2"
| "left ClUnlock = 1"
| "left (TsLock g a) = getter_left g + 2"
| "left (TsRead g a) = getter_left g + 1"
| "left (TsUnlock g a s) = getter_left g"
| "left (TcShutdown g a s) = (if g = ForClose then 11 else 6)"
| "left (TcClose g a s) = (if g = ForClose then 10 else 5)"
| "left (DtClose a) = 4"
| "left (DtFree a) = 3"
| "left (MxStore c) = 1"

definition work_left :: "('m, 'w) srv \<Rightarrow> nat" where
  "work_left st = sum_list (map left (sv_pcs st))"

lemma left_step:
  assumes "sexec P N t pc st = Some st'" and "sv_pcs st ! t = pc" and "sv_ub st' = None"
  shows "\<exists>pc'. sv_pcs st' = (sv_pcs st)[t := pc'] \<and> left pc' < left pc"
proof (cases pc)
  case (IsUnlock q b)
  with assms show ?thesis
    by (cases q) (auto simp: srv_unlock_def sgo_def split: option.splits)
next
  case (TsUnlock g a s)
  with assms show ?thesis
    by (cases g) (auto simp: obj_unlock_def with_obj_def put_obj_def got_native_def sgo_def split: option.splits if_splits)
qed (use assms in \<open>auto simp: srv_lock_def srv_unlock_def obj_lock_def sys_def with_obj_def put_obj_def sgo_def Let_def
      split: option.splits prod.splits if_splits\<close>)

lemma left_fire:
  assumes "sfire P N e st = Some st'" and "sv_ub st' = None" and "\<forall>t opn. e \<noteq> Begin t opn"
  shows "length (sv_pcs st') = length (sv_pcs st) \<and> work_left st' + (if \<exists>t. e = Stmt t then 1 else 0) \<le> work_left st"
proof (cases e)
  case (Stmt t)
  then have t: "t < length (sv_pcs st)" and step: "sexec P N t (sv_pcs st ! t) st = Some st'"
    using assms(1) by (auto split: if_splits)
  from left_step[OF step refl assms(2)] obtain pc' where
    pc': "sv_pcs st' = (sv_pcs st)[t := pc']" "left pc' < left (sv_pcs st ! t)" by blast
  have "sum_list (map left ((sv_pcs st)[t := pc'])) + left (sv_pcs st ! t) = sum_list (map left (sv_pcs st)) + left pc'"
    using sum_list_update[of t "map left (sv_pcs st)" "left pc'"] t elem_le_sum_list[of t "map left (sv_pcs st)"]
    by (simp add: map_update)
  with pc' Stmt show ?thesis by (simp add: work_left_def)
qed (use assms in \<open>auto simp: work_left_def split: if_splits\<close>)

fun is_stmt :: "'w sevent \<Rightarrow> bool" where
  "is_stmt (Stmt t) \<longleftrightarrow> True"
| "is_stmt (Begin t opn) \<longleftrightarrow> False"
| "is_stmt (Elsewhere w) \<longleftrightarrow> False"

fun is_begin :: "'w sevent \<Rightarrow> bool" where
  "is_begin (Begin t opn) \<longleftrightarrow> True"
| "is_begin (Stmt t) \<longleftrightarrow> False"
| "is_begin (Elsewhere w) \<longleftrightarrow> False"

lemma fire_running: "sfire P N e st = Some st' \<Longrightarrow> sv_ub st = None"
  by (cases e) (auto split: if_splits)

lemma run_append: "srun P N (es @ es') st = (case srun P N es st of None \<Rightarrow> None | Some st' \<Rightarrow> srun P N es' st')"
  by (induction es arbitrary: st) (auto split: option.splits)

lemma run_running: "srun P N es st = Some st' \<Longrightarrow> sv_ub st' = None \<Longrightarrow> sv_ub st = None"
  by (cases es) (auto dest: fire_running split: option.splits)

lemma work_run:
  "srun P N es st = Some st' \<Longrightarrow> sv_ub st' = None \<Longrightarrow> \<forall>e \<in> set es. \<not> is_begin e \<Longrightarrow>
     work_left st' + length (filter is_stmt es) \<le> work_left st"
proof (induction es arbitrary: st)
  case (Cons e es)
  then obtain st1 where st1: "sfire P N e st = Some st1" "srun P N es st1 = Some st'" by (auto split: option.splits)
  then have "sv_ub st1 = None" using run_running Cons.prems(2) by blast
  moreover have "\<forall>t opn. e \<noteq> Begin t opn" using Cons.prems(3) by auto
  ultimately have "work_left st1 + (if is_stmt e then 1 else 0) \<le> work_left st"
    using left_fire[OF st1(1)] by (cases e) auto
  with Cons.IH[OF st1(2) Cons.prems(2)] Cons.prems(3) show ?case by (auto split: if_splits)
qed simp

lemma step_length: "sexec P N t pc st = Some st' \<Longrightarrow> length (sv_pcs st') = length (sv_pcs st)"
  by (cases pc) (auto simp: srv_lock_def srv_unlock_def obj_lock_def obj_unlock_def sys_def with_obj_def put_obj_def sgo_def
      Let_def split: option.splits prod.splits if_splits)

lemma run_length: "srun P N es st = Some st' \<Longrightarrow> length (sv_pcs st') = length (sv_pcs st)"
proof (induction es arbitrary: st)
  case (Cons e es)
  then obtain st1 where "sfire P N e st = Some st1" "srun P N es st1 = Some st'" by (auto split: option.splits)
  then show ?case using Cons.IH by (cases e) (auto simp: sgo_def dest: step_length split: if_splits)
qed simp

lemma work_bound: "work_left st \<le> 16 * length (sv_pcs st)"
proof -
  have "left pc \<le> 16" for pc
  proof (cases pc)
    case (TsLock g a) then show ?thesis by (cases g) simp_all
  next
    case (TsRead g a) then show ?thesis by (cases g) simp_all
  next
    case (TsUnlock g a s) then show ?thesis by (cases g) simp_all
  qed simp_all
  then have "sum_list (map left pcs) \<le> 16 * length pcs" for pcs
    by (induction pcs) (simp_all add: add_mono)
  then show ?thesis by (simp add: work_left_def)
qed

section \<open>Who owns a listening socket\<close>

text \<open>Statements of \<open>listen\<close>, and those after its test has found no socket.\<close>

definition in_listen :: "spc \<Rightarrow> bool" where
  "in_listen pc \<longleftrightarrow> (case pc of
     IsLock (ForListen _ _) \<Rightarrow> True | IsTest (ForListen _ _) \<Rightarrow> True | IsUnlock (ForListen _ _) _ \<Rightarrow> True
   | LsSocket _ _ \<Rightarrow> True | LsBind _ _ _ \<Rightarrow> True | LsBacklog _ \<Rightarrow> True | LsMax _ \<Rightarrow> True | LsListen _ _ \<Rightarrow> True
   | LsFail _ \<Rightarrow> True | LsLock _ \<Rightarrow> True | LsNew _ \<Rightarrow> True | LsUnlock \<Rightarrow> True | _ \<Rightarrow> False)"

definition unlistened :: "spc \<Rightarrow> bool" where
  "unlistened pc \<longleftrightarrow> (case pc of
     IsUnlock (ForListen _ _) b \<Rightarrow> \<not> b | LsUnlock \<Rightarrow> False | IsLock _ \<Rightarrow> False | IsTest _ \<Rightarrow> False | _ \<Rightarrow> in_listen pc)"

definition owned :: "tid \<Rightarrow> ('m, 'w) srv \<Rightarrow> bool" where
  "owned c st \<longleftrightarrow>
     (\<forall>a. obj_at (sv_heap st) a \<noteq> None \<longrightarrow> sv_ptr st = Some a) \<and>
     (\<forall>t < length (sv_pcs st). (in_listen (sv_pcs st ! t) \<longrightarrow> t = c) \<and>
        (unlistened (sv_pcs st ! t) \<longrightarrow> sv_ptr st = None) \<and>
        (sv_pcs st ! t = ClNull \<longrightarrow> (\<forall>a. obj_at (sv_heap st) a = None)))"

fun listens_on :: "tid \<Rightarrow> 'w sevent \<Rightarrow> bool" where
  "listens_on c (Begin t opn) \<longleftrightarrow> (case opn of OpListen h p \<Rightarrow> t = c | _ \<Rightarrow> True)"
| "listens_on c (Stmt t) \<longleftrightarrow> True"
| "listens_on c (Elsewhere w) \<longleftrightarrow> True"

lemma unlistened_in: "unlistened pc \<Longrightarrow> in_listen pc"
  by (cases pc) (auto simp: unlistened_def in_listen_def split: asker.splits)

lemma owned_fields [simp]:
  "owned c (st\<lparr>sv_world := w\<rparr>) = owned c st" "owned c (st\<lparr>sv_mutex := m\<rparr>) = owned c st"
  "owned c (st\<lparr>sv_max := k\<rparr>) = owned c st" "owned c (st\<lparr>sv_ub := u\<rparr>) = owned c st"
  by (simp_all add: owned_def)

lemma owned_go:
  assumes "owned c st" and "in_listen pc \<Longrightarrow> t = c"
    and "unlistened pc \<Longrightarrow> unlistened (sv_pcs st ! t) \<or> sv_ptr st = None" and "pc \<noteq> ClNull"
  shows "owned c (sgo t pc st)"
  using assms by (cases "t < length (sv_pcs st)") (auto simp: owned_def sgo_def nth_list_update)

lemma owned_object:
  assumes "owned c st" and "obj_at (sv_heap st) a = Some ob"
  shows "owned c (st\<lparr>sv_heap := (sv_heap st)[a := Some ob']\<rparr>)"
  using assms obj_at_bound[OF assms(2)] by (auto simp: owned_def split: if_splits)

lemma owned_change:
  assumes own: "owned c st" and pcs: "sv_pcs st' = (sv_pcs st)[t := pc]"
    and heap: "\<And>a. obj_at (sv_heap st') a \<noteq> None \<Longrightarrow> sv_ptr st' = Some a"
    and pc: "in_listen pc \<Longrightarrow> t = c" "\<not> unlistened pc" "pc = ClNull \<Longrightarrow> \<forall>a. obj_at (sv_heap st') a = None"
    and others: "\<And>u. u < length (sv_pcs st) \<Longrightarrow> u \<noteq> t \<Longrightarrow> unlistened (sv_pcs st ! u) \<Longrightarrow> sv_ptr st' = None"
      "\<And>u. u < length (sv_pcs st) \<Longrightarrow> u \<noteq> t \<Longrightarrow> sv_pcs st ! u = ClNull \<Longrightarrow> \<forall>a. obj_at (sv_heap st') a = None"
  shows "owned c st'"
proof -
  have "(in_listen (sv_pcs st' ! u) \<longrightarrow> u = c) \<and> (unlistened (sv_pcs st' ! u) \<longrightarrow> sv_ptr st' = None) \<and>
      (sv_pcs st' ! u = ClNull \<longrightarrow> (\<forall>a. obj_at (sv_heap st') a = None))" if u: "u < length (sv_pcs st')" for u
  proof (cases "u = t")
    case True
    with u pc show ?thesis by (simp add: pcs)
  next
    case False
    then have "sv_pcs st' ! u = sv_pcs st ! u" by (simp add: pcs)
    moreover have "in_listen (sv_pcs st ! u) \<longrightarrow> u = c" using own u by (simp add: owned_def pcs)
    ultimately show ?thesis using others[of u] u False by (simp add: pcs)
  qed
  with heap show ?thesis unfolding owned_def by blast
qed

context posix_sync
begin

lemma owned_step:
  assumes own: "owned c st" and inv: "srv_inv st" and t: "t < length (sv_pcs st)"
    and step: "sexec P N t (sv_pcs st ! t) st = Some st'"
  shows "owned c st'"
proof -
  note go = owned_go[of c _ _ t]
  have mine: "in_listen (sv_pcs st ! t) \<Longrightarrow> t = c" and free: "unlistened (sv_pcs st ! t) \<Longrightarrow> sv_ptr st = None"
    using own t by (simp_all add: owned_def)
  have others: "u = t" if "u < length (sv_pcs st)" "scrit (sv_pcs st ! u)" "scrit (sv_pcs st ! t)" for u
    using inv that t by (simp add: srv_inv_def)
  show ?thesis
  proof (cases "sv_pcs st ! t")
    case (LsNew s)
    obtain sk w where new: "tcp_of N s (sv_world st) = (sk, w)" by (cases "tcp_of N s (sv_world st)")
    from LsNew have none: "sv_ptr st = None" "t = c" using free mine by (simp_all add: unlistened_def in_listen_def)
    then have dead: "obj_at (sv_heap st) a = None" for a using own by (auto simp: owned_def)
    have lone: "u = t" if u: "u < length (sv_pcs st)" "unlistened (sv_pcs st ! u) \<or> sv_pcs st ! u = ClNull" for u
      using u(2)
    proof
      assume "unlistened (sv_pcs st ! u)"
      with own u(1) none(2) unlistened_in show ?thesis by (auto simp: owned_def)
    next
      assume "sv_pcs st ! u = ClNull"
      with others[OF u(1)] LsNew show ?thesis by (simp add: scrit_def)
    qed
    show ?thesis
      by (rule owned_change[OF own, where t = t and pc = LsUnlock])
        (use step LsNew new dead none(2) lone in \<open>auto simp: sgo_def unlistened_def split: if_splits\<close>)
  next
    case (TsLock g a)
    from obj_lock_step[OF inv t TsLock, of "TsRead g a"] step TsLock owned_object[OF own]
    show ?thesis by (auto simp: in_listen_def unlistened_def intro!: go)
  next
    case (TsUnlock g a s)
    from obj_unlock_step[OF inv t TsUnlock, of "got_native g a s"] step TsUnlock owned_object[OF own]
    show ?thesis by (cases g) (auto simp: in_listen_def unlistened_def got_native_def intro!: go)
  next
    case (DtFree a)
    from uses_alive[OF inv t, of a] DtFree obtain ob where ob: "obj_at (sv_heap st) a = Some ob" "sv_ptr st = Some a"
      by (auto simp: uses_def)
    from step DtFree ob have st': "st' = sgo t ClNull (st\<lparr>sv_heap := (sv_heap st)[a := None]\<rparr>)" by (simp add: with_obj_def)
    have dead: "obj_at ((sv_heap st)[a := None]) b = None" for b
      using own ob obj_at_bound[OF ob(1)] by (auto simp: owned_def)
    show ?thesis
      by (rule owned_change[OF own, where t = t and pc = ClNull])
        (use own dead in \<open>auto simp: st' sgo_def in_listen_def unlistened_def[of ClNull] owned_def\<close>)
  next
    case ClNull
    with own t have dead: "obj_at (sv_heap st) a = None" for a by (auto simp: owned_def)
    show ?thesis
      by (rule owned_change[OF own, where t = t and pc = ClUnlock])
        (use step ClNull dead in \<open>auto simp: sgo_def in_listen_def unlistened_def\<close>)
  next
    case (IsUnlock q b)
    with step own mine show ?thesis
      by (cases q; cases b) (auto simp: srv_unlock_def locker_delete_def in_listen_def unlistened_def intro!: owned_go)
  next
    case (IsTest q)
    with step own mine show ?thesis
      by (cases q) (auto simp: in_listen_def unlistened_def intro!: owned_go)
  qed (use step own mine in \<open>auto simp: srv_lock_def srv_unlock_def sys_def with_obj_def in_listen_def unlistened_def Let_def
        intro!: owned_go split: option.splits prod.splits if_splits asker.splits\<close>)
qed

lemma owned_run:
  "srun P N es st = Some st' \<Longrightarrow> srv_inv st \<Longrightarrow> owned c st \<Longrightarrow> \<forall>e \<in> set es. listens_on c e \<Longrightarrow> owned c st'"
proof (induction es arbitrary: st)
  case (Cons e es)
  then obtain st1 where st1: "sfire P N e st = Some st1" "srun P N es st1 = Some st'" by (auto split: option.splits)
  have "owned c st1"
  proof (cases e)
    case (Begin t opn)
    then have "st1 = sgo t (sentry opn) st" using st1(1) by (auto split: if_splits)
    with Begin Cons.prems(3,4) show ?thesis
      by (cases opn) (auto simp: in_listen_def unlistened_def intro!: owned_go)
  next
    case (Stmt t)
    with st1(1) owned_step[OF Cons.prems(3,2)] show ?thesis by (auto split: if_splits)
  next
    case (Elsewhere w)
    with st1(1) Cons.prems(3) show ?thesis by (auto split: if_splits)
  qed
  with Cons.IH[OF st1(2) srv_inv_fire[OF Cons.prems(2) st1(1)]] Cons.prems(4) show ?case by simp
qed simp

end

lemma owned_init: "owned c (server_start P n w)"
  by (simp add: owned_def server_start_def obj_at_def in_listen_def unlistened_def)

end
