(* ===== verification/ServerThreadsAlone.thy ===== *)
theory ServerThreadsAlone
  imports ServerThreadsInv
begin

text \<open>
  An operation of \<open>ServerThreads\<close> that no other thread interrupts is the function of \<open>TcpServer\<close>:
  the statements are composed to the operations, and the state is mapped to the object and the world.
  The same steps show what two overlapping calls of \<open>listen\<close> do.
\<close>

section \<open>An operation that runs alone\<close>

text \<open>The object of \<open>TcpServer\<close> and the world a state stands for.\<close>

definition pointee :: "nat option \<Rightarrow> 'm sockobj option list \<Rightarrow> tcpsocket option" where
  "pointee ptr heap = (case ptr of None \<Rightarrow> None | Some a \<Rightarrow> map_option o_data (obj_at heap a))"

definition server_view :: "('m, 'w) srv \<Rightarrow> tcpserver \<times> 'w" where
  "server_view st =
     (\<lparr>m_pServerSocket = pointee (sv_ptr st) (sv_heap st), m_maxPendingConnections = sv_max st\<rparr>, sv_world st)"

definition solo :: "('m, 's) posix \<Rightarrow> 'w net \<Rightarrow> tid \<Rightarrow> ('m, 'w) srv \<Rightarrow> ('m, 'w) srv \<Rightarrow> bool" where
  "solo P N t st st' \<longleftrightarrow> (\<exists>k. srun P N (replicate k (Stmt t)) st = Some st')"

lemma solo_refl [simp]: "solo P N t st st"
  unfolding solo_def by (rule exI[of _ 0]) simp

lemma solo_trans: "solo P N t st st1 \<Longrightarrow> solo P N t st1 st2 \<Longrightarrow> solo P N t st st2"
  unfolding solo_def by (metis (no_types, lifting) option.simps(5) replicate_add run_append)

lemma solo_step:
  "sv_ub st = None \<Longrightarrow> t < length (sv_pcs st) \<Longrightarrow> sexec P N t (sv_pcs st ! t) st = Some st' \<Longrightarrow> solo P N t st st'"
  unfolding solo_def by (rule exI[of _ 1]) simp

context posix_sync
begin

text \<open>Thread \<open>t\<close> is about to execute \<open>pc\<close>, and no other thread is inside the server's mutex.\<close>

definition alone :: "tid \<Rightarrow> spc \<Rightarrow> nat option \<Rightarrow> tcpserver \<Rightarrow> 'w \<Rightarrow> ('m, 'w) srv \<Rightarrow> bool" where
  "alone t pc ptr v w st \<longleftrightarrow> srv_inv st \<and> sv_ub st = None \<and> t < length (sv_pcs st) \<and> sv_pcs st ! t = pc \<and>
     sv_ptr st = ptr \<and> owner (sv_mutex st) = (if scrit pc then Some t else None) \<and> server_view st = (v, w)"

definition goes :: "'w net \<Rightarrow> tid \<Rightarrow> spc \<times> nat option \<times> tcpserver \<times> 'w \<Rightarrow> spc \<times> nat option \<times> tcpserver \<times> 'w \<Rightarrow> bool" where
  "goes N t c c' \<longleftrightarrow> (case c of (pc, ptr, v, w) \<Rightarrow> case c' of (pc', ptr', v', w') \<Rightarrow>
     \<forall>st. alone t pc ptr v w st \<longrightarrow> (\<exists>st'. solo P N t st st' \<and> alone t pc' ptr' v' w' st'))"

lemma goes_refl [simp]: "goes N t c c"
  by (auto simp: goes_def intro: solo_refl split: prod.splits)

lemma goes_trans: "goes N t c c1 \<Longrightarrow> goes N t c1 c2 \<Longrightarrow> goes N t c c2"
  by (cases c; cases c1; cases c2; simp add: goes_def) (meson solo_trans)

lemma goes_step:
  assumes "\<And>st. alone t pc ptr v w st \<Longrightarrow> \<exists>st'. sexec P N t pc st = Some st' \<and> sv_ub st' = None \<and>
      length (sv_pcs st') = length (sv_pcs st) \<and> sv_pcs st' ! t = pc' \<and> sv_ptr st' = ptr' \<and>
      owner (sv_mutex st') = (if scrit pc' then Some t else None) \<and> server_view st' = (v', w')"
  shows "goes N t (pc, ptr, v, w) (pc', ptr', v', w')"
proof -
  have "\<exists>st'. solo P N t st st' \<and> alone t pc' ptr' v' w' st'" if st: "alone t pc ptr v w st" for st
  proof -
    from assms[OF st] obtain st' where st': "sexec P N t pc st = Some st'" "sv_ub st' = None"
      "length (sv_pcs st') = length (sv_pcs st)" "sv_pcs st' ! t = pc'" "sv_ptr st' = ptr'"
      "owner (sv_mutex st') = (if scrit pc' then Some t else None)" "server_view st' = (v', w')" by blast
    have a: "srv_inv st" "sv_ub st = None" "t < length (sv_pcs st)" "sv_pcs st ! t = pc" using st by (simp_all add: alone_def)
    then have "solo P N t st st'" "srv_inv st'" using st'(1) solo_step srv_inv_step by auto
    with st' a show ?thesis by (auto simp: alone_def)
  qed
  then show ?thesis by (simp add: goes_def)
qed

lemma goes_lock:
  assumes "\<And>st. sexec P N t pc st = srv_lock P t pc' st" and "\<not> scrit pc" and "scrit pc'"
  shows "goes N t (pc, ptr, v, w) (pc', ptr, v, w)"
proof (rule goes_step)
  fix st assume st: "alone t pc ptr v w st"
  then obtain m where "p_mutex_lock P t (sv_mutex st) = Some m" "owner m = Some t"
    using lock_free[of "sv_mutex st" t] assms(2) by (auto simp: alone_def)
  with st assms show "\<exists>st'. sexec P N t pc st = Some st' \<and> sv_ub st' = None \<and>
      length (sv_pcs st') = length (sv_pcs st) \<and> sv_pcs st' ! t = pc' \<and> sv_ptr st' = ptr \<and>
      owner (sv_mutex st') = (if scrit pc' then Some t else None) \<and> server_view st' = (v, w)"
    by (auto simp: srv_lock_def locker_new_def mutex_lock_def alone_def sgo_def server_view_def)
qed

lemma goes_unlock:
  assumes "\<And>st. sexec P N t pc st = srv_unlock P t pc' st" and "scrit pc" and "\<not> scrit pc'"
  shows "goes N t (pc, ptr, v, w) (pc', ptr, v, w)"
proof (rule goes_step)
  fix st assume st: "alone t pc ptr v w st"
  then have "owner (sv_mutex st) = Some t" "depth (sv_mutex st) = 1" using assms(2) by (auto simp: alone_def srv_inv_def)
  then have "owner (p_mutex_unlock P t (sv_mutex st)) = None" by (rule unlock_last)
  with st assms show "\<exists>st'. sexec P N t pc st = Some st' \<and> sv_ub st' = None \<and>
      length (sv_pcs st') = length (sv_pcs st) \<and> sv_pcs st' ! t = pc' \<and> sv_ptr st' = ptr \<and>
      owner (sv_mutex st') = (if scrit pc' then Some t else None) \<and> server_view st' = (v, w)"
    by (auto simp: srv_unlock_def locker_delete_def mutex_unlock_def alone_def sgo_def server_view_def)
qed

lemma goes_sys:
  assumes "\<And>st. sexec P N t pc st = sys t call k st" and "call w = (r, w')" and "scrit (k r) = scrit pc"
  shows "goes N t (pc, ptr, v, w) (k r, ptr, v, w')"
  by (rule goes_step) (use assms in \<open>auto simp: sys_def alone_def sgo_def server_view_def\<close>)

lemma goes_pure:
  assumes "\<And>st. alone t pc ptr v w st \<Longrightarrow> sexec P N t pc st = Some (sgo t pc' st)" and "scrit pc' = scrit pc"
  shows "goes N t (pc, ptr, v, w) (pc', ptr, v, w)"
  by (rule goes_step) (use assms in \<open>auto simp: alone_def sgo_def server_view_def\<close>)

lemma alone_object:
  assumes "alone t pc (Some a) v w st" and "pc \<noteq> ClNull"
  shows "\<exists>ob. obj_at (sv_heap st) a = Some ob \<and> m_pServerSocket v = Some (o_data ob)"
proof -
  have "obj_at (sv_heap st) a \<noteq> None"
    using assms by (cases "scrit pc") (auto simp: alone_def srv_inv_def srv_knows_def)
  then obtain ob where "obj_at (sv_heap st) a = Some ob" by auto
  with assms(1) show ?thesis by (auto simp: alone_def server_view_def pointee_def)
qed

lemma alone_listening: "alone t pc ptr v w st \<Longrightarrow> pc \<noteq> ClNull \<Longrightarrow> isListening v = (ptr \<noteq> None)"
  using alone_object[of t pc "the ptr" v w st]
  by (cases ptr) (auto simp: isListening_def alone_def server_view_def pointee_def)

text \<open>\<open>isListening\<close>.\<close>

lemma goes_asked: "goes N t (IsLock q, ptr, v, w) (asked q (ptr \<noteq> None), ptr, v, w)"
proof -
  have "goes N t (IsLock q, ptr, v, w) (IsTest q, ptr, v, w)" by (rule goes_lock) (simp_all add: scrit_def)
  moreover have "goes N t (IsTest q, ptr, v, w) (IsUnlock q (ptr \<noteq> None), ptr, v, w)"
    by (rule goes_pure) (auto simp: scrit_def alone_def)
  moreover have "goes N t (IsUnlock q (ptr \<noteq> None), ptr, v, w) (asked q (ptr \<noteq> None), ptr, v, w)"
    by (rule goes_unlock) (simp_all add: scrit_def[of "IsUnlock _ _"])
  ultimately show ?thesis by (meson goes_trans)
qed

text \<open>\<open>TcpSocket::nativeSocket\<close> of the server's socket.\<close>

lemma goes_native:
  assumes "m_pServerSocket v = Some s"
  shows "goes N t (TsLock g a, Some a, v, w) (got_native g a (m_socket s), Some a, v, w)"
proof -
  have heap: "pointee (Some a) (heap[a := Some (ob\<lparr>o_mutex := m\<rparr>)]) = pointee (Some a) heap"
    if "obj_at heap a = Some ob" for heap :: "'m sockobj option list" and ob m
    using that obj_at_bound[OF that] by (simp add: pointee_def)
  have "goes N t (TsLock g a, Some a, v, w) (TsRead g a, Some a, v, w)"
  proof (rule goes_step)
    fix st assume st: "alone t (TsLock g a) (Some a) v w st"
    then have "srv_inv st" "t < length (sv_pcs st)" "sv_pcs st ! t = TsLock g a" by (simp_all add: alone_def)
    from obj_lock_step[OF this, of "TsRead g a"] heap st
    show "\<exists>st'. sexec P N t (TsLock g a) st = Some st' \<and> sv_ub st' = None \<and>
        length (sv_pcs st') = length (sv_pcs st) \<and> sv_pcs st' ! t = TsRead g a \<and> sv_ptr st' = Some a \<and>
        owner (sv_mutex st') = (if scrit (TsRead g a) then Some t else None) \<and> server_view st' = (v, w)"
      by (auto simp: alone_def sgo_def server_view_def scrit_def)
  qed
  moreover have "goes N t (TsRead g a, Some a, v, w) (TsUnlock g a (m_socket s), Some a, v, w)"
    by (rule goes_pure) (use alone_object assms in \<open>fastforce simp: with_obj_def scrit_def\<close>)+
  moreover have "goes N t (TsUnlock g a (m_socket s), Some a, v, w) (got_native g a (m_socket s), Some a, v, w)"
  proof (rule goes_step)
    fix st assume st: "alone t (TsUnlock g a (m_socket s)) (Some a) v w st"
    then have "srv_inv st" "t < length (sv_pcs st)" "sv_pcs st ! t = TsUnlock g a (m_socket s)" by (simp_all add: alone_def)
    from obj_unlock_step[OF this, of "got_native g a (m_socket s)"] heap st
    show "\<exists>st'. sexec P N t (TsUnlock g a (m_socket s)) st = Some st' \<and> sv_ub st' = None \<and>
        length (sv_pcs st') = length (sv_pcs st) \<and> sv_pcs st' ! t = got_native g a (m_socket s) \<and> sv_ptr st' = Some a \<and>
        owner (sv_mutex st') = (if scrit (got_native g a (m_socket s)) then Some t else None) \<and> server_view st' = (v, w)"
      by (auto simp: alone_def sgo_def server_view_def scrit_def got_native_def)
  qed
  ultimately show ?thesis by (meson goes_trans)
qed

text \<open>\<open>TcpServer::nativeSocket\<close>.\<close>

lemma goes_server_native:
  assumes "m_pServerSocket v = Some s"
  shows "goes N t (NsLock, Some a, v, w) (AcSelect (m_socket s), Some a, v, w)"
proof -
  have "goes N t (NsLock, Some a, v, w) (NsTest, Some a, v, w)" by (rule goes_lock) (simp_all add: scrit_def)
  moreover have "goes N t (NsTest, Some a, v, w) (TsLock ForNative a, Some a, v, w)"
    by (rule goes_pure) (auto simp: scrit_def alone_def)
  moreover note goes_native[OF assms, of N t ForNative a w]
  moreover have "goes N t (got_native ForNative a (m_socket s), Some a, v, w) (AcSelect (m_socket s), Some a, v, w)"
    by (simp add: got_native_def, rule goes_unlock) (simp_all add: scrit_def)
  ultimately show ?thesis by (meson goes_trans)
qed

text \<open>\<open>TcpSocket::close\<close>, called by the server and by the destructor.\<close>

lemma goes_tcp_close:
  assumes "m_pServerSocket v = Some s" and "g \<noteq> ForNative"
  shows "goes N t (TsLock g a, Some a, v, w)
    (if g = ForClose then TsLock ForDelete a else DtClose a, Some a, v, tcp_close N Stream_All s w)"
proof -
  let ?w = "n_shutdown N (m_socket s) (shutdown_how Stream_All) w"
  have shut: "goes N t (TcShutdown g a (m_socket s), Some a, v, w) (TcClose g a (m_socket s), Some a, v, ?w)"
    by (rule goes_sys[where k = "\<lambda>_. TcClose g a (m_socket s)" and call = "\<lambda>w. ((), n_shutdown N (m_socket s) (shutdown_how Stream_All) w)"])
      (simp_all add: scrit_def)
  have close: "goes N t (TcClose g a (m_socket s), Some a, v, ?w)
      (if g = ForClose then TsLock ForDelete a else DtClose a, Some a, v, n_close N (m_socket s) ?w)"
    by (rule goes_sys[where k = "\<lambda>_. if g = ForClose then TsLock ForDelete a else DtClose a"
          and call = "\<lambda>w. ((), n_close N (m_socket s) w)"]) (simp_all add: scrit_def)
  have "goes N t (TsLock g a, Some a, v, w) (TcShutdown g a (m_socket s), Some a, v, w)"
    using goes_native[OF assms(1), of N t g a w] assms(2) by (simp add: got_native_def)
  from goes_trans[OF this goes_trans[OF shut close]] show ?thesis
    by (simp add: tcp_close_def nativeSocket_def Let_def)
qed

text \<open>\<open>TcpServer::close\<close> of a server that listens.\<close>

lemma goes_close:
  assumes v: "m_pServerSocket v = Some s"
  shows "goes N t (ClLock, Some a, v, w) (Returned RDone, None, v\<lparr>m_pServerSocket := None\<rparr>,
     tcp_delete N s (tcp_close N Stream_All s w))"
proof -
  let ?w1 = "tcp_close N Stream_All s w" and ?v = "v\<lparr>m_pServerSocket := None\<rparr>"
  let ?w2 = "tcp_close N Stream_All s ?w1"
  have "goes N t (ClLock, Some a, v, w) (ClTest, Some a, v, w)" by (rule goes_lock) (simp_all add: scrit_def)
  moreover have "goes N t (ClTest, Some a, v, w) (TsLock ForClose a, Some a, v, w)"
    by (rule goes_pure) (auto simp: scrit_def alone_def)
  moreover have "goes N t (TsLock ForClose a, Some a, v, w) (TsLock ForDelete a, Some a, v, ?w1)"
    using goes_tcp_close[OF v, of ForClose N t a w] by simp
  moreover have "goes N t (TsLock ForDelete a, Some a, v, ?w1) (DtClose a, Some a, v, ?w2)"
    using goes_tcp_close[OF v, of ForDelete N t a ?w1] by simp
  moreover have "goes N t (DtClose a, Some a, v, ?w2) (DtFree a, Some a, v, n_close N (m_socket s) ?w2)"
  proof (rule goes_step)
    fix st assume st: "alone t (DtClose a) (Some a) v ?w2 st"
    then obtain ob where "obj_at (sv_heap st) a = Some ob" "o_data ob = s" using alone_object[OF st] v by auto
    with st show "\<exists>st'. sexec P N t (DtClose a) st = Some st' \<and> sv_ub st' = None \<and> length (sv_pcs st') = length (sv_pcs st) \<and>
        sv_pcs st' ! t = DtFree a \<and> sv_ptr st' = Some a \<and> owner (sv_mutex st') = (if scrit (DtFree a) then Some t else None) \<and>
        server_view st' = (v, n_close N (m_socket s) ?w2)"
      by (auto simp: alone_def sgo_def server_view_def scrit_def with_obj_def sys_def)
  qed
  moreover have "goes N t (DtFree a, Some a, v, n_close N (m_socket s) ?w2) (ClNull, Some a, ?v, n_close N (m_socket s) ?w2)"
  proof (rule goes_step)
    fix st assume st: "alone t (DtFree a) (Some a) v (n_close N (m_socket s) ?w2) st"
    then obtain ob where ob: "obj_at (sv_heap st) a = Some ob" using alone_object[OF st] by auto
    with st obj_at_bound[OF ob]
    show "\<exists>st'. sexec P N t (DtFree a) st = Some st' \<and> sv_ub st' = None \<and> length (sv_pcs st') = length (sv_pcs st) \<and>
        sv_pcs st' ! t = ClNull \<and> sv_ptr st' = Some a \<and> owner (sv_mutex st') = (if scrit ClNull then Some t else None) \<and>
        server_view st' = (?v, n_close N (m_socket s) ?w2)"
      by (auto simp: alone_def sgo_def server_view_def scrit_def with_obj_def pointee_def)
  qed
  moreover have "goes N t (ClNull, Some a, ?v, n_close N (m_socket s) ?w2) (ClUnlock, None, ?v, n_close N (m_socket s) ?w2)"
    by (rule goes_step, cases v) (auto simp: scrit_def alone_def sgo_def server_view_def pointee_def)
  moreover have "goes N t (ClUnlock, None, ?v, n_close N (m_socket s) ?w2) (Returned RDone, None, ?v, n_close N (m_socket s) ?w2)"
    by (rule goes_unlock) (simp_all add: scrit_def)
  ultimately show ?thesis unfolding tcp_delete_def by (meson goes_trans)
qed

lemma goes_close_idle: "goes N t (ClLock, None, v, w) (Returned RDone, None, v, w)"
proof -
  have "goes N t (ClLock, None, v, w) (ClTest, None, v, w)" by (rule goes_lock) (simp_all add: scrit_def)
  moreover have "goes N t (ClTest, None, v, w) (ClUnlock, None, v, w)"
    by (rule goes_pure) (auto simp: scrit_def alone_def)
  moreover have "goes N t (ClUnlock, None, v, w) (Returned RDone, None, v, w)"
    by (rule goes_unlock) (simp_all add: scrit_def)
  ultimately show ?thesis by (meson goes_trans)
qed

text \<open>The same for an operation as a whole, whatever its pointer is in the end.\<close>

definition gives :: "'w net \<Rightarrow> tid \<Rightarrow> spc \<times> nat option \<times> tcpserver \<times> 'w \<Rightarrow> spc \<Rightarrow> tcpserver \<times> 'w \<Rightarrow> bool" where
  "gives N t c pc' vw \<longleftrightarrow> (case c of (pc, ptr, v, w) \<Rightarrow>
     \<forall>st. alone t pc ptr v w st \<longrightarrow> (\<exists>st' ptr'. solo P N t st st' \<and> alone t pc' ptr' (fst vw) (snd vw) st'))"

lemma goes_gives: "goes N t c (pc, ptr, v, w) \<Longrightarrow> gives N t c pc (v, w)"
  by (cases c) (fastforce simp: goes_def gives_def)

lemma gives_trans: "goes N t c c1 \<Longrightarrow> gives N t c1 pc vw \<Longrightarrow> gives N t c pc vw"
  by (cases c; cases c1; simp add: goes_def gives_def) (meson solo_trans)

lemma gives_goes:
  assumes "gives N t c pc (v, w)" and "\<And>ptr. goes N t (pc, ptr, v, w) (pc', ptr, v', w')"
  shows "gives N t c pc' (v', w')"
proof (cases c)
  case (fields pc0 ptr0 v0 w0)
  with assms show ?thesis by (simp add: goes_def gives_def) (meson solo_trans)
qed

text \<open>\<open>TcpServer::listen\<close> of a server that does not listen, the end of it first.\<close>

lemma gives_new:
  assumes new: "tcp_of N sock w = (s, w')"
  shows "gives N t (LsNew sock, ptr, v, w) LsUnlock (v\<lparr>m_pServerSocket := Some s\<rparr>, w')"
proof -
  have "\<exists>st'. solo P N t st st' \<and> alone t LsUnlock (Some (length (sv_heap st))) (v\<lparr>m_pServerSocket := Some s\<rparr>) w' st'"
    if st: "alone t (LsNew sock) ptr v w st" for st
  proof -
    let ?st = "sgo t LsUnlock (st\<lparr>sv_ptr := Some (length (sv_heap st)),
       sv_heap := sv_heap st @ [Some \<lparr>o_data = s, o_mutex = mutex_new P\<rparr>], sv_world := w'\<rparr>)"
    have a: "srv_inv st" "sv_ub st = None" "t < length (sv_pcs st)" "sv_pcs st ! t = LsNew sock" using st by (simp_all add: alone_def)
    have step: "sexec P N t (sv_pcs st ! t) st = Some ?st"
      using st new by (simp add: alone_def server_view_def)
    have "solo P N t st ?st" by (rule solo_step[OF a(2,3) step])
    moreover have "srv_inv ?st" by (rule srv_inv_step[OF a(1,3) step])
    ultimately show ?thesis
      using st by (auto simp: alone_def sgo_def server_view_def pointee_def scrit_def)
  qed
  then show ?thesis by (simp add: gives_def) blast
qed

lemma gives_listen:
  assumes r: "server_listen N h p (v\<lparr>m_pServerSocket := None\<rparr>, w) = (b, v', w')"
  shows "gives N t (LsSocket h p, ptr, v, w) (Returned (RBool b)) (if b then v' else v, w')"
proof -
  let ?a = "\<lparr>sin_addr = (if h = [] then 0 else n_inet_addr N (c_str h)), sin_port = n_htons N p\<rparr>"
  let ?b = "if 0 < sint (m_maxPendingConnections v) then m_maxPendingConnections v else n_SOMAXCONN N"
  obtain sock w1 where sock: "n_socket N w = (sock, w1)" by (cases "n_socket N w")
  obtain q w2 where bind: "n_bind N sock ?a w1 = (q, w2)" by (cases "n_bind N sock ?a w1")
  obtain q' w3 where lis: "n_listen N sock ?b w2 = (q', w3)" by (cases "n_listen N sock ?b w2")
  obtain s w4 where new: "tcp_of N sock w3 = (s, w4)" by (cases "tcp_of N sock w3")
  have s1: "goes N t (LsSocket h p, ptr, v, w)
      (if sint sock < 0 then Returned (RBool False) else LsBind h p sock, ptr, v, w1)"
    by (rule goes_sys[OF sexec.simps(6)]) (simp_all add: sock scrit_def)
  have s2: "goes N t (LsBind h p sock, ptr, v, w1) (if sint q < 0 then LsFail sock else LsBacklog sock, ptr, v, w2)"
    by (rule goes_sys[OF sexec.simps(7)]) (simp_all add: bind scrit_def)
  have fail: "goes N t (LsFail sock, ptr, v, u) (Returned (RBool False), ptr, v, n_close N sock u)" for u
    by (rule goes_sys[OF sexec.simps(11)]) (simp_all add: scrit_def)
  have s3: "goes N t (LsBacklog sock, ptr, v, w2) (LsListen ?b sock, ptr, v, w2)"
  proof (cases "0 < sint (m_maxPendingConnections v)")
    case True
    have "goes N t (LsBacklog sock, ptr, v, w2) (LsMax sock, ptr, v, w2)"
      by (rule goes_pure) (use True in \<open>auto simp: scrit_def alone_def server_view_def\<close>)
    moreover have "goes N t (LsMax sock, ptr, v, w2) (LsListen ?b sock, ptr, v, w2)"
      by (rule goes_pure) (use True in \<open>auto simp: scrit_def alone_def server_view_def\<close>)
    ultimately show ?thesis by (rule goes_trans)
  next
    case False
    then show ?thesis by (intro goes_pure) (auto simp: scrit_def alone_def server_view_def)
  qed
  have s4: "goes N t (LsListen ?b sock, ptr, v, w2) (if q' \<noteq> 0 then LsFail sock else LsLock sock, ptr, v, w3)"
    by (rule goes_sys[OF sexec.simps(10)]) (simp_all add: lis scrit_def)
  have s5: "gives N t (LsLock sock, ptr, v, w3) (Returned (RBool True)) (v\<lparr>m_pServerSocket := Some s\<rparr>, w4)"
  proof -
    have "goes N t (LsLock sock, ptr, v, w3) (LsNew sock, ptr, v, w3)" by (rule goes_lock) (simp_all add: scrit_def)
    from gives_trans[OF this gives_new[OF new]] show ?thesis
      by (rule gives_goes) (rule goes_unlock, simp_all add: scrit_def)
  qed
  have res: "(b, if b then v' else v, w') = (if sint sock < 0 then (False, v, w1)
      else if sint q < 0 then (False, v, n_close N sock w2)
      else if q' \<noteq> 0 then (False, v, n_close N sock w3) else (True, v\<lparr>m_pServerSocket := Some s\<rparr>, w4))"
    using r unfolding server_listen_def Let_def
    by (cases b) (simp_all add: isListening_def sock bind lis new cong: if_cong split: if_splits)
  have bound: "goes N t (LsSocket h p, ptr, v, w) (LsBacklog sock, ptr, v, w2)"
    if "\<not> sint sock < 0" "\<not> sint q < 0" using that goes_trans s1 s2 by simp
  consider "sint sock < 0" | "\<not> sint sock < 0" "sint q < 0" | "\<not> sint sock < 0" "\<not> sint q < 0" "q' \<noteq> 0"
    | "\<not> sint sock < 0" "\<not> sint q < 0" "q' = 0" by blast
  then show ?thesis
  proof cases
    case 1
    with s1 res show ?thesis by (auto dest: goes_gives)
  next
    case 2
    with s1 s2 have "goes N t (LsSocket h p, ptr, v, w) (LsFail sock, ptr, v, w2)" using goes_trans by simp
    with goes_gives[OF goes_trans[OF this fail]] 2 res show ?thesis by simp
  next
    case 3
    then have "goes N t (LsSocket h p, ptr, v, w) (LsFail sock, ptr, v, w3)"
      using goes_trans[OF bound goes_trans[OF s3 s4]] by simp
    with goes_gives[OF goes_trans[OF this fail]] 3 res show ?thesis by simp
  next
    case 4
    then have "goes N t (LsSocket h p, ptr, v, w) (LsLock sock, ptr, v, w3)"
      using goes_trans[OF bound goes_trans[OF s3 s4]] by simp
    with gives_trans[OF this s5] 4 res show ?thesis by (auto split: if_splits)
  qed
qed

text \<open>\<open>TcpServer::accept\<close> from the test of the descriptor on.\<close>

lemma gives_accept:
  assumes "isListening v" and v: "m_pServerSocket v = Some s" and r: "server_accept N v w = Some (r, w')"
  shows "gives N t (AcSelect (m_socket s), Some a, v, w) (Returned (RSock r)) (v, w')"
proof -
  let ?l = "m_socket s"
  obtain n w1 where sel: "n_select N ?l w = (n, w1)" by (cases "n_select N ?l w")
  obtain cs client w2 where acc: "n_accept N ?l w1 = (cs, client, w2)" by (cases "n_accept N ?l w1")
  obtain sk w3 where new: "tcp_of N cs w2 = (sk, w3)" by (cases "tcp_of N cs w2")
  have res: "(r, w') = (if sint ?l < 0 then (None, w) else if sint n \<le> 0 then (None, w1)
      else if sint cs < 0 then (None, w2)
      else (Some (setPeerPort (n_ntohs N (sin_port client)) (setPeerAddr (n_inet_ntoa N (sin_addr client)) sk)), w3))"
    and fits: "\<not> sint ?l < 0 \<Longrightarrow> \<not> FD_SETSIZE \<le> sint ?l"
    using r assms(1) unfolding server_accept_def server_nativeSocket_def nativeSocket_def Let_def
    by (simp_all add: v sel acc new split: if_splits)
  have sel_step: "goes N t (AcSelect ?l, Some a, v, w) (if sint n \<le> 0 then Returned (RSock None) else AcAccept ?l, Some a, v, w1)"
    if "\<not> sint ?l < 0"
    by (rule goes_sys[where call = "n_select N ?l" and k = "\<lambda>n. if sint n \<le> 0 then Returned (RSock None) else AcAccept ?l"])
      (use that fits sel in \<open>simp_all add: scrit_def\<close>)
  have acc_step: "goes N t (AcAccept ?l, Some a, v, w1) (Returned (RSock r), Some a, v, w')"
    if "\<not> sint ?l < 0" "\<not> sint n \<le> 0"
    by (rule goes_step) (use that res acc new in \<open>auto simp: alone_def sgo_def server_view_def scrit_def Let_def split: if_splits\<close>)
  have neg: "goes N t (AcSelect ?l, Some a, v, w) (Returned (RSock None), Some a, v, w)" if "sint ?l < 0"
    by (rule goes_pure) (use that in \<open>auto simp: scrit_def\<close>)
  consider "sint ?l < 0" | "\<not> sint ?l < 0" "sint n \<le> 0" | "\<not> sint ?l < 0" "\<not> sint n \<le> 0" by blast
  then show ?thesis
  proof cases
    case 1
    with goes_gives[OF neg] res show ?thesis by simp
  next
    case 2
    with goes_gives[OF sel_step] res show ?thesis by simp
  next
    case 3
    with goes_gives[OF goes_trans[OF _ acc_step]] sel_step show ?thesis by simp
  qed
qed

end

text \<open>What \<open>TcpServer\<close> says of an operation: its result, and the object and world it leaves; \<open>None\<close> is the
  overflow of the \<open>fd_set\<close>.\<close>

definition server_outcome :: "'w net \<Rightarrow> server_op \<Rightarrow> tcpserver \<times> 'w \<Rightarrow> (server_ret \<times> tcpserver \<times> 'w) option" where
  "server_outcome N opn vw = (case opn of
     OpListen h p \<Rightarrow> (case server_listen N h p vw of (b, vw') \<Rightarrow> Some (RBool b, vw'))
   | OpAccept \<Rightarrow> (case server_accept N (fst vw) (snd vw) of
         None \<Rightarrow> None | Some (r, w') \<Rightarrow> Some (RSock r, fst vw, w'))
   | OpClose \<Rightarrow> Some (RDone, server_close N vw)
   | OpIsListening \<Rightarrow> Some (RBool (isListening (fst vw)), vw)
   | OpSetMax c \<Rightarrow> Some (RDone, setMaxPendingConnections c (fst vw), snd vw))"

context posix_sync
begin

lemma gives_outcome:
  assumes out: "server_outcome N opn (v, w) = Some (r, vw')" and ptr: "isListening v = (ptr \<noteq> None)"
  shows "gives N t (sentry opn, ptr, v, w) (Returned r) vw'"
proof (cases opn)
  case (OpListen h p)
  obtain b v' w' where l: "server_listen N h p (v, w) = (b, v', w')" by (cases "server_listen N h p (v, w)")
  note ask = goes_asked[of N t "ForListen h p" ptr v w]
  show ?thesis
  proof (cases "isListening v")
    case True
    with l have "\<not> b" "v' = v" "w' = w" by (simp_all add: server_listen_def)
    with True ptr out l OpListen goes_gives[OF ask] show ?thesis by (simp add: server_outcome_def)
  next
    case False
    with ptr have test: "goes N t (sentry opn, ptr, v, w) (LsSocket h p, None, v, w)" using ask OpListen by auto
    have "v\<lparr>m_pServerSocket := None\<rparr> = v" using False by (simp add: isListening_def)
    then have "gives N t (LsSocket h p, None, v, w) (Returned (RBool b)) (if b then v' else v, w')"
      using gives_listen[of N h p v w b v' w' t None] l by simp
    moreover have "(if b then v' else v) = v'"
      using l by (auto simp: server_listen_def Let_def split: if_splits prod.splits)
    ultimately have "gives N t (LsSocket h p, None, v, w) (Returned (RBool b)) (v', w')" by simp
    from gives_trans[OF test this] have "gives N t (sentry opn, ptr, v, w) (Returned (RBool b)) (v', w')" .
    then show ?thesis using out l OpListen by (auto simp: server_outcome_def)
  qed
next
  case OpAccept
  note ask = goes_asked[of N t ForAccept ptr v w]
  show ?thesis
  proof (cases "m_pServerSocket v")
    case None
    then have "server_accept N v w = Some (None, w)" "ptr = None" using ptr by (simp_all add: server_accept_def isListening_def)
    with goes_gives[OF ask] out OpAccept show ?thesis by (simp add: server_outcome_def)
  next
    case (Some s)
    then have "isListening v" by (simp add: isListening_def)
    moreover from this obtain a where a: "ptr = Some a" using ptr by auto
    moreover obtain ro w' where "server_accept N v w = Some (ro, w')" "r = RSock ro" "vw' = (v, w')"
      using out OpAccept by (auto simp: server_outcome_def split: option.splits)
    ultimately have "gives N t (AcSelect (m_socket s), Some a, v, w) (Returned r) vw'"
      using gives_accept[OF _ Some] by simp
    from gives_trans[OF goes_server_native[OF Some] this] show ?thesis
      using ask OpAccept a by (auto intro: gives_trans)
  qed
next
  case OpClose
  show ?thesis
  proof (cases "m_pServerSocket v")
    case None
    then have "ptr = None" using ptr by (simp add: isListening_def)
    with goes_gives[OF goes_close_idle[of N t v w]] None OpClose out show ?thesis
      by (simp add: server_outcome_def server_close_def)
  next
    case (Some s)
    then obtain a where "ptr = Some a" using ptr by (auto simp: isListening_def)
    with goes_gives[OF goes_close[OF Some, of N t a w]] Some OpClose out show ?thesis
      by (auto simp: server_outcome_def server_close_def)
  qed
next
  case OpIsListening
  with goes_gives[OF goes_asked[of N t ForCaller ptr v w]] out ptr show ?thesis
    by (simp add: server_outcome_def)
next
  case (OpSetMax c)
  have "goes N t (MxStore c, ptr, v, w) (Returned RDone, ptr, setMaxPendingConnections c v, w)"
    by (rule goes_step) (auto simp: scrit_def alone_def sgo_def server_view_def setMaxPendingConnections_def)
  with goes_gives[OF this] OpSetMax out show ?thesis by (auto simp: server_outcome_def)
qed

lemma begin_step:
  "srv_inv st \<Longrightarrow> sv_ub st = None \<Longrightarrow> t < length (sv_pcs st) \<Longrightarrow> resting (sv_pcs st ! t) \<Longrightarrow>
     owner (sv_mutex st) = None \<Longrightarrow> server_view st = (v, w) \<Longrightarrow>
     sfire P N (Begin t opn) st = Some (sgo t (sentry opn) st) \<and>
     alone t (sentry opn) (sv_ptr st) v w (sgo t (sentry opn) st)"
  using srv_inv_fire[of st N "Begin t opn" "sgo t (sentry opn) st"]
  by (cases opn) (auto simp: alone_def sgo_def server_view_def scrit_def)

lemma begin_alone:
  assumes inv: "srv_inv st" and run: "sv_ub st = None" and t: "t < length (sv_pcs st)"
    and rest: "\<forall>pc \<in> set (sv_pcs st). resting pc" and vw: "server_view st = (v, w)"
  shows "sfire P N (Begin t opn) st = Some (sgo t (sentry opn) st)"
    and "alone t (sentry opn) (sv_ptr st) v w (sgo t (sentry opn) st)" and "isListening v = (sv_ptr st \<noteq> None)"
proof -
  have pc: "resting (sv_pcs st ! t)" using rest t by simp
  show fire: "sfire P N (Begin t opn) st = Some (sgo t (sentry opn) st)" using run t pc by simp
  have "owner (sv_mutex st) = None"
  proof (cases "owner (sv_mutex st)")
    case (Some u)
    then have "u < length (sv_pcs st)" "scrit (sv_pcs st ! u)" using inv by (auto simp: srv_inv_def)
    then have "\<not> resting (sv_pcs st ! u)" by (auto simp: resting_def scrit_def split: spc.splits)
    with rest \<open>u < length (sv_pcs st)\<close> show ?thesis by auto
  qed simp
  from begin_step[OF inv run t pc this vw] show al: "alone t (sentry opn) (sv_ptr st) v w (sgo t (sentry opn) st)" by blast
  then show "isListening v = (sv_ptr st \<noteq> None)" by (rule alone_listening) (cases opn; simp)
qed

lemma solo_run:
  "sfire P N (Begin t opn) st = Some st1 \<Longrightarrow> solo P N t st1 st' \<Longrightarrow> \<exists>k. srun P N (Begin t opn # replicate k (Stmt t)) st = Some st'"
  by (auto simp: solo_def)

lemma alone_refines:
  assumes inv: "srv_inv st" and run: "sv_ub st = None" and t: "t < length (sv_pcs st)"
    and rest: "\<forall>pc \<in> set (sv_pcs st). resting pc"
  shows "\<exists>k st'. srun P N (Begin t opn # replicate k (Stmt t)) st = Some st' \<and>
     (case server_outcome N opn (server_view st) of
        None \<Rightarrow> sv_ub st' = Some FdSetOverflow
      | Some (r, vw') \<Rightarrow> sv_ub st' = None \<and> sv_pcs st' ! t = Returned r \<and> server_view st' = vw')"
proof -
  obtain v w where vw: "server_view st = (v, w)" by (cases "server_view st")
  note start = begin_alone(1)[OF inv run t rest vw, where N = N and opn = opn]
    begin_alone(2)[OF inv run t rest vw, where opn = opn] begin_alone(3)[OF inv run t rest vw]
  show ?thesis
  proof (cases "server_outcome N opn (v, w)")
    case (Some rvw)
    obtain r vw' where rvw: "rvw = (r, vw')" by (cases rvw)
    from gives_outcome[OF Some[unfolded rvw] start(3), of t] start(2) obtain st' ptr'
      where st': "solo P N t (sgo t (sentry opn) st) st'" "alone t (Returned r) ptr' (fst vw') (snd vw') st'"
      by (auto simp: gives_def)
    from solo_run[OF start(1) st'(1)] obtain k where "srun P N (Begin t opn # replicate k (Stmt t)) st = Some st'" ..
    with st'(2) show ?thesis
      by (intro exI[of _ k] exI[of _ st']) (simp del: srun.simps add: vw Some rvw alone_def)
  next
    case None
    then obtain s where acc: "opn = OpAccept" "isListening v" "m_pServerSocket v = Some s" and big: "FD_SETSIZE \<le> sint (m_socket s)"
      by (auto simp: server_outcome_def server_accept_def Let_def isListening_def server_nativeSocket_def nativeSocket_def
          split: server_op.splits option.splits prod.splits if_splits)
    obtain a where a: "sv_ptr st = Some a" using acc(2) start(3) by auto
    have "goes N t (sentry opn, Some a, v, w) (AcSelect (m_socket s), Some a, v, w)"
      using goes_asked[of N t ForAccept "Some a" v w] goes_server_native[OF acc(3), of N t a w] acc(1)
      by (auto intro: goes_trans)
    with start(2) obtain st' where st': "solo P N t (sgo t (sentry opn) st) st'" "alone t (AcSelect (m_socket s)) (Some a) v w st'"
      by (auto simp: goes_def a)
    have "solo P N t st' (st'\<lparr>sv_ub := Some FdSetOverflow\<rparr>)"
      by (rule solo_step) (use st'(2) big in \<open>auto simp: alone_def FD_SETSIZE_def\<close>)
    from solo_run[OF start(1) solo_trans[OF st'(1) this]] obtain k where
      "srun P N (Begin t opn # replicate k (Stmt t)) st = Some (st'\<lparr>sv_ub := Some FdSetOverflow\<rparr>)" ..
    then show ?thesis
      by (intro exI[of _ k] exI[of _ "st'\<lparr>sv_ub := Some FdSetOverflow\<rparr>"]) (simp del: srun.simps add: vw None)
  qed
qed

end

section \<open>Overlapping calls of \<open>listen\<close>\<close>

lemma step_others: "sexec P N t pc st = Some st' \<Longrightarrow> u \<noteq> t \<Longrightarrow> sv_pcs st' ! u = sv_pcs st ! u"
  by (cases pc) (auto simp: srv_lock_def srv_unlock_def obj_lock_def obj_unlock_def sys_def with_obj_def put_obj_def sgo_def
      Let_def split: option.splits prod.splits if_splits)

lemma solo_others:
  assumes "solo P N t st st'" and "u \<noteq> t"
  shows "sv_pcs st' ! u = sv_pcs st ! u \<and> length (sv_pcs st') = length (sv_pcs st)"
proof -
  have "srun P N (replicate k (Stmt t)) st = Some st' \<Longrightarrow> sv_pcs st' ! u = sv_pcs st ! u" for k
  proof (induction k arbitrary: st)
    case (Suc k)
    then obtain st1 where st1: "sfire P N (Stmt t) st = Some st1" "srun P N (replicate k (Stmt t)) st1 = Some st'"
      by (auto split: option.splits)
    then have "sv_pcs st1 ! u = sv_pcs st ! u" using step_others[OF _ assms(2)] by (auto split: if_splits)
    with Suc.IH[OF st1(2)] show ?case by simp
  qed simp
  with assms(1) show ?thesis unfolding solo_def using run_length by blast
qed

context posix_sync
begin

lemma both_listen:
  assumes first: "server_listen N h p (server_new, w) = (True, v1, w1)"
    and second: "server_listen N h' p' (server_new, w1) = (True, v2, w2)"
  shows "\<exists>es st. srun P N es (server_start P 2 w) = Some st \<and>
     sv_pcs st = [Returned (RBool True), Returned (RBool True)] \<and> server_view st = (v2, w2)"
proof -
  let ?st = "server_start P 2 w" and ?q = "IsLock (ForListen h' p')"
  have start: "srv_inv ?st" "sv_ub ?st = None" "length (sv_pcs ?st) = 2" "sv_pcs ?st ! 0 = Rest" "sv_pcs ?st ! 1 = Rest"
    "owner (sv_mutex ?st) = None" "sv_ptr ?st = None" "server_view ?st = (server_new, w)"
    using srv_inv_init init_mutex by (simp_all add: server_start_def server_view_def pointee_def server_new_def mutex_new_def)
  \<comment> \<open>thread 1 asks whether the server listens\<close>
  have b1: "sfire P N (Begin 1 (OpListen h' p')) ?st = Some (sgo 1 ?q ?st)" "alone 1 ?q None server_new w (sgo 1 ?q ?st)"
    using begin_step[OF start(1,2), of 1 server_new w N "OpListen h' p'"] start by (simp_all add: resting_def)
  from goes_asked[of N 1 "ForListen h' p'" None server_new w] b1(2) obtain st1 where
    s1: "solo P N 1 (sgo 1 ?q ?st) st1" "alone 1 (LsSocket h' p') None server_new w st1" by (auto simp: goes_def)
  have p1: "length (sv_pcs st1) = 2" "sv_pcs st1 ! 0 = Rest"
    using solo_others[OF s1(1), of 0] start by (simp_all add: sgo_def)
  \<comment> \<open>thread 0 listens\<close>
  have a1: "srv_inv st1" "sv_ub st1 = None" "owner (sv_mutex st1) = None" "server_view st1 = (server_new, w)" "sv_ptr st1 = None"
    using s1(2) by (simp_all add: alone_def scrit_def)
  let ?p = "IsLock (ForListen h p)"
  have b2: "sfire P N (Begin 0 (OpListen h p)) st1 = Some (sgo 0 ?p st1)" "alone 0 ?p None server_new w (sgo 0 ?p st1)"
    using begin_step[OF a1(1,2), of 0 server_new w N "OpListen h p"] a1 p1 by (simp_all add: resting_def)
  have "gives N 0 (?p, None, server_new, w) (Returned (RBool True)) (v1, w1)"
    using gives_outcome[of N "OpListen h p" server_new w "RBool True" "(v1, w1)" None 0] first
    by (simp add: server_outcome_def isListening_def server_new_def)
  with b2(2) obtain st2 ptr where s2: "solo P N 0 (sgo 0 ?p st1) st2" "alone 0 (Returned (RBool True)) ptr v1 w1 st2"
    by (auto simp: gives_def)
  have p2: "length (sv_pcs st2) = 2" "sv_pcs st2 ! 1 = LsSocket h' p'"
    using solo_others[OF s2(1), of 1] s1(2) p1 by (simp_all add: sgo_def alone_def)
  \<comment> \<open>thread 1 goes on\<close>
  have "alone 1 (LsSocket h' p') ptr v1 w1 st2" using s2(2) p2 by (simp add: alone_def scrit_def)
  moreover have "v1\<lparr>m_pServerSocket := None\<rparr> = server_new"
    using first by (auto simp: server_listen_def Let_def server_new_def split: if_splits prod.splits)
  then have "gives N 1 (LsSocket h' p', ptr, v1, w1) (Returned (RBool True)) (v2, w2)"
    using gives_listen[of N h' p' v1 w1 True v2 w2 1 ptr] second by simp
  ultimately obtain st3 ptr' where s3: "solo P N 1 st2 st3" "alone 1 (Returned (RBool True)) ptr' v2 w2 st3"
    by (auto simp: gives_def)
  have p3: "length (sv_pcs st3) = 2" "sv_pcs st3 ! 0 = Returned (RBool True)" "sv_pcs st3 ! 1 = Returned (RBool True)"
    using solo_others[OF s3(1), of 0] s2(2) s3(2) p2 by (simp_all add: alone_def)
  obtain es where "srun P N es ?st = Some st3"
  proof -
    from solo_run[OF b1(1) s1(1)] solo_run[OF b2(1) s2(1)] s3(1) obtain k1 k2 k3 where
      "srun P N (Begin 1 (OpListen h' p') # replicate k1 (Stmt 1)) ?st = Some st1"
      "srun P N (Begin 0 (OpListen h p) # replicate k2 (Stmt 0)) st1 = Some st2"
      "srun P N (replicate k3 (Stmt 1)) st2 = Some st3" by (auto simp: solo_def)
    then have "srun P N ((Begin 1 (OpListen h' p') # replicate k1 (Stmt 1)) @
        (Begin 0 (OpListen h p) # replicate k2 (Stmt 0)) @ replicate k3 (Stmt 1)) ?st = Some st3"
      by (simp only: run_append option.case)
    then show ?thesis by (rule that)
  qed
  moreover have "sv_pcs st3 = [Returned (RBool True), Returned (RBool True)]"
    using p3 by (auto intro!: nth_equalityI simp: less_2_cases_iff)
  moreover have "server_view st3 = (v2, w2)" using s3(2) by (simp add: alone_def)
  ultimately show ?thesis by blast
qed

end

end
