(* ===== verification/ServerThreadsProofs.thy ===== *)
theory ServerThreadsProofs
  imports ServerThreadsAlone
begin

text \<open>The properties of the server in every interleaving of its callers.\<close>

section \<open>Properties\<close>

text \<open>C6: with any number of threads calling the server, in every interleaving and whatever else the program
  does, the socket behind \<open>m_pServerSocket\<close> is never used after \<open>close\<close> has deleted it, and at
  most one thread is inside the server's mutex.\<close>

theorem server_never_dangling:
  assumes "posix_sync P owner depth tokens" and "srun P N es (server_start P n w) = Some st"
  shows "sv_ub st \<noteq> Some Dangling \<and>
    (\<forall>t u. \<not> (t < length (sv_pcs st) \<and> u < length (sv_pcs st) \<and> t \<noteq> u \<and> scrit (sv_pcs st ! t) \<and> scrit (sv_pcs st ! u)))"
  using posix_sync.srv_inv_run[OF assms(1) posix_sync.srv_inv_init[OF assms(1)] assms(2)]
  by (auto simp: posix_sync.srv_inv_def[OF assms(1)])

text \<open>Threads 0 and 1 overlap: 1 waits for the mutex while 0 deletes the socket, and then finds none.\<close>

lemmas eval_server = server_start_def sgo_def srv_lock_def srv_unlock_def obj_lock_def obj_unlock_def with_obj_def put_obj_def
  sys_def got_native_def obj_at_def mutex_new_def locker_new_def locker_delete_def mutex_lock_def mutex_unlock_def
  ref_posix_def ref_lock_def ref_unlock_def ref_net_def ref_open_def ref_try_def demo_world_def tcp_of_def tcp_new_def
  resting_def Let_def

lemma replicate_numeral: "replicate (numeral k) x = x # replicate (pred_numeral k) x"
  by (simp add: numeral_eq_Suc)

theorem server_never_dangling_witness:
  "\<exists>st. srun ref_posix ref_net ([Begin 0 (OpListen [] 80)] @ replicate 10 (Stmt 0) @ [Begin 1 OpAccept] @ replicate 3 (Stmt 1) @
       [Begin 0 OpClose] @ replicate 16 (Stmt 0) @ replicate 4 (Stmt 1))
       (server_start ref_posix 2 (demo_world 6 False False [])) = Some st \<and>
     sv_pcs st = [Returned RDone, Returned (RSock None)] \<and> sv_ub st \<noteq> Some Dangling"
proof -
  obtain st where st: "srun ref_posix ref_net ([Begin 0 (OpListen [] 80)] @ replicate 10 (Stmt 0) @ [Begin 1 OpAccept] @
       replicate 3 (Stmt 1) @ [Begin 0 OpClose] @ replicate 16 (Stmt 0) @ replicate 4 (Stmt 1))
       (server_start ref_posix 2 (demo_world 6 False False [])) = Some st" "sv_pcs st = [Returned RDone, Returned (RSock None)]"
    by (simp add: eval_server replicate_numeral)
  with server_never_dangling[OF ref.posix_sync_axioms st(1)] show ?thesis by blast
qed

text \<open>C12: no call of the server deadlocks or loops: from every state that the threads can reach, at most 16
  more statements per thread can be executed without a new call, in whatever order, and when no
  statement can be executed any more every call has returned (unless an \<open>fd_set\<close> has overflowed).\<close>

theorem server_calls_end:
  assumes "posix_sync P owner depth tokens" and "srun P N es (server_start P n w) = Some st"
    and "srun P N es' st = Some st'" and "\<forall>e \<in> set es'. \<not> is_begin e" and "sv_ub st' = None"
  shows "length (filter is_stmt es') \<le> 16 * n \<and>
     ((\<forall>t. sfire P N (Stmt t) st' = None) \<longrightarrow> (\<forall>pc \<in> set (sv_pcs st'). resting pc))"
proof (intro conjI impI ballI)
  have len: "length (sv_pcs st) = n" using run_length[OF assms(2)] by (simp add: server_start_def)
  show "length (filter is_stmt es') \<le> 16 * n"
    using work_run[OF assms(3,5,4)] work_bound[of st] len by linarith
  fix pc assume stuck: "\<forall>t. sfire P N (Stmt t) st' = None" and "pc \<in> set (sv_pcs st')"
  then obtain t where t: "t < length (sv_pcs st')" "pc = sv_pcs st' ! t" by (metis in_set_conv_nth)
  note inv = posix_sync.srv_inv_run[OF assms(1)]
  have "posix_sync.srv_inv owner depth st'" by (rule inv[OF inv[OF posix_sync.srv_inv_init[OF assms(1)] assms(2)] assms(3)])
  note some = posix_sync.some_step[OF assms(1) this t(1), of N]
  show "resting pc"
  proof (rule ccontr)
    assume "\<not> resting pc"
    then obtain u where "u < length (sv_pcs st')" "sexec P N u (sv_pcs st' ! u) st' \<noteq> None" using some t(2) by auto
    with stuck[rule_format, of u] assms(5) show False by simp
  qed
qed

theorem server_calls_end_witness:
  "\<exists>st st'. srun ref_posix ref_net [Begin 0 OpIsListening, Begin 1 OpClose, Stmt 1] (server_start ref_posix 2 (demo_world 6 False False [])) = Some st \<and>
     srun ref_posix ref_net [Stmt 1, Stmt 1, Stmt 0, Stmt 0, Stmt 0] st = Some st' \<and> length (filter is_stmt
       ([Stmt 1, Stmt 1, Stmt 0, Stmt 0, Stmt 0] :: ref_world sevent list)) \<le> 16 * 2"
proof -
  obtain st st' where st: "srun ref_posix ref_net [Begin 0 OpIsListening, Begin 1 OpClose, Stmt 1]
        (server_start ref_posix 2 (demo_world 6 False False [])) = Some st"
      "srun ref_posix ref_net [Stmt 1, Stmt 1, Stmt 0, Stmt 0, Stmt 0] st = Some st'" "sv_ub st' = None"
    by (simp add: eval_server numeral_2_eq_2)
  with server_calls_end[OF ref.posix_sync_axioms st(1,2) _ st(3)] show ?thesis by auto
qed

text \<open>C5: the statements, with their mutexes and their heap, implement the functions of \<open>TcpServer\<close>: an
  operation begun when no other is under way, and not interrupted, returns the result of the function and
  leaves the object and the world it leaves, from every state the threads can reach.\<close>

theorem server_alone_refines:
  assumes "posix_sync P owner depth tokens" and "srun P N es (server_start P n w) = Some st" and "sv_ub st = None"
    and "\<forall>pc \<in> set (sv_pcs st). resting pc" and "t < n"
  shows "\<exists>k st'. srun P N (Begin t opn # replicate k (Stmt t)) st = Some st' \<and>
     (case server_outcome N opn (server_view st) of
        None \<Rightarrow> sv_ub st' = Some FdSetOverflow
      | Some (r, vw') \<Rightarrow> sv_ub st' = None \<and> sv_pcs st' ! t = Returned r \<and> server_view st' = vw')"
proof (rule posix_sync.alone_refines[OF assms(1) _ assms(3) _ assms(4)])
  show "posix_sync.srv_inv owner depth st"
    by (rule posix_sync.srv_inv_run[OF assms(1) posix_sync.srv_inv_init[OF assms(1)] assms(2)])
  show "t < length (sv_pcs st)" using run_length[OF assms(2)] assms(5) by (simp add: server_start_def)
qed

theorem server_alone_refines_witness:
  "\<exists>k st'. srun ref_posix ref_net (Begin 0 (OpListen [] 80) # replicate k (Stmt 0)) (server_start ref_posix 1 (demo_world 6 False False [])) = Some st' \<and>
     sv_pcs st' ! 0 = Returned (RBool True) \<and> server_nativeSocket (fst (server_view st')) = 6"
proof -
  let ?st = "server_start ref_posix 1 (demo_world 6 False False [])"
  have view: "server_view ?st = (server_new, demo_world 6 False False [])"
    by (simp add: server_start_def server_view_def pointee_def server_new_def)
  have l: "server_listen ref_net [] 80 (server_new, demo_world 6 False False []) =
      (True, server_new\<lparr>m_pServerSocket := Some (tcp_new\<lparr>m_socket := 6\<rparr>)\<rparr>, (demo_world 7 False False [])\<lparr>rw_open := [6, 5]\<rparr>)"
    by (simp add: server_listen_def server_new_def isListening_def ref_net_def ref_open_def ref_try_def demo_world_def
        tcp_of_def Let_def)
  have "srun ref_posix ref_net [] ?st = Some ?st" "sv_ub ?st = None" "\<forall>pc \<in> set (sv_pcs ?st). resting pc" "(0 :: nat) < 1"
    by (simp_all add: server_start_def resting_def)
  from server_alone_refines[OF ref.posix_sync_axioms this, of "OpListen [] 80"] obtain k st' where
    run: "srun ref_posix ref_net (Begin 0 (OpListen [] 80) # replicate k (Stmt 0)) ?st = Some st'"
    and out: "case server_outcome ref_net (OpListen [] 80) (server_view ?st) of
        None \<Rightarrow> sv_ub st' = Some FdSetOverflow
      | Some (r, vw') \<Rightarrow> sv_ub st' = None \<and> sv_pcs st' ! 0 = Returned r \<and> server_view st' = vw'" by blast
  from out[unfolded view] have "sv_pcs st' ! 0 = Returned (RBool True) \<and> server_nativeSocket (fst (server_view st')) = 6"
    by (simp add: server_outcome_def l server_nativeSocket_def nativeSocket_def)
  with run show ?thesis by blast
qed

text \<open>C16: as long as only one thread calls \<open>listen\<close>, no socket is ever lost: in every interleaving of its calls
  with any calls of the other threads, each socket that \<open>listen\<close> made and that has not been
  deleted is the one \<open>m_pServerSocket\<close> points to.\<close>

theorem server_socket_owned:
  assumes "posix_sync P owner depth tokens" and "srun P N es (server_start P n w) = Some st"
    and "\<forall>e \<in> set es. listens_on c e"
  shows "obj_at (sv_heap st) a = Some ob \<longrightarrow> sv_ptr st = Some a"
  using posix_sync.owned_run[OF assms(1,2) posix_sync.srv_inv_init[OF assms(1)] owned_init assms(3)]
  by (auto simp: owned_def)

theorem server_socket_owned_witness:
  "\<exists>st ob. srun ref_posix ref_net ([Begin 0 (OpListen [] 80), Begin 1 OpClose] @ replicate 10 (Stmt 0) @ replicate 4 (Stmt 1))
       (server_start ref_posix 2 (demo_world 6 False False [])) = Some st \<and>
     obj_at (sv_heap st) 0 = Some ob \<and> sv_ptr st = Some 0"
proof -
  obtain st ob where st: "srun ref_posix ref_net ([Begin 0 (OpListen [] 80), Begin 1 OpClose] @ replicate 10 (Stmt 0) @ replicate 4 (Stmt 1))
       (server_start ref_posix 2 (demo_world 6 False False [])) = Some st" "obj_at (sv_heap st) 0 = Some ob"
    by (simp add: eval_server replicate_numeral)
  with server_socket_owned[OF ref.posix_sync_axioms st(1), of 0 0 ob] show ?thesis by auto
qed

text \<open>C35: two calls of \<open>listen\<close> that overlap both succeed, although a server listens once: whenever the system
  grants both requests, there is an interleaving in which both return true, the server knows only the second
  socket, and the descriptor of the first stays open even after the server has been closed.\<close>

theorem overlapping_listens_leak:
  assumes "posix_sync P owner depth tokens" and net: "net_calls N opened inbox hungup"
    and first: "server_listen N h p (server_new, w) = (True, v1, w1)"
    and second: "server_listen N h' p' (server_new, w1) = (True, v2, w2)"
  shows "\<exists>es st. srun P N es (server_start P 2 w) = Some st \<and>
     sv_pcs st = [Returned (RBool True), Returned (RBool True)] \<and> server_view st = (v2, w2) \<and>
     server_nativeSocket v1 \<notin> opened w \<and> server_nativeSocket v1 \<in> opened (snd (server_close N (server_view st)))"
proof -
  obtain s1 where s1: "s1 \<notin> opened w" "opened w1 = insert s1 (opened w)" "server_nativeSocket v1 = s1"
    using net_calls.listen_result[OF net first] by auto
  obtain s2 where s2: "s2 \<notin> opened w1" "opened w2 = insert s2 (opened w1)" "server_nativeSocket v2 = s2" "isListening v2"
    using net_calls.listen_result[OF net second] by auto
  obtain v3 w3 where close: "server_close N (v2, w2) = (v3, w3)" by (cases "server_close N (v2, w2)")
  have "server_fds v2 = {s2}"
    using s2(3,4) by (auto simp: server_fds_def server_nativeSocket_def nativeSocket_def isListening_def)
  with net_calls.close_result[OF net close] s1 s2 have "s1 \<in> opened w3" by auto
  with posix_sync.both_listen[OF assms(1) first second] s1 close show ?thesis by fastforce
qed

theorem overlapping_listens_leak_witness:
  "\<exists>es st. srun ref_posix ref_net es (server_start ref_posix 2 (demo_world 6 False False [])) = Some st \<and>
     sv_pcs st = [Returned (RBool True), Returned (RBool True)] \<and>
     6 \<in> set (rw_open (snd (server_close ref_net (server_view st))))"
proof -
  let ?v1 = "server_new\<lparr>m_pServerSocket := Some (tcp_new\<lparr>m_socket := 6\<rparr>)\<rparr>" and ?w1 = "(demo_world 7 False False [])\<lparr>rw_open := [6, 5]\<rparr>"
  have l: "server_listen ref_net [] 80 (server_new, demo_world 6 False False []) = (True, ?v1, ?w1)"
    and l': "server_listen ref_net [] 81 (server_new, ?w1) =
      (True, server_new\<lparr>m_pServerSocket := Some (tcp_new\<lparr>m_socket := 7\<rparr>)\<rparr>, ?w1\<lparr>rw_open := [7, 6, 5], rw_next := 8\<rparr>)"
    by (simp_all add: server_listen_def server_new_def isListening_def ref_net_def ref_open_def ref_try_def demo_world_def
        tcp_of_def Let_def)
  have "server_nativeSocket ?v1 = 6" by (simp add: server_nativeSocket_def nativeSocket_def)
  with overlapping_listens_leak[OF ref.posix_sync_axioms rn.net_calls_axioms l l'] show ?thesis by metis
qed

text \<open>\<open>close\<close> closes the descriptor of the server three times, and in between the system may hand it out
  again: here thread 1 begins to listen before thread 0 does, thread 0 listens and closes, and thread 1 is given
  the descriptor that thread 0 has closed once. Both calls succeed, and the server is left listening on
  a descriptor that is not open.\<close>

theorem close_hits_listener:
 "\<exists>st. srun ref_posix ref_net ([Begin 1 (OpListen [] 81)] @ replicate 3 (Stmt 1) @
       [Begin 0 (OpListen [] 80)] @ replicate 10 (Stmt 0) @ [Begin 0 OpClose] @ replicate 7 (Stmt 0) @
       [Elsewhere (demo_world 6 False False [])] @ replicate 4 (Stmt 1) @ replicate 9 (Stmt 0) @ replicate 3 (Stmt 1))
       (server_start ref_posix 2 (demo_world 6 False False [])) = Some st \<and>
     sv_pcs st = [Returned RDone, Returned (RBool True)] \<and> isListening (fst (server_view st)) \<and>
     server_nativeSocket (fst (server_view st)) \<notin> set (rw_open (sv_world st))"
  by (simp add: eval_server replicate_numeral server_view_def pointee_def isListening_def server_nativeSocket_def nativeSocket_def)

end
