(* ===== verification/WinSockets.thy ===== *)
theory WinSockets
  imports TcpServer
begin

text \<open>
  Model of the Windows build of \<open>src/src/TcpSocket.cpp\<close> and \<open>src/src/TcpServer.cpp\<close>. There
  \<open>SOCKET_TYPE\<close> is \<open>SOCKET\<close>, an unsigned integer of 64 bits, a call that fails returns
  \<open>INVALID_SOCKET\<close>, which is its largest value, and \<open>recv\<close> and \<open>send\<close> take and return an
  \<open>int\<close>. The tests of the code are the same as in the POSIX build, but they compare unsigned numbers.
\<close>

section \<open>System calls\<close>

type_synonym handle = "64 word"

definition INVALID_SOCKET :: handle where
  "INVALID_SOCKET = - 1"

text \<open>
  The calls of winsock, as parameters. \<open>k_accept\<close> is given what the caller's \<open>sockaddr_in\<close> contains
  and gives what it contains afterwards. The receive timeout is a \<open>DWORD\<close> in milliseconds.
\<close>

record 'w winsock =
  k_socket :: "'w \<Rightarrow> handle \<times> 'w"
  k_connect :: "handle \<Rightarrow> sockaddr \<Rightarrow> 'w \<Rightarrow> int32 \<times> 'w"
  k_bind :: "handle \<Rightarrow> sockaddr \<Rightarrow> 'w \<Rightarrow> int32 \<times> 'w"
  k_listen :: "handle \<Rightarrow> int32 \<Rightarrow> 'w \<Rightarrow> int32 \<times> 'w"
  k_select :: "handle \<Rightarrow> 'w \<Rightarrow> int32 \<times> 'w"
  k_accept :: "handle \<Rightarrow> sockaddr \<Rightarrow> 'w \<Rightarrow> handle \<times> sockaddr \<times> 'w"
  k_recv :: "handle \<Rightarrow> int32 \<Rightarrow> 'w \<Rightarrow> int32 \<times> char list \<times> 'w"
  k_send :: "handle \<Rightarrow> char list \<Rightarrow> int32 \<Rightarrow> 'w \<Rightarrow> int32 \<times> 'w"
  k_fionread :: "handle \<Rightarrow> 'w \<Rightarrow> u32 option"
  k_rcvtimeo :: "handle \<Rightarrow> u32 \<Rightarrow> 'w \<Rightarrow> 'w"
  k_shutdown :: "handle \<Rightarrow> int \<Rightarrow> 'w \<Rightarrow> 'w"
  k_closesocket :: "handle \<Rightarrow> 'w \<Rightarrow> 'w"
  k_inet_addr :: "string \<Rightarrow> u32"
  k_inet_ntoa :: "u32 \<Rightarrow> string"
  k_htons :: "port \<Rightarrow> port"
  k_ntohs :: "port \<Rightarrow> port"
  k_SOMAXCONN :: int32

text \<open>
  What winsock documents: a socket it hands out is open and is not \<open>INVALID_SOCKET\<close>, the calls on
  handles that are not open fail, and none of them changes which handles are open.
\<close>

locale winsock_calls =
  fixes W :: "'w winsock"
    and live :: "'w \<Rightarrow> handle set"
  assumes invalid: "INVALID_SOCKET \<notin> live w"
    and k_socket_live: "k_socket W w = (h, w') \<Longrightarrow>
      if h = INVALID_SOCKET then live w' = live w else h \<notin> live w \<and> live w' = insert h (live w)"
    and k_accept_live: "k_accept W l buf w = (h, a, w') \<Longrightarrow>
      if h = INVALID_SOCKET then a = buf \<and> live w' = live w else h \<notin> live w \<and> live w' = insert h (live w)"
    and k_connect_live: "k_connect W h a w = (r, w') \<Longrightarrow> live w' = live w \<and> (h \<notin> live w \<longrightarrow> r = - 1)"
    and k_bind_live: "k_bind W h a w = (r, w') \<Longrightarrow> live w' = live w \<and> (h \<notin> live w \<longrightarrow> r = - 1)"
    and k_listen_live: "k_listen W h b w = (r, w') \<Longrightarrow> live w' = live w \<and> (h \<notin> live w \<longrightarrow> r = - 1)"
    and k_select_live: "k_select W h w = (r, w') \<Longrightarrow> live w' = live w"
    and k_recv_live: "k_recv W h n w = (r, bs, w') \<Longrightarrow> live w' = live w \<and> (h \<notin> live w \<longrightarrow> r = - 1 \<and> bs = [])"
    and k_send_live: "k_send W h bs n w = (r, w') \<Longrightarrow> live w' = live w \<and> (h \<notin> live w \<longrightarrow> r = - 1)"
    and k_rcvtimeo_live: "live (k_rcvtimeo W h ms w) = live w"
    and k_shutdown_live: "live (k_shutdown W h how w) = live w"
    and k_closesocket_live: "live (k_closesocket W h w) = live w - {h}"

section \<open>TcpSocket\<close>

record wtcpsocket = socket +
  ws_socket :: handle
  ws_peerAddr :: string
  ws_peerPort :: "port option"

type_synonym 'w wtcp = "wtcpsocket \<times> 'w"

definition win_tcp_new :: wtcpsocket where
  "win_tcp_new = \<lparr>m_protocol = Protocol_Tcp, m_error = False, m_errorText = [],
     ws_socket = INVALID_SOCKET, ws_peerAddr = [], ws_peerPort = None\<rparr>"

text \<open>The \<open>struct timeval\<close> of one second is read as a \<open>DWORD\<close>: its first four bytes, one millisecond.\<close>

definition win_tcp_of :: "'w winsock \<Rightarrow> handle \<Rightarrow> 'w \<Rightarrow> 'w wtcp" where
  "win_tcp_of W s w = (win_tcp_new\<lparr>ws_socket := s\<rparr>, k_rcvtimeo W s 1 w)"

definition win_nativeSocket :: "wtcpsocket \<Rightarrow> handle" where
  "win_nativeSocket s = ws_socket s"

definition win_isConnected :: "wtcpsocket \<Rightarrow> bool" where
  "win_isConnected s \<longleftrightarrow> 0 < ws_socket s"

definition win_close :: "'w winsock \<Rightarrow> stream \<Rightarrow> wtcpsocket \<Rightarrow> 'w \<Rightarrow> 'w" where
  "win_close W stream s w =
     (let sock = win_nativeSocket s; w1 = k_shutdown W sock (shutdown_how stream) w in k_closesocket W sock w1)"

definition win_delete :: "'w winsock \<Rightarrow> wtcpsocket \<Rightarrow> 'w \<Rightarrow> 'w" where
  "win_delete W s w = k_closesocket W (ws_socket s) (win_close W Stream_All s w)"

text \<open>The \<open>size_t\<close> sizes are passed as \<open>int\<close>.\<close>

definition win_readBuffer :: "'w winsock \<Rightarrow> size_t \<Rightarrow> char list \<Rightarrow> 'w wtcp \<Rightarrow> size_t \<times> char list \<times> 'w wtcp" where
  "win_readBuffer W n buf st = (case st of (s, w) \<Rightarrow>
     if \<not> win_isConnected s then (0, buf, st)
     else (case k_recv W (win_nativeSocket s) (ucast n) w of (k, bs, w') \<Rightarrow>
       let buf' = bs @ drop (length bs) buf
       in if sint k < 0 then (0, buf', (setError ''Unable to read data'' s, w'))
          else (scast k, buf', (s, w'))))"


definition win_available :: "'w winsock \<Rightarrow> 'w wtcp \<Rightarrow> size_t" where
  "win_available W st = (case st of (s, w) \<Rightarrow>
     if \<not> win_isConnected s then 0
     else (case k_fionread W (win_nativeSocket s) w of None \<Rightarrow> 0 | Some k \<Rightarrow> ucast k))"

definition win_connectToHost :: "'w winsock \<Rightarrow> string \<Rightarrow> port \<Rightarrow> 'w wtcp \<Rightarrow> bool \<times> 'w wtcp" where
  "win_connectToHost W hostName p st = (case st of (s, w) \<Rightarrow>
     let w1 = (if win_isConnected s then win_close W Stream_All s w else w)
     in case k_socket W w1 of (sock, w2) \<Rightarrow>
       if sock < 0 then (False, (setError ''Unable to create a socket'' s, w2))
       else let server = \<lparr>sin_addr = k_inet_addr W (c_str hostName), sin_port = k_htons W p\<rparr>
         in case k_connect W sock server w2 of (r, w3) \<Rightarrow>
           if 0 \<le> sint r then (True, (s\<lparr>ws_socket := sock\<rparr>, w3)) else (False, (s, w3)))"

section \<open>TcpServer\<close>

record wtcpserver =
  ws_pServerSocket :: "wtcpsocket option"
  ws_maxPendingConnections :: int32

definition win_isListening :: "wtcpserver \<Rightarrow> bool" where
  "win_isListening v \<longleftrightarrow> ws_pServerSocket v \<noteq> None"

definition win_server_nativeSocket :: "wtcpserver \<Rightarrow> handle" where
  "win_server_nativeSocket v = (case ws_pServerSocket v of None \<Rightarrow> - 1 | Some s \<Rightarrow> win_nativeSocket s)"


text \<open>
  A \<open>fd_set\<close> of winsock is an array of handles, so that one handle always fits. \<open>junk\<close> is what the
  uninitialised local \<open>client\<close> contains.
\<close>

definition win_accept :: "'w winsock \<Rightarrow> sockaddr \<Rightarrow> wtcpserver \<Rightarrow> 'w \<Rightarrow> wtcpsocket option \<times> 'w" where
  "win_accept W junk v w =
     (if \<not> win_isListening v then (None, w)
      else let sock = win_server_nativeSocket v
        in if sock < 0 then (None, w)
           else (case k_select W sock w of (n, w1) \<Rightarrow>
             if sint n \<le> 0 then (None, w1)
             else (case k_accept W sock junk w1 of (clientSock, client, w2) \<Rightarrow>
               if clientSock < 0 then (None, w2)
               else let clientIp = k_inet_ntoa W (sin_addr client); clientPort = k_ntohs W (sin_port client)
                 in case win_tcp_of W clientSock w2 of (s, w3) \<Rightarrow>
                   (Some (s\<lparr>ws_peerAddr := clientIp, ws_peerPort := Some clientPort\<rparr>), w3))))"

definition win_server_close :: "'w winsock \<Rightarrow> wtcpserver \<times> 'w \<Rightarrow> wtcpserver \<times> 'w" where
  "win_server_close W st = (case st of (v, w) \<Rightarrow>
     (case ws_pServerSocket v of
        None \<Rightarrow> (v, w)
      | Some s \<Rightarrow> (v\<lparr>ws_pServerSocket := None\<rparr>, win_delete W s (win_close W Stream_All s w))))"

section \<open>A concrete system\<close>

text \<open>
  Handles are given out in order, nothing is given out when \<open>kw_refuse\<close> is set, and every peer
  accepts. The calls on a handle that is not open fail.
\<close>

record ref_wworld =
  kw_open :: "handle list"
  kw_next :: handle
  kw_refuse :: bool
  kw_in :: "char list"

definition kw_live :: "ref_wworld \<Rightarrow> handle set" where
  "kw_live w = set (kw_open w) - {INVALID_SOCKET}"

definition kw_give :: "ref_wworld \<Rightarrow> handle \<times> ref_wworld" where
  "kw_give w = (if kw_refuse w \<or> kw_next w \<in> set (kw_open w) \<or> kw_next w = INVALID_SOCKET then (INVALID_SOCKET, w)
     else (kw_next w, w\<lparr>kw_open := kw_next w # kw_open w, kw_next := kw_next w + 1\<rparr>))"

definition kw_try :: "handle \<Rightarrow> ref_wworld \<Rightarrow> int32 \<times> ref_wworld" where
  "kw_try h w = (if h \<in> set (kw_open w) \<and> h \<noteq> INVALID_SOCKET then 0 else - 1, w)"

definition ref_winsock :: "ref_wworld winsock" where
  "ref_winsock = \<lparr>
     k_socket = kw_give,
     k_connect = (\<lambda>h a. kw_try h),
     k_bind = (\<lambda>h a. kw_try h),
     k_listen = (\<lambda>h b. kw_try h),
     k_select = (\<lambda>h w. (1, w)),
     k_accept = (\<lambda>h buf w. case kw_give w of (s, w') \<Rightarrow>
       (s, if s = INVALID_SOCKET then buf else \<lparr>sin_addr = 42, sin_port = 7000\<rparr>, w')),
     k_recv = (\<lambda>h n w. if h \<in> set (kw_open w) \<and> h \<noteq> INVALID_SOCKET
       then (of_nat (min (nat (sint n)) (length (kw_in w))), take (nat (sint n)) (kw_in w), w\<lparr>kw_in := drop (nat (sint n)) (kw_in w)\<rparr>)
       else (- 1, [], w)),
     k_send = (\<lambda>h bs n w. if h \<in> set (kw_open w) \<and> h \<noteq> INVALID_SOCKET then (n, w) else (- 1, w)),
     k_fionread = (\<lambda>h w. Some (of_nat (length (kw_in w)))),
     k_rcvtimeo = (\<lambda>h ms w. w),
     k_shutdown = (\<lambda>h how w. w),
     k_closesocket = (\<lambda>h w. w\<lparr>kw_open := removeAll h (kw_open w)\<rparr>),
     k_inet_addr = (\<lambda>s. of_nat (length s)),
     k_inet_ntoa = (\<lambda>a. if a = 0 then ''0.0.0.0'' else ''10.0.0.1''),
     k_htons = id,
     k_ntohs = id,
     k_SOMAXCONN = 128\<rparr>"

interpretation kw: winsock_calls ref_winsock kw_live
  by unfold_locales (auto simp: ref_winsock_def kw_live_def kw_give_def kw_try_def split: if_splits)

section \<open>What goes wrong with \<open>INVALID_SOCKET\<close>\<close>

context winsock_calls
begin

lemma win_tcp_of_live: "win_tcp_of W h w = (s, w') \<Longrightarrow> ws_socket s = h \<and> \<not> m_error s \<and> live w' = live w"
  by (auto simp: win_tcp_of_def win_tcp_new_def k_rcvtimeo_live)

text \<open>Reading from a socket without an open handle sets the error, whatever its handle is.\<close>

lemma read_dead:
  assumes "win_isConnected s" and "ws_socket s \<notin> live w"
  shows "\<exists>t w'. win_readBuffer W n buf (s, w) = (0, buf, (t, w')) \<and> isError t \<and> live w' = live w"
proof -
  obtain r bs w' where r: "k_recv W (ws_socket s) (ucast n) w = (r, bs, w')"
    by (cases "k_recv W (ws_socket s) (ucast n) w") auto
  from k_recv_live[OF this] assms(2) have "r = - 1" "bs = []" "live w' = live w" by simp_all
  with r assms(1) show ?thesis by (simp add: win_readBuffer_def win_nativeSocket_def Let_def)
qed

lemma accept_result:
  assumes "win_accept W junk v w = (r, w')"
  shows "case r of
     None \<Rightarrow> \<not> win_isListening v \<or> (\<exists>n. k_select W (win_server_nativeSocket v) w = (n, w') \<and> sint n \<le> 0)
   | Some s \<Rightarrow> win_isConnected s = (ws_socket s \<noteq> 0) \<and>
       (if ws_socket s = INVALID_SOCKET then live w' = live w \<and> ws_peerAddr s = k_inet_ntoa W (sin_addr junk)
        else ws_socket s \<notin> live w \<and> live w' = insert (ws_socket s) (live w))"
proof -
  let ?l = "win_server_nativeSocket v"
  obtain n w1 where sel: "k_select W ?l w = (n, w1)" by (cases "k_select W ?l w")
  obtain h a w2 where acc: "k_accept W ?l junk w1 = (h, a, w2)" by (cases "k_accept W ?l junk w1")
  obtain s w3 where new: "win_tcp_of W h w2 = (s, w3)" by (cases "win_tcp_of W h w2")
  show ?thesis
  proof (cases "win_isListening v \<and> 0 < sint n")
    case True
    then have "r = Some (s\<lparr>ws_peerAddr := k_inet_ntoa W (sin_addr a), ws_peerPort := Some (k_ntohs W (sin_port a))\<rparr>)" "w' = w3"
      using assms sel acc new by (simp_all add: win_accept_def Let_def)
    with k_accept_live[OF acc] k_select_live[OF sel] win_tcp_of_live[OF new] show ?thesis
      by (auto simp: win_isConnected_def word_gt_0)
  next
    case False
    then show ?thesis using assms sel by (auto simp: win_accept_def Let_def split: if_splits)
  qed
qed

lemma fresh_socket: "ws_socket win_tcp_new = INVALID_SOCKET" "win_isConnected win_tcp_new"
  by (simp_all add: win_tcp_new_def win_isConnected_def INVALID_SOCKET_def word_gt_0)

lemma connect_without_socket:
  assumes "k_socket W (win_close W Stream_All win_tcp_new w) = (INVALID_SOCKET, u)"
  shows "\<exists>w'. win_connectToHost W h p (win_tcp_new, w) = (False, (win_tcp_new, w'))"
proof -
  let ?a = "\<lparr>sin_addr = k_inet_addr W (c_str h), sin_port = k_htons W p\<rparr>"
  obtain r w' where c: "k_connect W INVALID_SOCKET ?a u = (r, w')" by (cases "k_connect W INVALID_SOCKET ?a u")
  from k_connect_live[OF c] invalid have "r = - 1" by simp
  with assms c fresh_socket(2) show ?thesis by (simp add: win_connectToHost_def Let_def)
qed

lemma accept_without_socket:
  assumes "win_isListening v" and "k_select W (win_server_nativeSocket v) w = (k, w1)" and "0 < sint k"
    and "k_accept W (win_server_nativeSocket v) junk w1 = (INVALID_SOCKET, a, w2)"
  shows "\<exists>s w'. win_accept W junk v w = (Some s, w') \<and> win_isConnected s \<and> ws_socket s \<notin> live w' \<and>
    ws_peerAddr s = k_inet_ntoa W (sin_addr junk)"
proof -
  obtain s w' where r: "win_accept W junk v w = (Some s, w')" "ws_socket s = INVALID_SOCKET"
    using assms by (auto simp: win_accept_def win_tcp_of_def Let_def)
  with accept_result[OF r(1)] invalid show ?thesis by (auto simp: INVALID_SOCKET_def)
qed

end

section \<open>Where the two builds agree\<close>

text \<open>
  Any system of \<open>Net\<close> as a winsock: descriptors are sign-extended to handles, so that the result
  \<open>-1\<close> of a call that fails is \<open>INVALID_SOCKET\<close>.
\<close>

definition winsock_of :: "'w net \<Rightarrow> 'w winsock" where
  "winsock_of N = \<lparr>
     k_socket = (\<lambda>w. case n_socket N w of (s, w') \<Rightarrow> (scast s, w')),
     k_connect = (\<lambda>h. n_connect N (ucast h)),
     k_bind = (\<lambda>h. n_bind N (ucast h)),
     k_listen = (\<lambda>h. n_listen N (ucast h)),
     k_select = (\<lambda>h. n_select N (ucast h)),
     k_accept = (\<lambda>h buf w. case n_accept N (ucast h) w of (s, a, w') \<Rightarrow> (scast s, if sint s < 0 then buf else a, w')),
     k_recv = (\<lambda>h n w. case n_recv N (ucast h) (scast n) w of (k, bs, w') \<Rightarrow> (ucast k, bs, w')),
     k_send = (\<lambda>h bs n w. case n_send N (ucast h) (take (nat (sint n)) bs) w of (k, w') \<Rightarrow> (ucast k, w')),
     k_fionread = (\<lambda>h w. map_option (\<lambda>k. ucast k) (n_fionread N (ucast h) w)),
     k_rcvtimeo = (\<lambda>h ms. n_rcvtimeo N (ucast h)),
     k_shutdown = (\<lambda>h. n_shutdown N (ucast h)),
     k_closesocket = (\<lambda>h. n_close N (ucast h)),
     k_inet_addr = n_inet_addr N,
     k_inet_ntoa = n_inet_ntoa N,
     k_htons = n_htons N,
     k_ntohs = n_ntohs N,
     k_SOMAXCONN = n_SOMAXCONN N\<rparr>"

lemma scast_handle [simp]: "(ucast (scast (s :: fd) :: handle) :: fd) = s"
proof (rule bit_word_eqI)
  fix n assume "n < LENGTH(32)"
  then have "n < 32" by simp
  then have "min 31 n = n" by simp
  with \<open>n < 32\<close> show "bit (ucast (scast s :: handle) :: fd) n = bit s n" by (simp add: bit_simps)
qed

text \<open>A socket or server of the POSIX build as one of the Windows build.\<close>

definition win_socket :: "tcpsocket \<Rightarrow> wtcpsocket" where
  "win_socket s = \<lparr>m_protocol = m_protocol s, m_error = m_error s, m_errorText = m_errorText s,
     ws_socket = scast (m_socket s), ws_peerAddr = m_peerAddr s, ws_peerPort = m_peerPort s\<rparr>"


lemma scast_zero [simp]: "(scast s :: handle) = 0 \<longleftrightarrow> s = (0 :: fd)"
  by (metis scast_0 scast_handle)


lemma win_error [simp]: "win_socket (setError e s) = setError e (win_socket s)"
  by (simp add: win_socket_def setError_def)

lemma win_close_agrees [simp]: "win_close (winsock_of N) how (win_socket s) w = tcp_close N how s w"
  by (simp add: win_close_def tcp_close_def win_nativeSocket_def nativeSocket_def win_socket_def winsock_of_def Let_def)

lemma win_delete_agrees [simp]: "win_delete (winsock_of N) (win_socket s) w = tcp_delete N s w"
proof -
  have "k_closesocket (winsock_of N) (ws_socket (win_socket s)) = n_close N (m_socket s)"
    by (simp add: winsock_of_def win_socket_def)
  then show ?thesis by (simp add: win_delete_def tcp_delete_def)
qed








section \<open>Properties\<close>

text \<open>C36: the Windows build does not see that a call failed to make a socket. A new socket says that it is
  connected, and reading from it sets the error; when \<open>connectToHost\<close> is refused a socket it does not report
  it; and when \<open>accept\<close> of a listening server fails, it returns a socket that says it is connected, with an
  address taken from uninitialised memory, although its handle is not open.\<close>

theorem win_invalid_socket_unnoticed:
  assumes "winsock_calls W live"
  shows "win_isConnected win_tcp_new \<and>
    (\<exists>t w'. win_readBuffer W n buf (win_tcp_new, w) = (0, buf, (t, w')) \<and> isError t) \<and>
    (k_socket W (win_close W Stream_All win_tcp_new w) = (INVALID_SOCKET, u) \<longrightarrow>
      (\<exists>w'. win_connectToHost W h p (win_tcp_new, w) = (False, (win_tcp_new, w')))) \<and>
    (win_isListening v \<and> k_select W (win_server_nativeSocket v) w = (k, w1) \<and> 0 < sint k \<and>
     k_accept W (win_server_nativeSocket v) junk w1 = (INVALID_SOCKET, a, w2) \<longrightarrow>
      (\<exists>s w'. win_accept W junk v w = (Some s, w') \<and> win_isConnected s \<and> ws_socket s \<notin> live w' \<and>
        ws_peerAddr s = k_inet_ntoa W (sin_addr junk)))"
proof (intro conjI impI)
  show conn: "win_isConnected win_tcp_new" by (rule winsock_calls.fresh_socket(2)[OF assms])
  show "\<exists>t w'. win_readBuffer W n buf (win_tcp_new, w) = (0, buf, (t, w')) \<and> isError t"
    using winsock_calls.read_dead[OF assms conn, of w n buf] winsock_calls.invalid[OF assms]
      winsock_calls.fresh_socket(1)[OF assms] by auto
qed (use winsock_calls.connect_without_socket[OF assms] winsock_calls.accept_without_socket[OF assms] in blast)+

theorem win_invalid_socket_unnoticed_witness:
  "\<exists>s w'. win_accept ref_winsock \<lparr>sin_addr = 0, sin_port = 9\<rparr>
       \<lparr>ws_pServerSocket = Some (win_tcp_new\<lparr>ws_socket := 5\<rparr>), ws_maxPendingConnections = 0\<rparr>
       \<lparr>kw_open = [5], kw_next = 6, kw_refuse = True, kw_in = []\<rparr> = (Some s, w') \<and>
     win_isConnected s \<and> ws_peerAddr s = ''0.0.0.0''"
proof -
  let ?v = "\<lparr>ws_pServerSocket = Some (win_tcp_new\<lparr>ws_socket := 5\<rparr>), ws_maxPendingConnections = 0\<rparr>"
    and ?w = "\<lparr>kw_open = [5], kw_next = 6, kw_refuse = True, kw_in = []\<rparr>" and ?junk = "\<lparr>sin_addr = 0, sin_port = 9\<rparr>"
  have pre: "win_isListening ?v" "k_select ref_winsock (win_server_nativeSocket ?v) ?w = (1, ?w)" "0 < sint (1 :: int32)"
    "k_accept ref_winsock (win_server_nativeSocket ?v) ?junk ?w = (INVALID_SOCKET, ?junk, ?w)"
    "k_inet_ntoa ref_winsock 0 = ''0.0.0.0''"
    by (simp_all add: win_isListening_def ref_winsock_def kw_give_def)
  from win_invalid_socket_unnoticed[OF kw.winsock_calls_axioms, where v = ?v and w = ?w and k = 1 and junk = ?junk]
  show ?thesis using pre by fastforce
qed



end
