(* ===== verification/Thread.thy ===== *)
theory Thread
  imports Mutex Sema
begin

text \<open>
  Model of \<open>src/src/Thread.h\<close> and \<open>src/src/Thread.cpp\<close> (the POSIX build). The object, the
  system thread it creates and any number of client threads that call its operations form a
  transition system: every program counter names the statement executed next, and threads
  interleave between statements. A pointer member is \<open>None\<close> once its target has been deleted;
  using it, or the object, after that is undefined behaviour, recorded in \<open>t_ub\<close>, as is joining
  or cancelling a joined thread. The runnable is a parameter: what a call of its \<open>run\<close> does first, and one
  further step of that call on the world, or \<open>None\<close> when it returns; a second call would do both again.
  \<open>g_starts\<close> counts the calls of \<open>start\<close>, for the statements only.
\<close>

section \<open>State\<close>

text \<open>\<open>IRunnable\<close>.\<close>

record 'w runnable =
  run_call :: "'w \<Rightarrow> 'w"
  run_step :: "'w \<Rightarrow> 'w option"

datatype 'w rpc = RWait | RLockOn | RStoreOn | RUnlockOn | RRun | RBody "'w runnable"
  | RLockOff | RStoreOff | RUnlockOff | RExit | RCancelled

datatype cop = OpStart | OpIsRunning | OpTerminate | OpJoin | OpDelete

datatype cpc = CIdle | CDone "bool option" | CStart | CLock | CRead | CUnlock bool
  | CTerminate | CJoin | CDelSem | CDelMutex

record ('m, 's, 'w) thread =
  m_pStartSemaphore :: "'s option"
  m_pMutex :: "'m option"
  m_running :: bool
  m_pRunnable :: "'w runnable option"
  t_runner :: "'w rpc"
  t_clients :: "cpc list"
  t_world :: 'w
  t_cancel :: bool
  t_joined :: bool
  t_ub :: bool
  g_starts :: nat

definition thread_new :: "('m, 's) posix \<Rightarrow> 'w runnable option \<Rightarrow> nat \<Rightarrow> 'w \<Rightarrow> ('m, 's, 'w) thread" where
  "thread_new P pRunnable n w = \<lparr>m_pStartSemaphore = Some (sema_new P 0), m_pMutex = Some (mutex_new P),
     m_running = False, m_pRunnable = pRunnable, t_runner = RWait, t_clients = replicate n CIdle, t_world = w,
     t_cancel = False, t_joined = False, t_ub = False, g_starts = 0\<rparr>"

abbreviation ub :: "('m, 's, 'w) thread \<Rightarrow> ('m, 's, 'w) thread option" where
  "ub st \<equiv> Some (st\<lparr>t_ub := True\<rparr>)"

definition crun :: "'w rpc \<Rightarrow> ('m, 's, 'w) thread \<Rightarrow> ('m, 's, 'w) thread" where
  "crun pc st = st\<lparr>t_runner := pc\<rparr>"

definition cgo :: "nat \<Rightarrow> cpc \<Rightarrow> ('m, 's, 'w) thread \<Rightarrow> ('m, 's, 'w) thread" where
  "cgo i pc st = st\<lparr>t_clients := (t_clients st)[i := pc]\<rparr>"

section \<open>Statements\<close>

text \<open>\<open>MutexLocker locker(m_pMutex)\<close>, its destructor, and an access to a member; \<open>k\<close> does the rest.\<close>

definition lock_stmt :: "('m, 's) posix \<Rightarrow> tid \<Rightarrow> (('m, 's, 'w) thread \<Rightarrow> ('m, 's, 'w) thread) \<Rightarrow>
    ('m, 's, 'w) thread \<Rightarrow> ('m, 's, 'w) thread option" where
  "lock_stmt P t k st = (case m_pMutex st of
     None \<Rightarrow> ub st
   | Some m \<Rightarrow> (case locker_new P t (Some m) of
       Some (Some m') \<Rightarrow> Some (k (st\<lparr>m_pMutex := Some m'\<rparr>)) | _ \<Rightarrow> None))"

definition unlock_stmt :: "('m, 's) posix \<Rightarrow> tid \<Rightarrow> (('m, 's, 'w) thread \<Rightarrow> ('m, 's, 'w) thread) \<Rightarrow>
    ('m, 's, 'w) thread \<Rightarrow> ('m, 's, 'w) thread option" where
  "unlock_stmt P t k st = (case m_pMutex st of
     None \<Rightarrow> ub st | Some m \<Rightarrow> Some (k (st\<lparr>m_pMutex := locker_delete P t (Some m)\<rparr>)))"

definition member_stmt :: "(('m, 's, 'w) thread \<Rightarrow> ('m, 's, 'w) thread) \<Rightarrow>
    ('m, 's, 'w) thread \<Rightarrow> ('m, 's, 'w) thread option" where
  "member_stmt k st = (if m_pMutex st = None then ub st else Some (k st))"

text \<open>
  \<open>threadRunner\<close>, with \<open>setRunning\<close> and \<open>run\<close> inlined. The result of \<open>wait\<close> is ignored;
  \<open>sig\<close> says that a signal interrupts it.
\<close>

fun rexec :: "('m, 's) posix \<Rightarrow> bool \<Rightarrow> 'w rpc \<Rightarrow> ('m, 's, 'w) thread \<Rightarrow> ('m, 's, 'w) thread option" where
  "rexec P sig RWait st = (case m_pStartSemaphore st of
     None \<Rightarrow> ub st
   | Some s \<Rightarrow> (case sema_wait P sig (\<lambda>_ _ s. (0, EINTR, s)) \<lparr>tv_sec = 0, tv_nsec = 0\<rparr> 0 s of
       None \<Rightarrow> None
     | Some (_, s') \<Rightarrow> Some (crun RLockOn (st\<lparr>m_pStartSemaphore := Some s'\<rparr>))))"
| "rexec P sig RLockOn st = lock_stmt P 0 (crun RStoreOn) st"
| "rexec P sig RStoreOn st = member_stmt (\<lambda>st. crun RUnlockOn (st\<lparr>m_running := True\<rparr>)) st"
| "rexec P sig RUnlockOn st = unlock_stmt P 0 (crun RRun) st"
| "rexec P sig RRun st = member_stmt (\<lambda>st. case m_pRunnable st of
     None \<Rightarrow> crun RLockOff st | Some r \<Rightarrow> crun (RBody r) (st\<lparr>t_world := run_call r (t_world st)\<rparr>)) st"
| "rexec P sig (RBody r) st = (case run_step r (t_world st) of
     None \<Rightarrow> Some (crun RLockOff st) | Some w \<Rightarrow> Some (st\<lparr>t_world := w\<rparr>))"
| "rexec P sig RLockOff st = lock_stmt P 0 (crun RStoreOff) st"
| "rexec P sig RStoreOff st = member_stmt (\<lambda>st. crun RUnlockOff (st\<lparr>m_running := False\<rparr>)) st"
| "rexec P sig RUnlockOff st = unlock_stmt P 0 (crun RExit) st"
| "rexec P sig RExit st = None"
| "rexec P sig RCancelled st = None"

definition ended :: "'w rpc \<Rightarrow> bool" where
  "ended pc \<longleftrightarrow> (case pc of RExit \<Rightarrow> True | RCancelled \<Rightarrow> True | _ \<Rightarrow> False)"

text \<open>The operations; client \<open>i\<close> is the thread \<open>Suc i\<close>, and the system thread is thread 0.\<close>

fun cexec :: "('m, 's) posix \<Rightarrow> nat \<Rightarrow> cpc \<Rightarrow> ('m, 's, 'w) thread \<Rightarrow> ('m, 's, 'w) thread option" where
  "cexec P i CStart st = (case m_pStartSemaphore st of
     None \<Rightarrow> ub st
   | Some s \<Rightarrow> Some (cgo i (CDone None) (st\<lparr>m_pStartSemaphore := Some (sema_notify P 1 s), g_starts := Suc (g_starts st)\<rparr>)))"
| "cexec P i CLock st = lock_stmt P (Suc i) (cgo i CRead) st"
| "cexec P i CRead st = member_stmt (\<lambda>st. cgo i (CUnlock (m_running st)) st) st"
| "cexec P i (CUnlock b) st = unlock_stmt P (Suc i) (cgo i (CDone (Some b))) st"
| "cexec P i CTerminate st =
     (if m_pMutex st = None \<or> t_joined st then ub st else Some (cgo i (CDone None) (st\<lparr>t_cancel := True\<rparr>)))"
| "cexec P i CJoin st =
     (if m_pMutex st = None \<or> t_joined st then ub st
      else if ended (t_runner st) then Some (cgo i (CDone None) (st\<lparr>t_joined := True\<rparr>)) else None)"
| "cexec P i CDelSem st = (if m_pStartSemaphore st = None then ub st else Some (cgo i CDelMutex (st\<lparr>m_pStartSemaphore := None\<rparr>)))"
| "cexec P i CDelMutex st = (if m_pMutex st = None then ub st else Some (cgo i (CDone None) (st\<lparr>m_pMutex := None\<rparr>)))"
| "cexec P i CIdle st = None"
| "cexec P i (CDone r) st = None"

primrec centry :: "cop \<Rightarrow> cpc" where
  "centry OpStart = CStart"
| "centry OpIsRunning = CLock"
| "centry OpTerminate = CTerminate"
| "centry OpJoin = CJoin"
| "centry OpDelete = CDelSem"

definition cidle :: "cpc \<Rightarrow> bool" where
  "cidle pc \<longleftrightarrow> (case pc of CIdle \<Rightarrow> True | CDone _ \<Rightarrow> True | _ \<Rightarrow> False)"

text \<open>
  A client calls an operation or executes its next statement; the system thread executes its
  next statement; or it acts on a cancellation request, which \<open>pthread_cancel\<close> leaves pending
  until a cancellation point: \<open>sem_wait\<close>, or anything the runnable does.
\<close>

datatype tevent = TCall nat cop | TClient nat | TRunner bool | TCancel

fun tfire :: "('m, 's) posix \<Rightarrow> tevent \<Rightarrow> ('m, 's, 'w) thread \<Rightarrow> ('m, 's, 'w) thread option" where
  "tfire P (TCall i op) st =
     (if \<not> t_ub st \<and> i < length (t_clients st) \<and> cidle (t_clients st ! i) then Some (cgo i (centry op) st) else None)"
| "tfire P (TClient i) st =
     (if \<not> t_ub st \<and> i < length (t_clients st) then cexec P i (t_clients st ! i) st else None)"
| "tfire P (TRunner sig) st = (if \<not> t_ub st then rexec P sig (t_runner st) st else None)"
| "tfire P TCancel st =
     (if \<not> t_ub st \<and> t_cancel st \<and> (case t_runner st of RWait \<Rightarrow> True | RBody _ \<Rightarrow> True | _ \<Rightarrow> False)
      then Some (crun RCancelled st) else None)"

primrec trun :: "('m, 's) posix \<Rightarrow> tevent list \<Rightarrow> ('m, 's, 'w) thread \<Rightarrow> ('m, 's, 'w) thread option" where
  "trun P [] st = Some st"
| "trun P (e # es) st = (case tfire P e st of None \<Rightarrow> None | Some st' \<Rightarrow> trun P es st')"

section \<open>Disciplined use\<close>

text \<open>
  What the clients have to respect: one client joins once, nobody cancels a thread that is being
  joined or has been, and the object is deleted after the join, while no other client uses it.
\<close>

fun polite :: "tevent \<Rightarrow> ('m, 's, 'w) thread \<Rightarrow> bool" where
  "polite (TCall i op) st \<longleftrightarrow>
     m_pStartSemaphore st \<noteq> None \<and> CDelSem \<notin> set (t_clients st) \<and>
     (case op of
        OpDelete \<Rightarrow> t_joined st \<and> (\<forall>c \<in> set (t_clients st). cidle c)
      | OpJoin \<Rightarrow> \<not> t_joined st \<and> CJoin \<notin> set (t_clients st) \<and> CTerminate \<notin> set (t_clients st)
      | OpTerminate \<Rightarrow> \<not> t_joined st \<and> CJoin \<notin> set (t_clients st)
      | _ \<Rightarrow> True)"
| "polite _ st \<longleftrightarrow> True"

fun unsignalled :: "tevent \<Rightarrow> bool" where
  "unsignalled (TRunner sig) \<longleftrightarrow> \<not> sig"
| "unsignalled _ \<longleftrightarrow> True"

text \<open>The states that disciplined clients can reach; \<open>sigs\<close> allows signals during the wait.\<close>

inductive treach :: "('m, 's) posix \<Rightarrow> bool \<Rightarrow> 'w runnable option \<Rightarrow> nat \<Rightarrow> 'w \<Rightarrow> ('m, 's, 'w) thread \<Rightarrow> bool"
  for P sigs r n w where
  init: "treach P sigs r n w (thread_new P r n w)"
| step: "treach P sigs r n w st \<Longrightarrow> polite e st \<Longrightarrow> sigs \<or> unsignalled e \<Longrightarrow> tfire P e st = Some st' \<Longrightarrow>
    treach P sigs r n w st'"

section \<open>Life time\<close>

text \<open>What a client at \<open>c\<close> allows another at \<open>d\<close> to be doing.\<close>

definition compatible :: "cpc \<Rightarrow> cpc \<Rightarrow> bool" where
  "compatible c d \<longleftrightarrow> (case c of
     CJoin \<Rightarrow> d \<noteq> CJoin \<and> d \<noteq> CTerminate
   | CDelSem \<Rightarrow> cidle d | CDelMutex \<Rightarrow> cidle d | _ \<Rightarrow> True)"

text \<open>What a client at \<open>c\<close> knows of the object.\<close>

definition client_ok :: "('m, 's, 'w) thread \<Rightarrow> cpc \<Rightarrow> bool" where
  "client_ok st c \<longleftrightarrow> (case c of
     CIdle \<Rightarrow> True
   | CDone _ \<Rightarrow> True
   | CJoin \<Rightarrow> m_pStartSemaphore st \<noteq> None \<and> \<not> t_joined st
   | CTerminate \<Rightarrow> m_pStartSemaphore st \<noteq> None \<and> \<not> t_joined st
   | CDelSem \<Rightarrow> m_pStartSemaphore st \<noteq> None \<and> t_joined st
   | CDelMutex \<Rightarrow> m_pStartSemaphore st = None \<and> t_joined st \<and> m_pMutex st \<noteq> None
   | _ \<Rightarrow> m_pStartSemaphore st \<noteq> None)"

definition life_inv :: "('m, 's, 'w) thread \<Rightarrow> bool" where
  "life_inv st \<longleftrightarrow> \<not> t_ub st \<and>
     (t_joined st \<longrightarrow> ended (t_runner st)) \<and>
     (m_pMutex st = None \<longrightarrow> m_pStartSemaphore st = None) \<and>
     (m_pStartSemaphore st = None \<longrightarrow> t_joined st) \<and>
     (\<forall>i < length (t_clients st). client_ok st (t_clients st ! i)) \<and>
     (\<forall>i < length (t_clients st). \<forall>j < length (t_clients st). i \<noteq> j \<longrightarrow>
        compatible (t_clients st ! i) (t_clients st ! j))"

lemmas stmt_defs = lock_stmt_def unlock_stmt_def member_stmt_def crun_def cgo_def
lemmas cpc_simps = compatible_def client_ok_def cidle_def

lemma life_init: "life_inv (thread_new P r n w)"
  by (auto simp: life_inv_def thread_new_def cpc_simps)

lemma rexec_frame:
  assumes "rexec P sig pc st = Some st'" and "m_pStartSemaphore st \<noteq> None" and "m_pMutex st \<noteq> None"
  shows "t_clients st' = t_clients st \<and> t_joined st' = t_joined st \<and> t_ub st' = t_ub st \<and> t_cancel st' = t_cancel st \<and>
    m_pStartSemaphore st' \<noteq> None \<and> m_pMutex st' \<noteq> None \<and> m_pRunnable st' = m_pRunnable st"
  using assms by (cases pc) (auto simp: stmt_defs locker_delete_def split: option.splits prod.splits)

lemma client_ok_cong:
  "t_joined st' = t_joined st \<Longrightarrow> (m_pStartSemaphore st' = None) = (m_pStartSemaphore st = None) \<Longrightarrow>
   (m_pMutex st' = None) = (m_pMutex st = None) \<Longrightarrow> client_ok st' = client_ok st"
  by (rule ext) (simp add: client_ok_def split: cpc.split)

lemma runner_live:
  assumes "life_inv st" and "rexec P sig (t_runner st) st = Some st'"
  shows "m_pStartSemaphore st \<noteq> None" and "m_pMutex st \<noteq> None"
proof -
  have "\<not> ended (t_runner st)" using assms(2) by (cases "t_runner st") (simp_all add: ended_def)
  then show "m_pStartSemaphore st \<noteq> None" "m_pMutex st \<noteq> None" using assms(1) by (auto simp: life_inv_def)
qed

lemma life_runner:
  assumes "life_inv st" and "rexec P sig (t_runner st) st = Some st'"
  shows "life_inv st'"
proof -
  note live = runner_live[OF assms]
  note f = rexec_frame[OF assms(2) live]
  have "t_joined st \<Longrightarrow> False"
    using assms by (cases "t_runner st") (simp_all add: life_inv_def ended_def)
  moreover from f have "client_ok st' = client_ok st" using live by (intro client_ok_cong) auto
  ultimately show ?thesis using f live assms(1) by (auto simp: life_inv_def)
qed

lemma life_cancel: "life_inv st \<Longrightarrow> life_inv (crun RCancelled st)"
  using client_ok_cong[of "crun RCancelled st" st] by (simp add: life_inv_def crun_def ended_def)

text \<open>A client that moves from one statement to another without touching the object's life.\<close>

lemma life_move:
  assumes inv: "life_inv st" and i: "i < length (t_clients st)"
    and cs: "t_clients st' = (t_clients st)[i := pc]" and ub: "\<not> t_ub st'"
    and ended: "t_joined st' \<Longrightarrow> ended (t_runner st')" "m_pMutex st' = None \<Longrightarrow> m_pStartSemaphore st' = None"
      "m_pStartSemaphore st' = None \<Longrightarrow> t_joined st'"
    and ok: "client_ok st' pc"
    and others: "\<And>j. j < length (t_clients st) \<Longrightarrow> j \<noteq> i \<Longrightarrow>
      client_ok st' (t_clients st ! j) \<and> compatible pc (t_clients st ! j) \<and> compatible (t_clients st ! j) pc"
  shows "life_inv st'"
  using assms unfolding life_inv_def by (auto simp: nth_list_update)

lemma compatible_idle: "cidle c \<Longrightarrow> compatible c d" "cidle d \<Longrightarrow> compatible c d"
  by (auto simp: cpc_simps split: cpc.splits)

lemma client_ok_idle: "cidle c \<Longrightarrow> client_ok st c"
  by (auto simp: cpc_simps split: cpc.splits)

lemma compatible_same:
  "\<not> cidle c \<Longrightarrow> compatible d c \<Longrightarrow> pc \<noteq> CJoin \<Longrightarrow> pc \<noteq> CTerminate \<Longrightarrow> compatible d pc"
  by (auto simp: cpc_simps split: cpc.splits)

lemma compatible_plain:
  "pc \<notin> {CJoin, CDelSem, CDelMutex} \<Longrightarrow> compatible pc d"
  by (auto simp: cpc_simps split: cpc.splits)

lemma life_client:
  assumes inv: "life_inv st" and i: "i < length (t_clients st)" and step: "cexec P i (t_clients st ! i) st = Some st'"
  shows "life_inv st'"
proof -
  let ?pc = "t_clients st ! i"
  have ok: "client_ok st ?pc" and ub: "\<not> t_ub st" and oth: "\<And>j. j < length (t_clients st) \<Longrightarrow> j \<noteq> i \<Longrightarrow>
      client_ok st (t_clients st ! j) \<and> compatible ?pc (t_clients st ! j) \<and> compatible (t_clients st ! j) ?pc"
    using inv i by (auto simp: life_inv_def)
  have glob: "t_joined st \<Longrightarrow> ended (t_runner st)" "m_pMutex st = None \<Longrightarrow> m_pStartSemaphore st = None"
      "m_pStartSemaphore st = None \<Longrightarrow> t_joined st"
    using inv by (auto simp: life_inv_def)
  have busy: "\<not> cidle ?pc" using step by (cases ?pc) (simp_all add: cidle_def)
  have plain: ?thesis
    if "t_clients st' = (t_clients st)[i := pc]" "\<not> t_ub st'" "t_joined st' = t_joined st"
      "t_runner st' = t_runner st" "(m_pStartSemaphore st' = None) = (m_pStartSemaphore st = None)"
      "(m_pMutex st' = None) = (m_pMutex st = None)" "pc \<notin> {CJoin, CTerminate, CDelSem, CDelMutex}" "client_ok st' pc" for pc
  proof (rule life_move[OF inv i that(1,2)])
    fix j
    assume j: "j < length (t_clients st)" "j \<noteq> i"
    show "client_ok st' (t_clients st ! j) \<and> compatible pc (t_clients st ! j) \<and> compatible (t_clients st ! j) pc"
      using oth[OF j] that client_ok_cong[OF that(3,5,6)] compatible_same[OF busy, of "t_clients st ! j" pc] compatible_plain[of pc]
      by simp
  qed (use that glob in \<open>auto\<close>)
  show ?thesis
  proof (cases ?pc)
    case CStart
    then show ?thesis using step ok ub
      by (intro plain[of "CDone None"]) (auto simp: stmt_defs client_ok_def)
  next
    case CLock
    then show ?thesis using step ok ub glob(2)
      by (intro plain[of CRead]) (auto simp: stmt_defs client_ok_def split: option.splits)
  next
    case CRead
    then show ?thesis using step ok ub glob(2)
      by (intro plain[of "CUnlock (m_running st)"]) (auto simp: stmt_defs client_ok_def split: if_splits)
  next
    case (CUnlock b)
    then show ?thesis using step ok ub glob(2)
      by (intro plain[of "CDone (Some b)"]) (auto simp: stmt_defs client_ok_def locker_delete_def split: option.splits)
  next
    case CTerminate
    then show ?thesis using step ok ub glob(2)
      by (intro plain[of "CDone None"]) (auto simp: stmt_defs client_ok_def split: if_splits)
  next
    case CJoin
    then have st': "st' = cgo i (CDone None) (st\<lparr>t_joined := True\<rparr>)" and e: "ended (t_runner st)"
      using step ok glob(2) by (auto simp: client_ok_def split: if_splits)
    show ?thesis
    proof (rule life_move[OF inv i])
      fix j assume j: "j < length (t_clients st)" "j \<noteq> i"
      show "client_ok st' (t_clients st ! j) \<and> compatible (CDone None) (t_clients st ! j) \<and> compatible (t_clients st ! j) (CDone None)"
        using oth[OF j] CJoin ok by (auto simp: st' cgo_def cpc_simps split: cpc.splits)
    qed (use ub e glob in \<open>auto simp: st' cgo_def client_ok_def\<close>)
  next
    case CDelSem
    then have st': "st' = cgo i CDelMutex (st\<lparr>m_pStartSemaphore := None\<rparr>)"
      using step ok by (auto simp: client_ok_def)
    show ?thesis
    proof (rule life_move[OF inv i])
      fix j assume j: "j < length (t_clients st)" "j \<noteq> i"
      then have "cidle (t_clients st ! j)" using oth[OF j] CDelSem by (simp add: compatible_def)
      then show "client_ok st' (t_clients st ! j) \<and> compatible CDelMutex (t_clients st ! j) \<and> compatible (t_clients st ! j) CDelMutex"
        by (auto simp: client_ok_idle compatible_idle)
    qed (use ub glob ok CDelSem in \<open>auto simp: st' cgo_def client_ok_def simp del: not_None_eq\<close>)
  next
    case CDelMutex
    then have st': "st' = cgo i (CDone None) (st\<lparr>m_pMutex := None\<rparr>)"
      using step ok by (auto simp: client_ok_def)
    show ?thesis
    proof (rule life_move[OF inv i])
      fix j assume j: "j < length (t_clients st)" "j \<noteq> i"
      then have "cidle (t_clients st ! j)" using oth[OF j] CDelMutex by (simp add: compatible_def)
      then show "client_ok st' (t_clients st ! j) \<and> compatible (CDone None) (t_clients st ! j) \<and> compatible (t_clients st ! j) (CDone None)"
        by (auto simp: client_ok_idle compatible_idle cidle_def)
    qed (use ub glob ok CDelMutex in \<open>auto simp: st' cgo_def client_ok_def\<close>)
  qed (use busy in \<open>simp_all add: cidle_def\<close>)
qed

lemma life_call:
  assumes inv: "life_inv st" and i: "i < length (t_clients st)" and idle: "cidle (t_clients st ! i)"
    and polite: "polite (TCall i opn) st"
  shows "life_inv (cgo i (centry opn) st)"
proof (rule life_move[OF inv i])
  have set: "t_clients st ! j \<in> set (t_clients st)" if "j < length (t_clients st)" for j using that by simp
  show "client_ok (cgo i (centry opn) st) (centry opn)"
    using polite by (cases opn) (auto simp: client_ok_def cgo_def)
  fix j assume j: "j < length (t_clients st)" "j \<noteq> i"
  have "client_ok st (t_clients st ! j)" using inv j by (simp add: life_inv_def)
  then show "client_ok (cgo i (centry opn) st) (t_clients st ! j) \<and> compatible (centry opn) (t_clients st ! j) \<and>
      compatible (t_clients st ! j) (centry opn)"
    using polite set[OF j(1)] by (cases opn; auto simp: cpc_simps cgo_def split: cpc.splits)
qed (use inv in \<open>auto simp: cgo_def life_inv_def\<close>)

lemma life_step:
  assumes "life_inv st" and "polite e st" and "tfire P e st = Some st'"
  shows "life_inv st'"
proof (cases e)
  case (TCall i opn)
  with assms show ?thesis using life_call by (simp split: if_splits) blast
next
  case (TClient i)
  with assms show ?thesis using life_client by (simp split: if_splits) blast
next
  case (TRunner sig)
  with assms show ?thesis using life_runner by (simp split: if_splits) blast
next
  case TCancel
  with assms show ?thesis using life_cancel by (auto split: if_splits)
qed

section \<open>Mutual exclusion\<close>

definition rcrit :: "'w rpc \<Rightarrow> bool" where
  "rcrit pc \<longleftrightarrow> (case pc of RStoreOn \<Rightarrow> True | RUnlockOn \<Rightarrow> True | RStoreOff \<Rightarrow> True | RUnlockOff \<Rightarrow> True | _ \<Rightarrow> False)"

definition ccrit :: "cpc \<Rightarrow> bool" where
  "ccrit pc \<longleftrightarrow> (case pc of CRead \<Rightarrow> True | CUnlock _ \<Rightarrow> True | _ \<Rightarrow> False)"

text \<open>Whether thread \<open>t\<close> is between the constructor and the destructor of a locker.\<close>

definition holds :: "('m, 's, 'w) thread \<Rightarrow> tid \<Rightarrow> bool" where
  "holds st t \<longleftrightarrow> (case t of 0 \<Rightarrow> rcrit (t_runner st) | Suc i \<Rightarrow> i < length (t_clients st) \<and> ccrit (t_clients st ! i))"

lemmas crit_simps = rcrit_def ccrit_def holds_def

lemma rexec_holds:
  assumes "rexec P sig (t_runner st) st = Some st'" and "m_pStartSemaphore st \<noteq> None" and "m_pMutex st = Some m"
  shows "(m_pMutex st' = Some m \<and> (holds st' 0 \<longleftrightarrow> holds st 0) \<or>
     \<not> holds st 0 \<and> holds st' 0 \<and> (\<exists>m'. p_mutex_lock P 0 m = Some m' \<and> m_pMutex st' = Some m') \<or>
     holds st 0 \<and> \<not> holds st' 0 \<and> m_pMutex st' = Some (p_mutex_unlock P 0 m)) \<and> t_clients st' = t_clients st"
  using assms
  by (cases "t_runner st")
    (auto simp: stmt_defs crit_simps locker_new_def locker_delete_def mutex_lock_def mutex_unlock_def
      split: option.splits prod.splits)

lemma cexec_holds:
  assumes "cexec P i (t_clients st ! i) st = Some st'" and "i < length (t_clients st)" and "m_pMutex st = Some m"
    and "client_ok st (t_clients st ! i)"
  shows "(m_pMutex st' = Some m \<and> (holds st' (Suc i) \<longleftrightarrow> holds st (Suc i)) \<or> m_pMutex st' = None \<or>
     \<not> holds st (Suc i) \<and> holds st' (Suc i) \<and> (\<exists>m'. p_mutex_lock P (Suc i) m = Some m' \<and> m_pMutex st' = Some m') \<or>
     holds st (Suc i) \<and> \<not> holds st' (Suc i) \<and> m_pMutex st' = Some (p_mutex_unlock P (Suc i) m)) \<and>
     t_runner st' = t_runner st \<and> (\<exists>pc. t_clients st' = (t_clients st)[i := pc])"
  using assms
  by (cases "t_clients st ! i")
    (auto simp: stmt_defs crit_simps client_ok_def locker_new_def locker_delete_def mutex_lock_def mutex_unlock_def
      split: option.splits if_splits)

context posix_sync
begin

definition sync_inv :: "('m, 's, 'w) thread \<Rightarrow> bool" where
  "sync_inv st \<longleftrightarrow> (\<forall>m. m_pMutex st = Some m \<longrightarrow>
     (\<forall>t. holds st t \<longleftrightarrow> owner m = Some t) \<and> (owner m \<noteq> None \<longrightarrow> depth m = 1))"

lemma sync_move:
  assumes "sync_inv st" and "m_pMutex st = Some m"
    and "m_pMutex st' = Some m \<and> (holds st' t \<longleftrightarrow> holds st t) \<or> m_pMutex st' = None \<or>
     \<not> holds st t \<and> holds st' t \<and> (\<exists>m'. p_mutex_lock P t m = Some m' \<and> m_pMutex st' = Some m') \<or>
     holds st t \<and> \<not> holds st' t \<and> m_pMutex st' = Some (p_mutex_unlock P t m)"
    and others: "\<And>u. u \<noteq> t \<Longrightarrow> holds st' u \<longleftrightarrow> holds st u"
  shows "sync_inv st'"
proof -
  have own: "\<And>u. holds st u \<longleftrightarrow> owner m = Some u" "owner m \<noteq> None \<Longrightarrow> depth m = 1"
    using assms(1,2) by (auto simp: sync_inv_def)
  consider "m_pMutex st' = Some m" "holds st' t \<longleftrightarrow> holds st t" | "m_pMutex st' = None"
    | m' where "\<not> holds st t" "holds st' t" "p_mutex_lock P t m = Some m'" "m_pMutex st' = Some m'"
    | "holds st t" "\<not> holds st' t" "m_pMutex st' = Some (p_mutex_unlock P t m)"
    using assms(3) by (elim disjE conjE exE) auto
  then show ?thesis
  proof cases
    case 1
    then have "holds st' u \<longleftrightarrow> holds st u" for u using others by (cases "u = t") auto
    then show ?thesis using own 1 by (simp add: sync_inv_def)
  next
    case 2
    then show ?thesis by (simp add: sync_inv_def)
  next
    case (3 m')
    then have "owner m = None" "owner m' = Some t" "depth m' = 1" using lock_owner[of t m m'] own by auto
    then show ?thesis using own others 3 by (auto simp: sync_inv_def) metis
  next
    case 4
    then have "owner (p_mutex_unlock P t m) = None" using own by (intro unlock_last) auto
    then show ?thesis using own others 4 by (auto simp: sync_inv_def) metis
  qed
qed

lemma sync_init: "sync_inv (thread_new P r n w)"
  using init_mutex by (auto simp: sync_inv_def thread_new_def mutex_new_def crit_simps split: nat.splits)

lemma sync_same:
  "sync_inv st \<Longrightarrow> m_pMutex st' = m_pMutex st \<Longrightarrow> (\<And>t. holds st' t \<longleftrightarrow> holds st t) \<Longrightarrow> sync_inv st'"
  by (simp add: sync_inv_def)

lemma sync_freed:
  assumes life: "life_inv st" and step: "tfire P e st = Some st'" and none: "m_pMutex st = None"
  shows "m_pMutex st' = None"
proof (cases e)
  case (TClient i)
  have "client_ok st (t_clients st ! i)" if "i < length (t_clients st)" using life that by (simp add: life_inv_def)
  moreover have "m_pStartSemaphore st = None" using life none by (simp add: life_inv_def)
  ultimately show ?thesis
    using step TClient none by (cases "t_clients st ! i") (auto simp: client_ok_def split: if_splits)
next
  case (TRunner sig)
  have "ended (t_runner st)" using life none by (simp add: life_inv_def)
  then show ?thesis using step TRunner by (cases "t_runner st") (auto simp: ended_def split: if_splits)
qed (use step none in \<open>auto simp: stmt_defs split: if_splits\<close>)

lemma sync_step:
  assumes inv: "sync_inv st" and life: "life_inv st" and step: "tfire P e st = Some st'"
  shows "sync_inv st'"
proof (cases "m_pMutex st")
  case None
  then show ?thesis using sync_freed[OF life step] by (simp add: sync_inv_def)
next
  case (Some m)
  show ?thesis
  proof (cases e)
    case (TCall i opn)
    then have i: "i < length (t_clients st)" "cidle (t_clients st ! i)" "st' = cgo i (centry opn) st"
      using step by (auto split: if_splits)
    have "\<not> ccrit (t_clients st ! i)" "\<not> ccrit (centry opn)"
      using i(2) by (cases "t_clients st ! i"; simp add: cidle_def ccrit_def) (cases opn; simp add: ccrit_def)
    then have h: "holds st' t \<longleftrightarrow> holds st t" for t
      using i(1) by (auto simp: i(3) cgo_def holds_def nth_list_update split: nat.split)
    show ?thesis by (rule sync_same[OF inv _ h]) (simp add: i(3) cgo_def)
  next
    case (TClient i)
    then have i: "i < length (t_clients st)" and ex: "cexec P i (t_clients st ! i) st = Some st'"
      using step by (auto split: if_splits)
    have "client_ok st (t_clients st ! i)" using life i by (simp add: life_inv_def)
    from cexec_holds[OF ex i Some this] show ?thesis
      by (intro sync_move[OF inv Some, where t = "Suc i"]) (auto simp: holds_def nth_list_update split: nat.split)
  next
    case (TRunner sig)
    then have ex: "rexec P sig (t_runner st) st = Some st'" using step by (auto split: if_splits)
    from rexec_holds[OF ex runner_live(1)[OF life ex] Some] show ?thesis
      by (intro sync_move[OF inv Some, where t = 0]) (auto simp: holds_def split: nat.split)
  next
    case TCancel
    then have "st' = crun RCancelled st" "\<not> rcrit (t_runner st)"
      using step by (auto simp: rcrit_def split: if_splits rpc.splits)
    then show ?thesis using sync_same[OF inv, of st'] by (auto simp: crun_def holds_def rcrit_def split: nat.split)
  qed
qed

end

section \<open>What the thread has done\<close>

text \<open>\<open>k\<close> steps of a call of \<open>run\<close>; what a call has done so far, and what one whole call does.\<close>

primrec body_steps :: "('w \<Rightarrow> 'w option) \<Rightarrow> nat \<Rightarrow> 'w \<Rightarrow> 'w option" where
  "body_steps f 0 w = Some w"
| "body_steps f (Suc k) w = (case body_steps f k w of None \<Rightarrow> None | Some w' \<Rightarrow> f w')"

definition worked :: "'w runnable option \<Rightarrow> 'w \<Rightarrow> 'w \<Rightarrow> bool" where
  "worked r w w' \<longleftrightarrow> w' = w \<or> (\<exists>f k. r = Some f \<and> body_steps (run_step f) k (run_call f w) = Some w')"

definition completed :: "'w runnable option \<Rightarrow> 'w \<Rightarrow> 'w \<Rightarrow> bool" where
  "completed r w w' \<longleftrightarrow> (case r of None \<Rightarrow> w' = w | Some f \<Rightarrow>
     \<exists>k. body_steps (run_step f) k (run_call f w) = Some w' \<and> run_step f w' = None)"

text \<open>The statements between the two calls of \<open>setRunning\<close>.\<close>

definition on_phase :: "'w rpc \<Rightarrow> bool" where
  "on_phase pc \<longleftrightarrow> (case pc of RUnlockOn \<Rightarrow> True | RRun \<Rightarrow> True | RBody _ \<Rightarrow> True | RLockOff \<Rightarrow> True | RStoreOff \<Rightarrow> True | _ \<Rightarrow> False)"

definition work_inv :: "'w runnable option \<Rightarrow> 'w \<Rightarrow> ('m, 's, 'w) thread \<Rightarrow> bool" where
  "work_inv r w st \<longleftrightarrow> m_pRunnable st = r \<and> (case t_runner st of
     RBody f \<Rightarrow> m_running st \<and> r = Some f \<and> (\<exists>k. body_steps (run_step f) k (run_call f w) = Some (t_world st))
   | RCancelled \<Rightarrow> t_cancel st \<and> worked r w (t_world st)
   | pc \<Rightarrow> m_running st = on_phase pc \<and>
       (case pc of RLockOff \<Rightarrow> completed r w (t_world st) | RStoreOff \<Rightarrow> completed r w (t_world st)
        | RUnlockOff \<Rightarrow> completed r w (t_world st) | RExit \<Rightarrow> completed r w (t_world st) | _ \<Rightarrow> t_world st = w))"

lemma body_next: "body_steps f k w = Some w' \<Longrightarrow> f w' = Some w'' \<Longrightarrow> body_steps f (Suc k) w = Some w''"
  by simp

lemma work_init: "work_inv r w (thread_new P r n w)"
  by (simp add: work_inv_def thread_new_def on_phase_def)

lemma work_runner:
  assumes "work_inv r w st" and "rexec P sig (t_runner st) st = Some st'" and "m_pStartSemaphore st \<noteq> None" and "m_pMutex st \<noteq> None"
  shows "work_inv r w st'"
proof (cases "t_runner st")
  case (RBody f)
  then obtain k where k: "body_steps (run_step f) k (run_call f w) = Some (t_world st)" "m_running st" "r = Some f" "m_pRunnable st = r"
    using assms(1) by (auto simp: work_inv_def)
  then show ?thesis
    using RBody assms(2) body_next[OF k(1)]
    by (cases "run_step f (t_world st)") (auto simp: work_inv_def crun_def completed_def on_phase_def simp del: body_steps.simps)
next
  case RRun
  moreover have "\<exists>k. body_steps (run_step f) k (run_call f w) = Some (run_call f w)" for f by (rule exI[of _ 0]) simp
  ultimately show ?thesis
    using assms by (auto simp: work_inv_def stmt_defs completed_def on_phase_def split: if_splits option.splits)
qed (use assms in \<open>auto simp: work_inv_def stmt_defs on_phase_def locker_delete_def split: option.splits prod.splits if_splits\<close>)

lemma work_client:
  assumes "cexec P i pc st = Some st'"
  shows "t_runner st' = t_runner st \<and> t_world st' = t_world st \<and> m_running st' = m_running st \<and>
    m_pRunnable st' = m_pRunnable st \<and> (t_cancel st \<longrightarrow> t_cancel st')"
  using assms by (cases pc) (auto simp: stmt_defs split: option.splits if_splits)

lemma work_same:
  "work_inv r w st \<Longrightarrow> t_runner st' = t_runner st \<Longrightarrow> t_world st' = t_world st \<Longrightarrow> m_running st' = m_running st \<Longrightarrow>
   m_pRunnable st' = m_pRunnable st \<Longrightarrow> (t_cancel st \<Longrightarrow> t_cancel st') \<Longrightarrow> work_inv r w st'"
  by (cases "t_runner st") (auto simp: work_inv_def)

lemma work_step:
  assumes inv: "work_inv r w st" and life: "life_inv st" and step: "tfire P e st = Some st'"
  shows "work_inv r w st'"
proof (cases e)
  case (TCall i opn)
  then show ?thesis using step work_same[OF inv, of st'] by (auto simp: cgo_def split: if_splits)
next
  case (TClient i)
  then have "cexec P i (t_clients st ! i) st = Some st'" using step by (auto split: if_splits)
  from work_client[OF this] show ?thesis using work_same[OF inv, of st'] by blast
next
  case (TRunner sig)
  then have ex: "rexec P sig (t_runner st) st = Some st'" using step by (auto split: if_splits)
  show ?thesis by (rule work_runner[OF inv ex runner_live[OF life ex]])
next
  case TCancel
  then show ?thesis
    using step inv
    by (auto simp: work_inv_def crun_def worked_def split: if_splits rpc.splits)
qed

section \<open>Starting, and who can be waiting for whom\<close>

lemma cexec_blocked:
  assumes "cexec P i pc st = None" and "client_ok st pc" and "life_inv st"
  shows "cidle pc \<or> pc = CLock \<and> (\<exists>m. m_pMutex st = Some m \<and> p_mutex_lock P (Suc i) m = None) \<or>
     pc = CJoin \<and> \<not> ended (t_runner st)"
  using assms
  by (cases pc) (auto simp: stmt_defs client_ok_def cidle_def life_inv_def locker_new_def mutex_lock_def
      split: option.splits if_splits)

lemma rexec_blocked:
  assumes "rexec P False pc st = None" and "m_pMutex st = Some m" and "m_pStartSemaphore st = Some s"
  shows "ended pc \<or> pc = RWait \<and> p_sem_wait P False s = None \<or> (pc = RLockOn \<or> pc = RLockOff) \<and> p_mutex_lock P 0 m = None"
  using assms
  by (cases pc) (auto simp: stmt_defs ended_def locker_new_def mutex_lock_def sema_wait_def split: option.splits if_splits)

text \<open>No thread can execute its next statement.\<close>

definition all_blocked :: "('m, 's) posix \<Rightarrow> ('m, 's, 'w) thread \<Rightarrow> bool" where
  "all_blocked P st \<longleftrightarrow> rexec P False (t_runner st) st = None \<and>
     (\<forall>i < length (t_clients st). cexec P i (t_clients st ! i) st = None)"

definition past_wait :: "'w rpc \<Rightarrow> nat" where
  "past_wait pc = (case pc of RWait \<Rightarrow> 0 | _ \<Rightarrow> 1)"

context posix_sync
begin

definition start_inv :: "'w \<Rightarrow> ('m, 's, 'w) thread \<Rightarrow> bool" where
  "start_inv w st \<longleftrightarrow>
     (\<forall>s. m_pStartSemaphore st = Some s \<longrightarrow> t_runner st \<noteq> RCancelled \<longrightarrow>
        tokens s + past_wait (t_runner st) = g_starts st) \<and>
     (g_starts st = 0 \<longrightarrow> t_world st = w \<and> \<not> m_running st \<and> (t_runner st = RWait \<or> t_runner st = RCancelled))"

lemma start_init: "start_inv w (thread_new P r n w)"
  using init_sem[of 0] by (simp add: start_inv_def thread_new_def sema_new_def past_wait_def)

lemma start_runner:
  assumes inv: "start_inv w st" and step: "rexec P False (t_runner st) st = Some st'"
    and live: "m_pStartSemaphore st \<noteq> None" "m_pMutex st \<noteq> None"
  shows "start_inv w st'"
proof (cases "t_runner st")
  case RWait
  obtain s where s: "m_pStartSemaphore st = Some s" using live(1) by blast
  then obtain r s' where r: "p_sem_wait P False s = Some (r, s')"
      "st' = crun RLockOn (st\<lparr>m_pStartSemaphore := Some s'\<rparr>)"
    using step RWait by (auto simp: sema_wait_def split: option.splits if_splits)
  then have "tokens s = Suc (tokens s')" using wait_result by blast
  then show ?thesis using inv RWait s r by (simp add: start_inv_def crun_def past_wait_def)
qed (use assms in \<open>auto simp: start_inv_def past_wait_def stmt_defs locker_delete_def split: option.splits prod.splits if_splits\<close>)

lemma start_client:
  assumes inv: "start_inv w st" and step: "cexec P i pc st = Some st'"
  shows "start_inv w st'"
  using assms
  by (cases pc) (auto simp: start_inv_def stmt_defs notify_tokens split: option.splits if_splits)

lemma start_step:
  assumes inv: "start_inv w st" and life: "life_inv st" and step: "tfire P e st = Some st'" and "unsignalled e"
  shows "start_inv w st'"
proof (cases e)
  case (TCall i opn)
  then show ?thesis using step inv by (auto simp: cgo_def start_inv_def split: if_splits)
next
  case (TClient i)
  then show ?thesis using step start_client[OF inv] by (auto split: if_splits)
next
  case (TRunner sig)
  then have ex: "rexec P False (t_runner st) st = Some st'" using step assms(4) by (auto split: if_splits)
  show ?thesis by (rule start_runner[OF inv ex runner_live[OF life ex]])
next
  case TCancel
  then show ?thesis using step inv by (auto simp: start_inv_def crun_def split: if_splits rpc.splits)
qed

lemma sync_alone: "sync_inv st \<Longrightarrow> m_pMutex st = Some m \<Longrightarrow> holds st t \<Longrightarrow> holds st u \<Longrightarrow> t = u"
  by (simp add: sync_inv_def)

lemma started_wait: "\<exists>s. p_sem_wait P False (sema_notify P 1 (sema_new P 0)) = Some (0, s)"
  using wait_takes[of "sema_notify P 1 (sema_new P 0)"] by (auto simp: notify_tokens)

lemma init_locks: "\<exists>m. p_mutex_lock P t (mutex_new P) = Some m"
  using lock_free[OF new_free] by blast

lemma start_none:
  "start_inv w st \<Longrightarrow> g_starts st = 0 \<Longrightarrow> t_world st = w \<and> \<not> m_running st \<and> (t_runner st = RWait \<or> t_runner st = RCancelled)"
  by (simp add: start_inv_def)

lemma blocked_unlocked:
  assumes life: "life_inv st" and sync: "sync_inv st" and m: "m_pMutex st = Some m" and block: "all_blocked P st"
  shows "owner m = None"
proof (rule ccontr)
  assume "owner m \<noteq> None"
  then obtain t where h: "holds st t" using sync m by (auto simp: sync_inv_def)
  show False
  proof (cases t)
    case 0
    then show False
      using h m block by (cases "t_runner st") (auto simp: all_blocked_def holds_def rcrit_def stmt_defs split: if_splits)
  next
    case (Suc i)
    then have "i < length (t_clients st)" "ccrit (t_clients st ! i)" using h by (auto simp: holds_def)
    then show False
      using m block by (cases "t_clients st ! i") (auto simp: all_blocked_def ccrit_def stmt_defs split: if_splits)
  qed
qed

lemma blocked_clients:
  assumes life: "life_inv st" and sync: "sync_inv st" and start: "start_inv w st" and block: "all_blocked P st"
    and i: "i < length (t_clients st)" and busy: "\<not> cidle (t_clients st ! i)"
  shows "t_clients st ! i = CJoin \<and> t_runner st = RWait \<and> g_starts st = 0"
proof -
  have c: "cexec P i (t_clients st ! i) st = None" "client_ok st (t_clients st ! i)"
    using block life i by (auto simp: all_blocked_def life_inv_def)
  note lock = blocked_unlocked[OF life sync _ block]
  have j: "t_clients st ! i = CJoin" "\<not> ended (t_runner st)"
    using cexec_blocked[OF c life] busy lock lock_enabled[of _ "Suc i"] by blast+
  then obtain s where s: "m_pStartSemaphore st = Some s" using c(2) by (auto simp: client_ok_def)
  then obtain m where m: "m_pMutex st = Some m" using life by (auto simp: life_inv_def)
  have "t_runner st = RWait" "p_sem_wait P False s = None"
    using rexec_blocked[of P "t_runner st" st m s] m s j(2) block lock[OF m] lock_enabled[of m 0]
    by (auto simp: all_blocked_def)
  moreover from this have "g_starts st = 0"
    using start s wait_enabled[of s] by (auto simp: start_inv_def past_wait_def)
  ultimately show ?thesis using j by blast
qed

end

lemma reach_inv:
  assumes "treach P sigs r n w st" and "posix_sync P owner depth tokens"
  shows "life_inv st \<and> posix_sync.sync_inv owner depth st \<and> work_inv r w st \<and>
    (\<not> sigs \<longrightarrow> posix_sync.start_inv tokens w st)"
  using assms(1)
proof induction
  case init
  then show ?case
    by (intro conjI impI life_init work_init posix_sync.sync_init[OF assms(2)] posix_sync.start_init[OF assms(2)])
next
  case (step st e st')
  then have l: "life_inv st" by blast
  have "life_inv st'" by (rule life_step[OF l step.hyps(2,4)])
  moreover have "posix_sync.sync_inv owner depth st'"
    using posix_sync.sync_step[OF assms(2) _ l step.hyps(4)] step.IH by blast
  moreover have "work_inv r w st'" using work_step[OF _ l step.hyps(4)] step.IH by blast
  moreover have "posix_sync.start_inv tokens w st'" if "\<not> sigs"
    using posix_sync.start_step[OF assms(2) _ l step.hyps(4)] step.IH step.hyps(3) that by blast
  ultimately show ?case by blast
qed

section \<open>Sleeping\<close>

text \<open>
  The deadlines of \<open>sleep\<close>, on Linux and on Mac OS. The wait on a condition variable nobody
  signals, \<open>timedwait\<close>, is a parameter; its result is ignored.
\<close>

definition sleep_deadline :: "timespec \<Rightarrow> u32 \<Rightarrow> timespec" where
  "sleep_deadline ts milliseconds =
     (let ts = ts\<lparr>tv_sec := tv_sec ts + ucast (milliseconds div 1000)\<rparr>;
          ts = ts\<lparr>tv_nsec := tv_nsec ts + ucast ((milliseconds mod 1000) * 1000000)\<rparr>
      in carry_nsec ts)"

definition apple_sleep_deadline :: "timeval \<Rightarrow> u32 \<Rightarrow> timespec" where
  "apple_sleep_deadline tv milliseconds =
     carry_nsec \<lparr>tv_sec = tvl_sec tv + ucast (milliseconds div 1000),
       tv_nsec = ucast (tvl_usec tv * 1000 + (milliseconds mod 1000) * 1000000)\<rparr>"

definition thread_sleep :: "(timespec \<Rightarrow> 'w \<Rightarrow> int \<times> 'w) \<Rightarrow> timespec \<Rightarrow> u32 \<Rightarrow> 'w \<Rightarrow> 'w" where
  "thread_sleep timedwait now milliseconds w = snd (timedwait (sleep_deadline now milliseconds) w)"

section \<open>Priorities on Windows\<close>

text \<open>The order of the enumeration is the order of its values, and classes are ordered by precedence.\<close>

datatype priority = Priority_Idle | Priority_Lowest | Priority_Low | Priority_Normal | Priority_High
  | Priority_Highest | Priority_Realtime

fun priority_value :: "priority \<Rightarrow> nat" where
  "priority_value Priority_Idle = 0"
| "priority_value Priority_Lowest = 1"
| "priority_value Priority_Low = 2"
| "priority_value Priority_Normal = 3"
| "priority_value Priority_High = 4"
| "priority_value Priority_Highest = 5"
| "priority_value Priority_Realtime = 6"

lemma priority_value_inj: "priority_value p = priority_value q \<Longrightarrow> p = q"
  by (cases p; cases q) simp_all

instantiation priority :: linorder
begin

definition less_eq_priority :: "priority \<Rightarrow> priority \<Rightarrow> bool" where
  "less_eq_priority p q \<longleftrightarrow> priority_value p \<le> priority_value q"

definition less_priority :: "priority \<Rightarrow> priority \<Rightarrow> bool" where
  "less_priority p q \<longleftrightarrow> priority_value p < priority_value q"

instance
  by standard (auto simp: less_eq_priority_def less_priority_def intro: priority_value_inj)

end

text \<open>The constants of the Windows headers.\<close>

definition current_thread_priority :: "priority \<Rightarrow> int" where
  "current_thread_priority p = (case p of
     Priority_Idle \<Rightarrow> - 15 | Priority_Lowest \<Rightarrow> - 2 | Priority_Low \<Rightarrow> - 1 | Priority_Normal \<Rightarrow> 0
   | Priority_High \<Rightarrow> 1 | Priority_Highest \<Rightarrow> 2 | Priority_Realtime \<Rightarrow> 15)"

datatype priority_class = IDLE_PRIORITY_CLASS | BELOW_NORMAL_PRIORITY_CLASS | NORMAL_PRIORITY_CLASS
  | ABOVE_NORMAL_PRIORITY_CLASS | HIGH_PRIORITY_CLASS | REALTIME_PRIORITY_CLASS

definition current_process_priority :: "priority \<Rightarrow> priority_class" where
  "current_process_priority p = (case p of
     Priority_Idle \<Rightarrow> IDLE_PRIORITY_CLASS
   | Priority_Lowest \<Rightarrow> BELOW_NORMAL_PRIORITY_CLASS
   | Priority_Low \<Rightarrow> BELOW_NORMAL_PRIORITY_CLASS
   | Priority_Normal \<Rightarrow> NORMAL_PRIORITY_CLASS
   | Priority_High \<Rightarrow> ABOVE_NORMAL_PRIORITY_CLASS
   | Priority_Highest \<Rightarrow> HIGH_PRIORITY_CLASS
   | Priority_Realtime \<Rightarrow> REALTIME_PRIORITY_CLASS)"

fun class_rank :: "priority_class \<Rightarrow> nat" where
  "class_rank IDLE_PRIORITY_CLASS = 0"
| "class_rank BELOW_NORMAL_PRIORITY_CLASS = 1"
| "class_rank NORMAL_PRIORITY_CLASS = 2"
| "class_rank ABOVE_NORMAL_PRIORITY_CLASS = 3"
| "class_rank HIGH_PRIORITY_CLASS = 4"
| "class_rank REALTIME_PRIORITY_CLASS = 5"

lemma priorities_monotone:
  "current_thread_priority p \<le> current_thread_priority q \<longleftrightarrow> p \<le> q"
  "p \<le> q \<Longrightarrow> class_rank (current_process_priority p) \<le> class_rank (current_process_priority q)"
  by (cases p; cases q; simp add: current_thread_priority_def current_process_priority_def less_eq_priority_def)+

lemma sleep_deadline_eq: "sleep_deadline ts m = deadline ts m"
  by (simp add: sleep_deadline_def deadline_def)

lemma apple_sleep_exact:
  assumes "clock_tv_ok tv"
  shows "normalised (apple_sleep_deadline tv m)" and "nanos (apple_sleep_deadline tv m) = nanos_tv tv + uint m * 10 ^ 6"
proof -
  let ?sec = "tvl_sec tv + ucast (m div 1000)" and ?u = "tvl_usec tv * 1000 + (m mod 1000) * 1000000"
  note r = ms_range[of m]
  have s: "sint ?sec = sint (tvl_sec tv) + uint m div 1000"
    using assms by (simp add: sint_add_ucast uint_ms clock_tv_ok_def)
  have us: "uint (tvl_usec tv) = sint (tvl_usec tv)"
    using assms by (simp add: clock_tv_ok_def uint_eq_sint)
  then have us1: "uint (tvl_usec tv * 1000) = sint (tvl_usec tv) * 1000"
    using assms by (simp add: uint_word_ariths(3) clock_tv_ok_def)
  have b: "0 \<le> sint (tvl_usec tv) * 1000 + uint m mod 1000 * 1000000"
    "sint (tvl_usec tv) * 1000 + uint m mod 1000 * 1000000 < 2 ^ 32"
    using assms r(3,4) unfolding clock_tv_ok_def powers by linarith+
  have u: "uint ?u = sint (tvl_usec tv) * 1000 + uint m mod 1000 * 1000000"
    unfolding uint_word_ariths(1) uint_ms us1
    using b by (intro mod_pos_pos_trivial) simp_all
  let ?ts = "\<lparr>tv_sec = ?sec, tv_nsec = ucast ?u\<rparr>"
  have n: "sint (ucast ?u :: 64 word) = sint (tvl_usec tv) * 1000 + uint m mod 1000 * 1000000"
    using u by (simp add: sint_ucast64)
  have "apple_sleep_deadline tv m = carry_nsec ?ts" by (simp add: apple_sleep_deadline_def)
  moreover have "normalised (carry_nsec ?ts)" "nanos (carry_nsec ?ts) = nanos ?ts"
    using assms r s n b carry_nsec_exact[of ?ts] by (simp_all add: clock_tv_ok_def)
  ultimately show "normalised (apple_sleep_deadline tv m)"
    and "nanos (apple_sleep_deadline tv m) = nanos_tv tv + uint m * 10 ^ 6"
    using s n ms_split[of m] by (simp_all add: nanos_def nanos_tv_def algebra_simps)
qed

section \<open>Properties\<close>

text \<open>A schedule of disciplined clients, executed.\<close>

primrec prun :: "('m, 's) posix \<Rightarrow> bool \<Rightarrow> tevent list \<Rightarrow> ('m, 's, 'w) thread \<Rightarrow> ('m, 's, 'w) thread option" where
  "prun P sigs [] st = Some st"
| "prun P sigs (e # es) st =
     (if polite e st \<and> (sigs \<or> unsignalled e)
      then (case tfire P e st of None \<Rightarrow> None | Some st' \<Rightarrow> prun P sigs es st') else None)"

lemma prun_reach: "treach P sigs r n w st \<Longrightarrow> prun P sigs es st = Some st' \<Longrightarrow> treach P sigs r n w st'"
  by (induction es arbitrary: st) (auto split: if_splits option.splits intro: treach.step)

lemma reach_life: "treach P sigs r n w st \<Longrightarrow> life_inv st"
  by (induction rule: treach.induct) (rule life_init, erule life_step)

text \<open>A runnable that adds 1 twice, and a schedule in which client 0 starts it and joins.\<close>

definition demo_body :: "nat runnable" where
  "demo_body = \<lparr>run_call = Suc, run_step = (\<lambda>k. if odd k then Some (Suc k) else None)\<rparr>"

definition demo_new :: "(ref_mutex, nat, nat) thread" where
  "demo_new = thread_new ref_posix (Some demo_body) (Suc (Suc 0)) 0"

definition demo_joined :: "(ref_mutex, nat, nat) thread option" where
  "demo_joined = prun ref_posix False
     ([TCall 0 OpStart, TClient 0, TCall 0 OpJoin] @ concat (map (\<lambda>k. [TRunner False, TRunner False]) [(), (), (), (), ()]) @ [TClient 0]) demo_new"

lemma notify_one: "sema_notify P 1 s = p_sem_post P s"
  unfolding sema_notify_def by (subst notify_from_posts) simp

lemma demo_notify: "sema_notify ref_posix 1 s = Suc s"
  unfolding notify_one by (simp add: ref_posix_def)

lemma demo_wait: "sema_wait ref_posix sig call now 0 (Suc s) = Some (if sig then (Returns False, Suc s) else (Returns True, s))"
  by (simp add: sema_wait_def ref_posix_def)

lemma demo_lock:
  "locker_new ref_posix t (Some None) = Some (Some (Some (t, Suc 0)))" "locker_delete ref_posix t (Some (Some (t, Suc 0))) = Some None"
  by (simp_all add: locker_new_def locker_delete_def mutex_lock_def mutex_unlock_def ref_posix_def ref_lock_def ref_unlock_def)

lemma demo_init: "mutex_new ref_posix = None" "sema_new ref_posix 0 = 0"
  by (simp_all add: mutex_new_def sema_new_def ref_posix_def)

lemmas thread_eval = stmt_defs demo_notify demo_wait demo_lock ended_def cidle_def

lemma demo_joined_eval:
  "demo_joined = Some (demo_new\<lparr>t_runner := RExit, t_clients := [CDone None, CIdle], t_world := 2, t_joined := True, g_starts := 1\<rparr>)"
  by (simp add: demo_joined_def demo_new_def thread_new_def demo_init demo_body_def thread_eval)

lemma demo_reach: "treach ref_posix False (Some demo_body) (Suc (Suc 0)) 0 (the demo_joined)"
proof (rule prun_reach[OF treach.init])
  show "prun ref_posix False
      ([TCall 0 OpStart, TClient 0, TCall 0 OpJoin] @ concat (map (\<lambda>k. [TRunner False, TRunner False]) [(), (), (), (), ()]) @ [TClient 0])
      (thread_new ref_posix (Some demo_body) (Suc (Suc 0)) 0) = Some (the demo_joined)"
    using demo_joined_eval unfolding demo_joined_def demo_new_def by simp
qed

text \<open>C14: when the object is deleted only after the one join has returned and nobody else uses it, no interleaving
  of any number of clients uses a deleted semaphore, mutex or object, or joins or cancels a joined
  thread; and once the object is gone, the system thread has ended and no client is inside an
  operation.\<close>

theorem thread_no_ub:
  assumes "treach P sigs r n w st"
  shows "\<not> t_ub st \<and> (m_pMutex st = None \<longrightarrow> t_joined st \<and> ended (t_runner st) \<and> (\<forall>c \<in> set (t_clients st). cidle c))"
proof -
  have inv: "life_inv st" by (rule reach_life[OF assms])
  moreover have "cidle c" if gone: "m_pMutex st = None" and c: "c \<in> set (t_clients st)" for c
  proof -
    have "client_ok st c" "m_pStartSemaphore st = None"
      using inv gone c by (auto simp: life_inv_def in_set_conv_nth)
    then show ?thesis using gone by (cases c) (simp_all add: client_ok_def cidle_def)
  qed
  ultimately show ?thesis by (auto simp: life_inv_def)
qed

theorem thread_no_ub_witness: "\<not> t_ub (the demo_joined) \<and> t_joined (the demo_joined)"
  using thread_no_ub[OF demo_reach] by (simp add: demo_joined_eval)

text \<open>C20: after \<open>join\<close> of a thread that nobody has asked to cancel, \<open>run\<close> of the runnable has been called
  exactly once, on the world the object was constructed in, and has run to its end: the world is what one whole
  call leaves, whatever a further call would do to it. And the thread no longer says it is running.\<close>

theorem thread_join_completes:
  assumes "treach P sigs r n w st" and "posix_sync P owner depth tokens" and "t_joined st" and "\<not> t_cancel st"
  shows "completed r w (t_world st) \<and> \<not> m_running st"
proof -
  have "ended (t_runner st)" "work_inv r w st"
    using reach_inv[OF assms(1,2)] assms(3) by (auto simp: life_inv_def)
  then show ?thesis using assms(4) by (cases "t_runner st") (auto simp: ended_def work_inv_def on_phase_def)
qed

theorem thread_join_completes_witness: "completed (Some demo_body) 0 2 \<and> t_joined (the demo_joined)"
  using thread_join_completes[OF demo_reach ref.posix_sync_axioms] by (simp add: demo_joined_eval demo_new_def thread_new_def)

text \<open>As long as no client has called \<open>start\<close>, and no signal interrupts its wait, the system thread stays at
  the start semaphore, or has been cancelled there: the runnable has done nothing and the thread does
  not say it is running.\<close>

theorem thread_runs_after_start:
  assumes "treach P False r n w st" and "posix_sync P owner depth tokens" and "g_starts st = 0"
  shows "t_world st = w \<and> \<not> m_running st \<and> (t_runner st = RWait \<or> t_runner st = RCancelled)"
  by (rule posix_sync.start_none[OF assms(2) _ assms(3)]) (use reach_inv[OF assms(1,2)] in blast)

theorem thread_runs_after_start_witness:
  "\<exists>st. treach ref_posix False (Some demo_body) 1 0 st \<and> t_cancel st \<and> t_world st = 0 \<and> \<not> m_running st"
proof -
  let ?es = "[TCall 0 OpTerminate, TClient 0]"
  obtain st where st: "prun ref_posix False ?es (thread_new ref_posix (Some demo_body) 1 0) = Some st"
    and c: "t_cancel st" "g_starts st = 0"
    by (simp add: thread_new_def demo_init thread_eval)
  have "treach ref_posix False (Some demo_body) 1 0 st" by (rule prun_reach[OF treach.init st])
  then show ?thesis using thread_runs_after_start[OF _ ref.posix_sync_axioms c(2)] c(1) by blast
qed

text \<open>C33: when no thread can execute its next statement, every client is outside the operations, or it joins a
  thread that nobody has started: the mutex of the object never makes anyone wait for ever.\<close>

theorem thread_no_deadlock:
  assumes "treach P False r n w st" and "posix_sync P owner depth tokens" and "all_blocked P st"
    and "i < length (t_clients st)" and "\<not> cidle (t_clients st ! i)"
  shows "t_clients st ! i = CJoin \<and> t_runner st = RWait \<and> g_starts st = 0"
  using posix_sync.blocked_clients[OF assms(2) _ _ _ assms(3,4,5)] reach_inv[OF assms(1,2)] by blast

theorem thread_no_deadlock_witness:
  "\<exists>st. treach ref_posix False (Some demo_body) 1 0 st \<and> t_clients st = [CJoin] \<and> all_blocked ref_posix st \<and> g_starts st = 0"
proof -
  obtain st where st: "prun ref_posix False [TCall 0 OpJoin] (thread_new ref_posix (Some demo_body) 1 0) = Some st"
    and c: "t_clients st = [CJoin]" "all_blocked ref_posix st"
    by (simp add: thread_new_def demo_init thread_eval all_blocked_def sema_wait_def) (simp add: ref_posix_def)
  have r: "treach ref_posix False (Some demo_body) 1 0 st" by (rule prun_reach[OF treach.init st])
  from thread_no_deadlock[OF r ref.posix_sync_axioms c(2), of 0] have "g_starts st = 0" by (simp add: c(1) cidle_def)
  then show ?thesis using r c by blast
qed

text \<open>C34: a client that reads the flag in \<open>isRunning\<close> does so while the system thread is not inside
  \<open>setRunning\<close>, and what it returns says whether the thread is between its two calls of it.\<close>

theorem thread_isRunning:
  assumes "treach P sigs r n w st" and "posix_sync P owner depth tokens"
    and "i < length (t_clients st)" and "t_clients st ! i = CRead" and "t_runner st \<noteq> RCancelled"
  shows "\<not> rcrit (t_runner st) \<and>
    cexec P i CRead st = Some (cgo i (CUnlock (on_phase (t_runner st))) st)"
proof -
  have inv: "life_inv st" "posix_sync.sync_inv owner depth st" "work_inv r w st"
    using reach_inv[OF assms(1,2)] by blast+
  have "client_ok st CRead" using inv(1) assms(3,4) by (metis life_inv_def)
  then have "m_pStartSemaphore st \<noteq> None" by (simp add: client_ok_def)
  then obtain m where m: "m_pMutex st = Some m" using inv(1) by (auto simp: life_inv_def)
  have "m_running st = on_phase (t_runner st)"
    using inv(3) assms(5) by (cases "t_runner st") (simp_all add: work_inv_def on_phase_def)
  moreover have "holds st (Suc i)" using assms(3,4) by (simp add: holds_def ccrit_def)
  then have "\<not> holds st 0" using posix_sync.sync_alone[OF assms(2) inv(2) m] by blast
  ultimately show ?thesis using m by (simp add: member_stmt_def holds_def)
qed

theorem thread_isRunning_witness:
  "\<exists>st. treach ref_posix False (Some demo_body) 1 0 st \<and> cexec ref_posix 0 CRead st = Some (cgo 0 (CUnlock False) st)"
proof -
  let ?es = "[TCall 0 OpIsRunning, TClient 0]"
  obtain st where st: "prun ref_posix False ?es (thread_new ref_posix (Some demo_body) 1 0) = Some st"
    and c: "t_clients st = [CRead]" "t_runner st = RWait"
    by (simp add: thread_new_def demo_init thread_eval)
  have r: "treach ref_posix False (Some demo_body) 1 0 st" by (rule prun_reach[OF treach.init st])
  from thread_isRunning[OF r ref.posix_sync_axioms, of 0] c r show ?thesis by (auto simp: on_phase_def)
qed

text \<open>Deleting a thread that has never been started, or one that has been started and not joined, lets the
  system thread use the deleted semaphore or mutex.\<close>

theorem thread_deleted_early:
  assumes "posix_sync P owner depth tokens"
  shows "(\<exists>st. trun P [TCall 0 OpDelete, TClient 0, TRunner False] (thread_new P r (Suc n) w) = Some st \<and> t_ub st) \<and>
    (\<exists>st. trun P [TCall 0 OpStart, TClient 0, TRunner False, TCall 0 OpDelete, TClient 0, TClient 0, TRunner False]
       (thread_new P r (Suc n) w) = Some st \<and> t_ub st)"
  using posix_sync.started_wait[OF assms]
  by (auto simp: thread_new_def stmt_defs cidle_def sema_wait_def)

theorem thread_deleted_early_witness:
  "\<exists>st. trun ref_posix [TCall 0 OpDelete, TClient 0, TRunner False] (thread_new ref_posix None 1 ()) = Some st \<and> t_ub st"
  using thread_deleted_early[OF ref.posix_sync_axioms, of None 0 "()"] by simp

text \<open>A signal that interrupts the wait for the start semaphore starts the thread: \<open>threadRunner\<close> ignores the
  result of \<open>wait\<close>, and the runnable runs although \<open>start\<close> has not been called.\<close>

theorem signal_starts_thread:
  assumes "posix_sync P owner depth tokens" and "run_step f (run_call f w) = Some w'"
  shows "\<exists>st. trun P [TRunner True, TRunner False, TRunner False, TRunner False, TRunner False, TRunner False]
    (thread_new P (Some f) n w) = Some st \<and> t_world st = w' \<and> g_starts st = 0"
proof -
  obtain m where m: "p_mutex_lock P 0 (mutex_new P) = Some m" using posix_sync.init_locks[OF assms(1)] by blast
  show ?thesis
    using m assms(2) posix_sync.wait_interrupted[OF assms(1)]
    by (simp add: thread_new_def stmt_defs sema_wait_def locker_new_def locker_delete_def mutex_lock_def)
qed

theorem signal_starts_thread_witness:
  "\<exists>st. trun ref_posix [TRunner True, TRunner False, TRunner False, TRunner False, TRunner False, TRunner False]
    (thread_new ref_posix (Some demo_body) 0 0) = Some st \<and> t_world st = 2 \<and> g_starts st = 0"
  using signal_starts_thread[OF ref.posix_sync_axioms, of demo_body 0 2 0] by (simp add: demo_body_def)

text \<open>\<open>sleep\<close> waits until exactly the given number of milliseconds after the reading of the clock, on Linux and
  on Mac OS, without overflow, and its deadline has a proper fraction of a second.\<close>

theorem sleep_deadline_exact:
  assumes "clock_ok now" and "clock_tv_ok tv"
  shows "(\<exists>d. thread_sleep timedwait now m w = snd (timedwait d w) \<and> normalised d \<and> nanos d = nanos now + uint m * 10 ^ 6) \<and>
    normalised (apple_sleep_deadline tv m) \<and> nanos (apple_sleep_deadline tv m) = nanos_tv tv + uint m * 10 ^ 6"
  using deadline_exact[OF assms(1), of m] apple_sleep_exact[OF assms(2), of m]
  unfolding thread_sleep_def sleep_deadline_eq by blast

theorem sleep_deadline_exact_witness:
  "normalised (apple_sleep_deadline \<lparr>tvl_sec = 7, tvl_usec = 999999\<rparr> 1001) \<and>
   nanos (apple_sleep_deadline \<lparr>tvl_sec = 7, tvl_usec = 999999\<rparr> 1001) = 7999999000 + 1001 * 10 ^ 6"
  using sleep_deadline_exact[of "\<lparr>tv_sec = 7, tv_nsec = 0\<rparr>" "\<lparr>tvl_sec = 7, tvl_usec = 999999\<rparr>" "\<lambda>ts w. (0, w)" 1001 "()"]
  by (simp add: clock_ok_def clock_tv_ok_def nanos_tv_def)

end
