(* ===== verification/ThreadWindows.thy ===== *)
theory ThreadWindows
  imports Thread
begin

text \<open>
  Model of the Windows branches of \<open>src/src/Mutex.cpp\<close> and \<open>src/src/Thread.cpp\<close>. A mutex is a kernel
  object that its owner may lock again; when the owner ends, the mutex is abandoned, and the next
  wait succeeds with another result than usual. A thread is created suspended, \<open>start\<close>
  resumes it and \<open>terminate\<close> ends it at once, wherever it is. The statements are those of
  \<open>Thread\<close>, whose program counters are used here too; a failed assertion is recorded in \<open>x_assert\<close>.
\<close>

section \<open>System calls on mutexes\<close>

definition WAIT_OBJECT_0 :: u32 where "WAIT_OBJECT_0 = 0"
definition WAIT_ABANDONED :: u32 where "WAIT_ABANDONED = 0x80"
definition WAIT_TIMEOUT :: u32 where "WAIT_TIMEOUT = 0x102"

text \<open>
  \<open>wm_wait\<close> is \<open>WaitForSingleObject\<close> with \<open>INFINITE\<close>; it has no result while it blocks. \<open>wm_poll\<close> is
  the same with timeout 0, and \<open>wm_ends\<close> is what the end of a thread does to the mutex.
\<close>

record 'h winmutex =
  wm_create :: 'h
  wm_wait :: "tid \<Rightarrow> 'h \<Rightarrow> (u32 \<times> 'h) option"
  wm_poll :: "tid \<Rightarrow> 'h \<Rightarrow> u32 \<times> 'h"
  wm_release :: "tid \<Rightarrow> 'h \<Rightarrow> 'h"
  wm_ends :: "tid \<Rightarrow> 'h \<Rightarrow> 'h"

locale win_mutex =
  fixes W :: "'h winmutex"
    and owner :: "'h \<Rightarrow> tid option"
    and depth :: "'h \<Rightarrow> nat"
    and abandoned :: "'h \<Rightarrow> bool"
  assumes created: "owner (wm_create W) = None" "\<not> abandoned (wm_create W)"
    and wait_free: "owner h = None \<Longrightarrow>
      \<exists>h'. wm_wait W t h = Some (if abandoned h then WAIT_ABANDONED else WAIT_OBJECT_0, h') \<and>
        owner h' = Some t \<and> depth h' = 1 \<and> \<not> abandoned h'"
    and wait_again: "owner h = Some t \<Longrightarrow>
      \<exists>h'. wm_wait W t h = Some (WAIT_OBJECT_0, h') \<and> owner h' = Some t \<and> depth h' = Suc (depth h) \<and> \<not> abandoned h'"
    and wait_blocks: "owner h = Some u \<Longrightarrow> u \<noteq> t \<Longrightarrow> wm_wait W t h = None"
    and poll: "wm_poll W t h = (case wm_wait W t h of None \<Rightarrow> (WAIT_TIMEOUT, h) | Some r \<Rightarrow> r)"
    and release_last: "owner h = Some t \<Longrightarrow> depth h = 1 \<Longrightarrow>
      owner (wm_release W t h) = None \<and> \<not> abandoned (wm_release W t h)"
    and release_nested: "owner h = Some t \<Longrightarrow> depth h = Suc (Suc n) \<Longrightarrow>
      owner (wm_release W t h) = Some t \<and> depth (wm_release W t h) = Suc n"
    and ends_owner: "owner h = Some t \<Longrightarrow> owner (wm_ends W t h) = None \<and> abandoned (wm_ends W t h)"
    and ends_other: "owner h \<noteq> Some t \<Longrightarrow> wm_ends W t h = h"

text \<open>A concrete implementation: the owner with its depth, or whether the free mutex is abandoned.\<close>

datatype ref_wmutex = WFree bool | WHeld tid nat

definition ref_wm_wait :: "tid \<Rightarrow> ref_wmutex \<Rightarrow> (u32 \<times> ref_wmutex) option" where
  "ref_wm_wait t h = (case h of
     WFree b \<Rightarrow> Some (if b then WAIT_ABANDONED else WAIT_OBJECT_0, WHeld t 1)
   | WHeld u n \<Rightarrow> if u = t then Some (WAIT_OBJECT_0, WHeld t (Suc n)) else None)"

definition ref_winmutex :: "ref_wmutex winmutex" where
  "ref_winmutex = \<lparr>
     wm_create = WFree False,
     wm_wait = ref_wm_wait,
     wm_poll = (\<lambda>t h. case ref_wm_wait t h of None \<Rightarrow> (WAIT_TIMEOUT, h) | Some r \<Rightarrow> r),
     wm_release = (\<lambda>t h. case h of
         WFree b \<Rightarrow> h | WHeld u n \<Rightarrow> if u = t then if n \<le> 1 then WFree False else WHeld u (n - 1) else h),
     wm_ends = (\<lambda>t h. case h of WFree b \<Rightarrow> h | WHeld u n \<Rightarrow> if u = t then WFree True else h)\<rparr>"

interpretation rwm: win_mutex ref_winmutex "\<lambda>h. case h of WFree b \<Rightarrow> None | WHeld t n \<Rightarrow> Some t"
    "\<lambda>h. case h of WFree b \<Rightarrow> 0 | WHeld t n \<Rightarrow> n" "\<lambda>h. h = WFree True"
  by unfold_locales (auto simp: ref_winmutex_def ref_wm_wait_def split: ref_wmutex.splits)

section \<open>Mutex\<close>

definition win_mutex_new :: "'h winmutex \<Rightarrow> 'h" where
  "win_mutex_new W = wm_create W"

text \<open>The flag says whether \<open>assert(dwWaitResult == WAIT_OBJECT_0)\<close> holds.\<close>

definition win_mutex_lock :: "'h winmutex \<Rightarrow> tid \<Rightarrow> 'h \<Rightarrow> (bool \<times> 'h) option" where
  "win_mutex_lock W t h = (case wm_wait W t h of
     None \<Rightarrow> None | Some (dwWaitResult, h') \<Rightarrow> Some (dwWaitResult = WAIT_OBJECT_0, h'))"

definition win_mutex_unlock :: "'h winmutex \<Rightarrow> tid \<Rightarrow> 'h \<Rightarrow> 'h" where
  "win_mutex_unlock W t h = wm_release W t h"

definition win_mutex_tryLock :: "'h winmutex \<Rightarrow> tid \<Rightarrow> 'h \<Rightarrow> bool \<times> 'h" where
  "win_mutex_tryLock W t h = (case wm_poll W t h of (dwWaitResult, h') \<Rightarrow>
     if dwWaitResult = WAIT_OBJECT_0 then (True, h') else (False, h'))"

lemmas wait_results = WAIT_OBJECT_0_def WAIT_ABANDONED_def WAIT_TIMEOUT_def

context win_mutex
begin

lemma lock_unabandoned:
  "owner h = None \<Longrightarrow> \<not> abandoned h \<Longrightarrow>
     \<exists>h'. win_mutex_lock W t h = Some (True, h') \<and> owner h' = Some t \<and> depth h' = 1"
  using wait_free[of h t] by (auto simp: win_mutex_lock_def)

lemma lock_abandoned:
  assumes "owner h = Some t"
  shows "\<exists>h'. win_mutex_lock W u (wm_ends W t h) = Some (False, h') \<and> owner h' = Some u"
    and "\<exists>h'. win_mutex_tryLock W u (wm_ends W t h) = (False, h') \<and> owner h' = Some u \<and>
      (\<forall>v. v \<noteq> u \<longrightarrow> win_mutex_lock W v h' = None)"
proof -
  from ends_owner[OF assms] wait_free[of "wm_ends W t h" u] obtain h' where
    h': "wm_wait W u (wm_ends W t h) = Some (WAIT_ABANDONED, h')" "owner h' = Some u" by auto
  then show "\<exists>h'. win_mutex_lock W u (wm_ends W t h) = Some (False, h') \<and> owner h' = Some u"
    by (simp add: win_mutex_lock_def wait_results)
  have "win_mutex_lock W v h' = None" if "v \<noteq> u" for v
    using wait_blocks[OF h'(2), of v] that by (simp add: win_mutex_lock_def)
  with h' show "\<exists>h'. win_mutex_tryLock W u (wm_ends W t h) = (False, h') \<and> owner h' = Some u \<and>
      (\<forall>v. v \<noteq> u \<longrightarrow> win_mutex_lock W v h' = None)"
    by (simp add: win_mutex_tryLock_def poll wait_results)
qed

end

section \<open>Thread\<close>

text \<open>
  \<open>x_handle\<close> says whether the handle \<open>m_thread\<close> is open, and \<open>x_suspend\<close> is the suspend count the system
  keeps for the thread, whether or not a handle to it is open. \<open>x_mutex\<close> is \<open>None\<close> once the mutex is deleted.
\<close>

record ('h, 'w) wthread =
  x_handle :: bool
  x_suspend :: nat
  x_mutex :: "'h option"
  x_running :: bool
  x_pRunnable :: "'w runnable option"
  x_runner :: "'w rpc"
  x_clients :: "cpc list"
  x_world :: 'w
  x_ub :: bool
  x_assert :: bool

definition win_thread_new :: "'h winmutex \<Rightarrow> 'w runnable option \<Rightarrow> nat \<Rightarrow> 'w \<Rightarrow> ('h, 'w) wthread" where
  "win_thread_new W pRunnable n w = \<lparr>x_handle = True, x_suspend = 1, x_mutex = Some (win_mutex_new W), x_running = False,
     x_pRunnable = pRunnable, x_runner = RLockOn, x_clients = replicate n CIdle, x_world = w,
     x_ub = False, x_assert = False\<rparr>"

definition xub :: "('h, 'w) wthread \<Rightarrow> ('h, 'w) wthread option" where
  "xub st = Some (st\<lparr>x_ub := True\<rparr>)"

definition xrun :: "'w rpc \<Rightarrow> ('h, 'w) wthread \<Rightarrow> ('h, 'w) wthread" where
  "xrun pc st = st\<lparr>x_runner := pc\<rparr>"

definition xgo :: "nat \<Rightarrow> cpc \<Rightarrow> ('h, 'w) wthread \<Rightarrow> ('h, 'w) wthread" where
  "xgo i pc st = st\<lparr>x_clients := (x_clients st)[i := pc]\<rparr>"

definition xlock :: "'h winmutex \<Rightarrow> tid \<Rightarrow> (('h, 'w) wthread \<Rightarrow> ('h, 'w) wthread) \<Rightarrow> ('h, 'w) wthread \<Rightarrow> ('h, 'w) wthread option" where
  "xlock W t k st = (case x_mutex st of
     None \<Rightarrow> xub st
   | Some h \<Rightarrow> (case win_mutex_lock W t h of
         None \<Rightarrow> None
       | Some (ok, h') \<Rightarrow> if ok then Some (k (st\<lparr>x_mutex := Some h'\<rparr>)) else Some (st\<lparr>x_assert := True\<rparr>)))"

definition xunlock :: "'h winmutex \<Rightarrow> tid \<Rightarrow> (('h, 'w) wthread \<Rightarrow> ('h, 'w) wthread) \<Rightarrow> ('h, 'w) wthread \<Rightarrow> ('h, 'w) wthread option" where
  "xunlock W t k st = (case x_mutex st of
     None \<Rightarrow> xub st | Some h \<Rightarrow> Some (k (st\<lparr>x_mutex := Some (win_mutex_unlock W t h)\<rparr>)))"

definition xmember :: "(('h, 'w) wthread \<Rightarrow> ('h, 'w) wthread) \<Rightarrow> ('h, 'w) wthread \<Rightarrow> ('h, 'w) wthread option" where
  "xmember k st = (if x_mutex st = None then xub st else Some (k st))"

text \<open>\<open>threadRunner\<close>, with \<open>setRunning\<close> and \<open>run\<close> inlined; there is no semaphore to wait for.\<close>

fun xrexec :: "'h winmutex \<Rightarrow> 'w rpc \<Rightarrow> ('h, 'w) wthread \<Rightarrow> ('h, 'w) wthread option" where
  "xrexec W RLockOn st = xlock W 0 (xrun RStoreOn) st"
| "xrexec W RStoreOn st = xmember (\<lambda>st. xrun RUnlockOn (st\<lparr>x_running := True\<rparr>)) st"
| "xrexec W RUnlockOn st = xunlock W 0 (xrun RRun) st"
| "xrexec W RRun st = xmember (\<lambda>st. case x_pRunnable st of
     None \<Rightarrow> xrun RLockOff st | Some r \<Rightarrow> xrun (RBody r) (st\<lparr>x_world := run_call r (x_world st)\<rparr>)) st"
| "xrexec W (RBody r) st = (case run_step r (x_world st) of
     None \<Rightarrow> Some (xrun RLockOff st) | Some w \<Rightarrow> Some (st\<lparr>x_world := w\<rparr>))"
| "xrexec W RLockOff st = xlock W 0 (xrun RStoreOff) st"
| "xrexec W RStoreOff st = xmember (\<lambda>st. xrun RUnlockOff (st\<lparr>x_running := False\<rparr>)) st"
| "xrexec W RUnlockOff st = xunlock W 0 (xrun RExit) st"
| "xrexec W RExit st = None"
| "xrexec W RCancelled st = None"
| "xrexec W RWait st = None"

text \<open>
  The operations. \<open>ResumeThread\<close> decrements the suspend count; \<open>TerminateThread\<close> ends a thread that has not
  ended; a thread can be waited for more than once.
\<close>

fun xcexec :: "'h winmutex \<Rightarrow> nat \<Rightarrow> cpc \<Rightarrow> ('h, 'w) wthread \<Rightarrow> ('h, 'w) wthread option" where
  "xcexec W i CStart st = (if \<not> x_handle st then xub st
     else Some (xgo i (CDone None) (st\<lparr>x_suspend := x_suspend st - 1\<rparr>)))"
| "xcexec W i CLock st = xlock W (Suc i) (xgo i CRead) st"
| "xcexec W i CRead st = xmember (\<lambda>st. xgo i (CUnlock (x_running st)) st) st"
| "xcexec W i (CUnlock b) st = xunlock W (Suc i) (xgo i (CDone (Some b))) st"
| "xcexec W i CTerminate st = (if \<not> x_handle st then xub st
     else if ended (x_runner st) then Some (xgo i (CDone None) st)
     else Some (xgo i (CDone None) (xrun RCancelled (st\<lparr>x_mutex := map_option (wm_ends W 0) (x_mutex st)\<rparr>))))"
| "xcexec W i CJoin st = (if \<not> x_handle st then xub st
     else if ended (x_runner st) then Some (xgo i (CDone None) st) else None)"
| "xcexec W i CDelSem st = (if \<not> x_handle st then xub st else Some (xgo i CDelMutex (st\<lparr>x_handle := False\<rparr>)))"
| "xcexec W i CDelMutex st = (if x_mutex st = None then xub st else Some (xgo i (CDone None) (st\<lparr>x_mutex := None\<rparr>)))"
| "xcexec W i CIdle st = None"
| "xcexec W i (CDone r) st = None"

text \<open>The system thread runs once it is not suspended; closing its handle does not stop it.\<close>

datatype xevent = XCall nat cop | XClient nat | XRunner

fun xfire :: "'h winmutex \<Rightarrow> xevent \<Rightarrow> ('h, 'w) wthread \<Rightarrow> ('h, 'w) wthread option" where
  "xfire W (XCall i opn) st =
     (if \<not> x_ub st \<and> \<not> x_assert st \<and> i < length (x_clients st) \<and> cidle (x_clients st ! i)
      then Some (xgo i (centry opn) st) else None)"
| "xfire W (XClient i) st =
     (if \<not> x_ub st \<and> \<not> x_assert st \<and> i < length (x_clients st) then xcexec W i (x_clients st ! i) st else None)"
| "xfire W XRunner st =
     (if \<not> x_ub st \<and> \<not> x_assert st \<and> x_suspend st = 0 then xrexec W (x_runner st) st else None)"

primrec xtrace :: "'h winmutex \<Rightarrow> xevent list \<Rightarrow> ('h, 'w) wthread \<Rightarrow> ('h, 'w) wthread option" where
  "xtrace W [] st = Some st"
| "xtrace W (e # es) st = (case xfire W e st of None \<Rightarrow> None | Some st' \<Rightarrow> xtrace W es st')"

lemmas xstmt_defs = xmember_def xrun_def xgo_def

section \<open>Disciplined use\<close>

text \<open>Nobody terminates the thread, and the object is deleted after the thread has ended, while nobody uses it.\<close>

fun xpolite :: "xevent \<Rightarrow> ('h, 'w) wthread \<Rightarrow> bool" where
  "xpolite (XCall i opn) st \<longleftrightarrow> x_handle st \<and> CDelSem \<notin> set (x_clients st) \<and>
     (case opn of
        OpTerminate \<Rightarrow> False
      | OpDelete \<Rightarrow> ended (x_runner st) \<and> (\<forall>c \<in> set (x_clients st). cidle c)
      | _ \<Rightarrow> True)"
| "xpolite _ st \<longleftrightarrow> True"

inductive xreach :: "'h winmutex \<Rightarrow> 'w runnable option \<Rightarrow> nat \<Rightarrow> 'w \<Rightarrow> ('h, 'w) wthread \<Rightarrow> bool"
  for W r n w where
  init: "xreach W r n w (win_thread_new W r n w)"
| step: "xreach W r n w st \<Longrightarrow> xpolite e st \<Longrightarrow> xfire W e st = Some st' \<Longrightarrow> xreach W r n w st'"

definition xalone :: "nat \<Rightarrow> ('h, 'w) wthread \<Rightarrow> bool" where
  "xalone i st \<longleftrightarrow> (\<forall>j < length (x_clients st). j \<noteq> i \<longrightarrow> cidle (x_clients st ! j))"

text \<open>What client \<open>i\<close> knows of the object at \<open>c\<close>.\<close>

definition xclient_ok :: "('h, 'w) wthread \<Rightarrow> nat \<Rightarrow> cpc \<Rightarrow> bool" where
  "xclient_ok st i c \<longleftrightarrow> (case c of
     CIdle \<Rightarrow> True
   | CDone _ \<Rightarrow> True
   | CTerminate \<Rightarrow> False
   | CDelSem \<Rightarrow> x_handle st \<and> ended (x_runner st) \<and> xalone i st
   | CDelMutex \<Rightarrow> \<not> x_handle st \<and> x_mutex st \<noteq> None \<and> xalone i st
   | _ \<Rightarrow> x_handle st)"

definition xlive :: "('h, 'w) wthread \<Rightarrow> bool" where
  "xlive st \<longleftrightarrow> \<not> x_ub st \<and> \<not> x_assert st \<and> (x_mutex st = None \<longrightarrow> \<not> x_handle st) \<and>
     (\<not> x_handle st \<longrightarrow> ended (x_runner st)) \<and> x_runner st \<noteq> RCancelled \<and>
     (\<forall>i < length (x_clients st). xclient_ok st i (x_clients st ! i))"

definition xholds :: "('h, 'w) wthread \<Rightarrow> tid \<Rightarrow> bool" where
  "xholds st t \<longleftrightarrow> (case t of 0 \<Rightarrow> rcrit (x_runner st) | Suc i \<Rightarrow> i < length (x_clients st) \<and> ccrit (x_clients st ! i))"

lemma xholds_update:
  "xholds (st\<lparr>x_mutex := m\<rparr>) u = xholds st u" "xholds (st\<lparr>x_running := b\<rparr>) u = xholds st u"
  "xholds (st\<lparr>x_world := w\<rparr>) u = xholds st u" "xholds (st\<lparr>x_suspend := n\<rparr>) u = xholds st u"
  "xholds (st\<lparr>x_handle := b\<rparr>) u = xholds st u"
  by (simp_all add: xholds_def split: nat.split)

lemma xholds_xrun: "xholds (xrun pc st) u = (if u = 0 then rcrit pc else xholds st u)"
  by (simp add: xholds_def xrun_def split: nat.split)

lemma xholds_xgo: "i < length (x_clients st) \<Longrightarrow> xholds (xgo i pc st) u = (if u = Suc i then ccrit pc else xholds st u)"
  by (auto simp: xholds_def xgo_def nth_list_update split: nat.split)

lemma xholds_quiet: "i < length (x_clients st) \<Longrightarrow> ccrit pc = ccrit (x_clients st ! i) \<Longrightarrow> xholds (xgo i pc st) u = xholds st u"
  by (auto simp: xholds_def xgo_def nth_list_update split: nat.split)

lemma xholds_mutex: "x_mutex (xrun pc st) = x_mutex st" "x_mutex (xgo i c st) = x_mutex st"
  by (simp_all add: xrun_def xgo_def)

lemmas xholds_simps = xholds_update xholds_xrun xholds_xgo xholds_mutex

lemma xlive_runner:
  "xlive st \<Longrightarrow> \<not> ended (x_runner st) \<Longrightarrow> x_clients st' = x_clients st \<Longrightarrow> x_handle st' = x_handle st \<Longrightarrow>
   x_mutex st' \<noteq> None \<Longrightarrow> x_ub st' = x_ub st \<Longrightarrow> x_assert st' = x_assert st \<Longrightarrow> x_runner st' \<noteq> RCancelled \<Longrightarrow> xlive st'"
  by (fastforce simp: xlive_def xclient_ok_def split: cpc.splits)

lemma xlive_move:
  assumes "xlive st" and "i < length (x_clients st)" and "x_clients st' = (x_clients st)[i := pc]"
    and "\<not> x_ub st'" "\<not> x_assert st'" and "x_mutex st' = None \<Longrightarrow> \<not> x_handle st'"
    and "x_runner st' = x_runner st" and "\<not> x_handle st' \<Longrightarrow> ended (x_runner st)" and "xclient_ok st' i pc"
    and "\<And>j. j < length (x_clients st) \<Longrightarrow> j \<noteq> i \<Longrightarrow> xclient_ok st' j (x_clients st ! j)"
  shows "xlive st'"
  using assms unfolding xlive_def by (auto simp: nth_list_update)

lemma xclient_ok_idle: "cidle c \<Longrightarrow> xclient_ok st i c"
  by (auto simp: cidle_def xclient_ok_def split: cpc.splits)

text \<open>While one client is inside an operation, the others need the handle only.\<close>

lemma xclient_ok_other:
  "xclient_ok st j c \<Longrightarrow> i < length (x_clients st) \<Longrightarrow> j \<noteq> i \<Longrightarrow> \<not> cidle (x_clients st ! i) \<Longrightarrow>
   x_handle st' = x_handle st \<Longrightarrow> xclient_ok st' j c"
  by (auto simp: xclient_ok_def xalone_def split: cpc.splits)

lemma xlive_plain:
  assumes live: "xlive st" and i: "i < length (x_clients st)" and busy: "\<not> cidle (x_clients st ! i)" and ok: "xclient_ok st' i pc"
    and same: "x_clients st' = (x_clients st)[i := pc]" "x_ub st' = x_ub st" "x_assert st' = x_assert st"
      "(x_mutex st' = None) = (x_mutex st = None)" "x_runner st' = x_runner st" "x_handle st' = x_handle st"
  shows "xlive st'"
proof (rule xlive_move[OF live i same(1)])
  fix j assume j: "j < length (x_clients st)" "j \<noteq> i"
  have "xclient_ok st j (x_clients st ! j)" using live j by (simp add: xlive_def)
  then show "xclient_ok st' j (x_clients st ! j)" by (rule xclient_ok_other[OF _ i j(2) busy same(6)])
qed (use live same ok in \<open>auto simp: xlive_def\<close>)

context win_mutex
begin

definition xsync :: "('h, 'w) wthread \<Rightarrow> bool" where
  "xsync st \<longleftrightarrow> (\<forall>h. x_mutex st = Some h \<longrightarrow> \<not> abandoned h \<and> (\<forall>t. owner h = Some t \<longleftrightarrow> xholds st t) \<and>
     (owner h \<noteq> None \<longrightarrow> depth h = 1))"

text \<open>A thread outside the mutex either waits or takes it, and the assertion holds.\<close>

lemma xlock_cases:
  assumes "xsync st" and "x_mutex st = Some h" and "\<not> xholds st t" and "xlock W t k st = Some st'"
  obtains h' where "st' = k (st\<lparr>x_mutex := Some h'\<rparr>)" "owner h' = Some t" "depth h' = 1" "\<not> abandoned h'" "\<And>u. \<not> xholds st u"
proof (cases "owner h")
  case None
  have "\<not> abandoned h" and free: "\<not> xholds st u" for u
    using assms(1,2) None by (auto simp: xsync_def)
  then obtain h' where "wm_wait W t h = Some (WAIT_OBJECT_0, h')" "owner h' = Some t" "depth h' = 1" "\<not> abandoned h'"
    using wait_free[OF None, of t] by auto
  then show ?thesis using that[of h'] assms(2,4) free by (simp add: xlock_def win_mutex_lock_def)
next
  case (Some u)
  then have "u \<noteq> t" using assms(1,2,3) by (auto simp: xsync_def)
  then show ?thesis using wait_blocks[OF Some] assms(2,4) by (simp add: xlock_def win_mutex_lock_def)
qed

lemma xunlock_cases:
  assumes "xsync st" and "x_mutex st = Some h" and "xholds st t" and "xunlock W t k st = Some st'"
  obtains h' where "st' = k (st\<lparr>x_mutex := Some h'\<rparr>)" "owner h' = None" "\<not> abandoned h'" "\<And>u. xholds st u \<Longrightarrow> u = t"
proof -
  have o: "owner h = Some t" "depth h = 1" and "\<And>u. xholds st u \<longleftrightarrow> owner h = Some u"
    using assms(1-3) by (auto simp: xsync_def)
  then have u: "\<And>u. xholds st u \<Longrightarrow> u = t" by simp
  then show ?thesis
    using that[of "wm_release W t h"] release_last[OF o] assms(2,4) by (simp add: xunlock_def win_mutex_unlock_def)
qed

text \<open>The three ways in which a step changes the mutex and its holders.\<close>

lemma xsync_keep: "xsync st \<Longrightarrow> x_mutex st' = x_mutex st \<Longrightarrow> (\<And>u. xholds st' u = xholds st u) \<Longrightarrow> xsync st'"
  by (simp add: xsync_def)

lemma xsync_take:
  "x_mutex st' = Some h \<Longrightarrow> owner h = Some t \<Longrightarrow> depth h = 1 \<Longrightarrow> \<not> abandoned h \<Longrightarrow>
   (\<And>u. \<not> xholds st u) \<Longrightarrow> (\<And>u. xholds st' u \<longleftrightarrow> xholds st u \<or> u = t) \<Longrightarrow> xsync st'"
  by (auto simp: xsync_def)

lemma xsync_drop:
  "x_mutex st' = Some h \<Longrightarrow> owner h = None \<Longrightarrow> \<not> abandoned h \<Longrightarrow>
   (\<And>u. xholds st u \<Longrightarrow> u = t) \<Longrightarrow> (\<And>u. xholds st' u \<longleftrightarrow> xholds st u \<and> u \<noteq> t) \<Longrightarrow> xsync st'"
  by (auto simp: xsync_def)

lemma xsync_runner:
  assumes sync: "xsync st" and live: "xlive st" and step: "xrexec W (x_runner st) st = Some st'"
  shows "xsync st' \<and> xlive st'"
proof -
  have busy: "\<not> ended (x_runner st)" using step by (cases "x_runner st") (simp_all add: ended_def)
  with live have h: "x_handle st" "x_mutex st \<noteq> None" by (auto simp: xlive_def)
  then obtain m where m: "x_mutex st = Some m" by blast
  note frame = xlive_runner[OF live busy] and c = xholds_def xrun_def xmember_def rcrit_def
  have lockP: ?thesis if g: "xlock W 0 (xrun pc) st = Some st'" "\<not> rcrit (x_runner st)" "rcrit pc" for pc
  proof -
    have "\<not> xholds st 0" using g(2) by (simp add: xholds_def)
    then obtain h' where h': "st' = xrun pc (st\<lparr>x_mutex := Some h'\<rparr>)" "owner h' = Some 0" "depth h' = 1"
        "\<not> abandoned h'" "\<And>u. \<not> xholds st u"
      using xlock_cases[OF sync m _ g(1)] by blast
    have "xsync st'" using h' g(3)
      by (intro xsync_take[of st' h' 0 st]) (simp_all add: xholds_simps)
    moreover have "xlive st'" using g(3) by (intro frame) (auto simp: h'(1) xrun_def rcrit_def)
    ultimately show ?thesis by simp
  qed
  have unlockP: ?thesis if g: "xunlock W 0 (xrun pc) st = Some st'" "rcrit (x_runner st)" "\<not> rcrit pc" "pc \<noteq> RCancelled" for pc
  proof -
    have "xholds st 0" using g(2) by (simp add: xholds_def)
    then obtain h' where h': "st' = xrun pc (st\<lparr>x_mutex := Some h'\<rparr>)" "owner h' = None"
        "\<not> abandoned h'" "\<And>u. xholds st u \<Longrightarrow> u = 0"
      using xunlock_cases[OF sync m _ g(1)] by blast
    have "xsync st'" using h' g(3)
      by (intro xsync_drop[of st' h' st 0]) (simp_all add: xholds_simps)
    moreover have "xlive st'" using g(4) by (intro frame) (auto simp: h'(1) xrun_def)
    ultimately show ?thesis by simp
  qed
  have keepP: ?thesis
    if "x_mutex st' = x_mutex st" "x_clients st' = x_clients st" "x_handle st' = x_handle st" "x_ub st' = x_ub st"
      "x_assert st' = x_assert st" "x_runner st' \<noteq> RCancelled" "rcrit (x_runner st') = rcrit (x_runner st)"
    using xsync_keep[OF sync that(1)] frame[of st'] that h by (auto simp: xholds_def split: nat.splits)
  show ?thesis
  proof (cases "x_runner st")
    case RLockOn then show ?thesis using step lockP[of RStoreOn] by (simp add: rcrit_def)
  next
    case RLockOff then show ?thesis using step lockP[of RStoreOff] by (simp add: rcrit_def)
  next
    case RUnlockOn then show ?thesis using step unlockP[of RRun] by (simp add: rcrit_def)
  next
    case RUnlockOff then show ?thesis using step unlockP[of RExit] by (simp add: rcrit_def)
  next
    case RStoreOn then show ?thesis using step h by (intro keepP) (auto simp: c)
  next
    case RRun then show ?thesis using step h by (intro keepP) (auto simp: c split: option.splits)
  next
    case (RBody r) then show ?thesis using step h by (intro keepP) (auto simp: c split: option.splits)
  next
    case RStoreOff then show ?thesis using step h by (intro keepP) (auto simp: c)
  qed (use step in simp_all)
qed

text \<open>A statement of a client that leaves the mutex and the handle alone.\<close>

lemma xsync_quiet:
  assumes "xsync st" "xlive st" and i: "i < length (x_clients st)" and "\<not> cidle (x_clients st ! i)"
    and st': "st' = xgo i pc st''" and "ccrit pc = ccrit (x_clients st ! i)" and "xclient_ok st' i pc"
    and same: "x_clients st'' = x_clients st" "x_runner st'' = x_runner st" "x_mutex st'' = x_mutex st"
      "x_handle st'' = x_handle st" "x_ub st'' = x_ub st" "x_assert st'' = x_assert st"
  shows "xsync st' \<and> xlive st'"
proof -
  have "xholds st' u = xholds st u" for u
    using assms by (auto simp: st' xgo_def xholds_def nth_list_update split: nat.split)
  then have "xsync st'" using same by (intro xsync_keep[OF assms(1)]) (simp_all add: st' xgo_def)
  moreover have "xlive st'" using assms by (intro xlive_plain[OF assms(2) i, of _ pc]) (simp_all add: st' xgo_def)
  ultimately show ?thesis by simp
qed

lemma xsync_delete:
  assumes sync: "xsync st" and live: "xlive st" and i: "i < length (x_clients st)" and a: "xalone i st" "ended (x_runner st)"
    and c: "\<not> ccrit (x_clients st ! i)"
  shows "x_mutex st \<noteq> None \<Longrightarrow> xsync (xgo i CDelMutex (st\<lparr>x_handle := False\<rparr>)) \<and> xlive (xgo i CDelMutex (st\<lparr>x_handle := False\<rparr>))"
    and "\<not> x_handle st \<Longrightarrow> xsync (xgo i (CDone None) (st\<lparr>x_mutex := None\<rparr>)) \<and> xlive (xgo i (CDone None) (st\<lparr>x_mutex := None\<rparr>))"
proof -
  have flags: "\<not> x_ub st" "\<not> x_assert st" "x_mutex st = None \<Longrightarrow> \<not> x_handle st"
    using live by (auto simp: xlive_def)
  have others: "xclient_ok st'' j (x_clients st ! j)" if "j < length (x_clients st)" "j \<noteq> i" for j st''
    using that a by (simp add: xalone_def xclient_ok_idle)
  show "xsync (xgo i CDelMutex (st\<lparr>x_handle := False\<rparr>)) \<and> xlive (xgo i CDelMutex (st\<lparr>x_handle := False\<rparr>))"
    if "x_mutex st \<noteq> None"
  proof
    show "xsync (xgo i CDelMutex (st\<lparr>x_handle := False\<rparr>))"
      using i c
        ccrit_def[of CDelMutex] by (intro xsync_keep[OF sync]) (simp_all add: xholds_quiet xholds_update xholds_mutex)
    show "xlive (xgo i CDelMutex (st\<lparr>x_handle := False\<rparr>))" using others a flags that
      by (intro xlive_move[OF live i, of _ CDelMutex]) (auto simp: xgo_def xclient_ok_def xalone_def nth_list_update)
  qed
  show "xsync (xgo i (CDone None) (st\<lparr>x_mutex := None\<rparr>)) \<and> xlive (xgo i (CDone None) (st\<lparr>x_mutex := None\<rparr>))"
    if "\<not> x_handle st"
  proof
    show "xsync (xgo i (CDone None) (st\<lparr>x_mutex := None\<rparr>))" by (simp add: xsync_def xgo_def)
    show "xlive (xgo i (CDone None) (st\<lparr>x_mutex := None\<rparr>))" using others a flags that
      by (intro xlive_move[OF live i, of _ "CDone None"]) (auto simp: xgo_def xclient_ok_def)
  qed
qed

lemma xsync_client:
  assumes sync: "xsync st" and live: "xlive st" and i: "i < length (x_clients st)"
    and step: "xcexec W i (x_clients st ! i) st = Some st'"
  shows "xsync st' \<and> xlive st'"
proof -
  let ?c = "x_clients st ! i"
  have busy: "\<not> cidle ?c" using step by (cases ?c) (simp_all add: cidle_def)
  have ok: "xclient_ok st i ?c" using live i by (simp add: xlive_def)
  have flags: "x_mutex st = None \<Longrightarrow> \<not> x_handle st" "\<not> x_handle st \<Longrightarrow> ended (x_runner st)"
    using live by (auto simp: xlive_def)
  note plain = xlive_plain[OF live i busy] and quiet = xsync_quiet[OF sync live i busy]
    and delete = xsync_delete[OF sync live i]
  show ?thesis
  proof (cases ?c)
    case CLock
    then obtain m where m: "x_mutex st = Some m" and out: "\<not> xholds st (Suc i)"
      using ok flags(1) by (auto simp: xclient_ok_def xholds_def ccrit_def)
    obtain h' where h': "st' = xgo i CRead (st\<lparr>x_mutex := Some h'\<rparr>)" "owner h' = Some (Suc i)" "depth h' = 1"
        "\<not> abandoned h'" "\<And>u. \<not> xholds st u"
      using xlock_cases[OF sync m out] step CLock by auto
    have "xsync st'" using h' i
      by (intro xsync_take[of st' h' "Suc i" st]) (simp_all add: xholds_simps ccrit_def)
    moreover have "xlive st'" using ok CLock m by (intro plain) (auto simp: h'(1) xgo_def xclient_ok_def)
    ultimately show ?thesis by simp
  next
    case (CUnlock b)
    then obtain m where m: "x_mutex st = Some m" and inside: "xholds st (Suc i)"
      using ok flags(1) i by (auto simp: xclient_ok_def xholds_def ccrit_def)
    obtain h' where h': "st' = xgo i (CDone (Some b)) (st\<lparr>x_mutex := Some h'\<rparr>)" "owner h' = None"
        "\<not> abandoned h'" "\<And>u. xholds st u \<Longrightarrow> u = Suc i"
      using xunlock_cases[OF sync m inside] step CUnlock by auto
    have "xsync st'" using h' i
      by (intro xsync_drop[of st' h' st "Suc i"]) (simp_all add: xholds_simps ccrit_def)
    moreover have "xlive st'" using ok CUnlock m by (intro plain) (auto simp: h'(1) xgo_def xclient_ok_def)
    ultimately show ?thesis by simp
  next
    case CRead then show ?thesis using ok flags(1) step
      by (intro quiet[of _ "CUnlock (x_running st)" st]) (auto simp: xclient_ok_def xmember_def ccrit_def xgo_def split: if_splits)
  next
    case CStart then show ?thesis using ok step
      by (intro quiet[of _ "CDone None" "st\<lparr>x_suspend := x_suspend st - 1\<rparr>"]) (auto simp: xclient_ok_def ccrit_def)
  next
    case CJoin then show ?thesis using ok step
      by (intro quiet[of _ "CDone None" st]) (auto simp: xclient_ok_def ccrit_def split: if_splits)
  next
    case CDelSem then show ?thesis using ok step flags(1) delete(1) by (auto simp: xclient_ok_def ccrit_def)
  next
    case CDelMutex then show ?thesis using ok step flags(2) delete(2) by (auto simp: xclient_ok_def ccrit_def)
  qed (use step ok in \<open>simp_all add: xclient_ok_def\<close>)
qed

lemma xsync_call:
  assumes sync: "xsync st" and live: "xlive st" and i: "i < length (x_clients st)" and idle: "cidle (x_clients st ! i)"
    and polite: "xpolite (XCall i opn) st"
  shows "xsync (xgo i (centry opn) st) \<and> xlive (xgo i (centry opn) st)"
proof
  let ?st = "xgo i (centry opn) st"
  have "\<not> ccrit (centry opn)" "\<not> ccrit (x_clients st ! i)"
    using idle by (cases opn, simp_all add: ccrit_def) (auto simp: cidle_def ccrit_def split: cpc.splits)
  then show "xsync ?st" using i
    by (intro xsync_keep[OF sync]) (simp_all add: xholds_quiet xholds_mutex)
  have ok: "xclient_ok st j (x_clients st ! j)" if "j < length (x_clients st)" for j using live that by (simp add: xlive_def)
  have set: "x_clients st ! j \<in> set (x_clients st)" if "j < length (x_clients st)" for j using that by simp
  show "xlive ?st"
  proof (rule xlive_move[OF live i, of _ "centry opn"])
    show "xclient_ok ?st i (centry opn)"
      using polite by (cases opn) (auto simp: xclient_ok_def xgo_def xalone_def)
    fix j assume j: "j < length (x_clients st)" "j \<noteq> i"
    show "xclient_ok ?st j (x_clients st ! j)"
      using polite ok[OF j(1)] set[OF j(1)] by (cases "x_clients st ! j") (auto simp: xclient_ok_def xgo_def)
  qed (use live in \<open>auto simp: xgo_def xlive_def\<close>)
qed

lemma xreach_inv: "xreach W r n w st \<Longrightarrow> xsync st \<and> xlive st"
proof (induction rule: xreach.induct)
  case init
  show ?case using created
    by (auto simp: xsync_def xlive_def win_thread_new_def win_mutex_new_def xholds_def rcrit_def ccrit_def xclient_ok_def split: nat.splits)
next
  case (step st e st')
  then show ?case
  proof (cases e)
    case (XCall i opn) with step show ?thesis using xsync_call by (simp split: if_splits) blast
  next
    case (XClient i) with step show ?thesis using xsync_client by (simp split: if_splits) blast
  next
    case XRunner with step show ?thesis using xsync_runner by (simp split: if_splits) blast
  qed
qed

end

section \<open>Properties\<close>

lemma xfire_trace: "xtrace W (e # es) st = Some st' \<longleftrightarrow> (\<exists>st''. xfire W e st = Some st'' \<and> xtrace W es st'' = Some st')"
  by (auto split: option.splits)

lemma cancelled_stays:
  assumes "xtrace W es st = Some st'" and "x_runner st = RCancelled"
  shows "x_runner st' = RCancelled \<and> x_running st' = x_running st"
proof -
  have frame: "x_runner st'' = RCancelled \<and> x_running st'' = x_running st"
    if "xfire W e st = Some st''" "x_runner st = RCancelled" for e st st''
  proof (cases e)
    case (XClient i)
    with that have "xcexec W i (x_clients st ! i) st = Some st''" by (simp split: if_splits)
    with that(2) show ?thesis
      by (cases "x_clients st ! i")
        (auto simp: xub_def xlock_def xunlock_def xstmt_defs ended_def split: if_splits option.splits prod.splits)
  qed (use that in \<open>auto simp: xgo_def split: if_splits\<close>)
  show ?thesis using assms
  proof (induction es arbitrary: st)
    case (Cons e es) then show ?case using frame by (fastforce split: option.splits)
  qed simp
qed



text \<open>A thread that ends while it owns a mutex abandons it, which happens when \<open>terminate\<close> meets \<open>setRunning\<close>. The next
  \<open>lock\<close> gets the mutex and fails its assertion; the next \<open>tryLock\<close> says false although its thread
  now owns the mutex, so nobody will unlock it and every other \<open>lock\<close> blocks.\<close>

theorem abandoned_mutex:
  assumes "win_mutex W owner depth abandoned" and "owner h = Some t"
  shows "(\<exists>h'. win_mutex_lock W u (wm_ends W t h) = Some (False, h') \<and> owner h' = Some u) \<and>
    (\<exists>h'. win_mutex_tryLock W u (wm_ends W t h) = (False, h') \<and> owner h' = Some u \<and>
      (\<forall>v. v \<noteq> u \<longrightarrow> win_mutex_lock W v h' = None))"
  using win_mutex.lock_abandoned[OF assms] by blast

theorem abandoned_mutex_witness:
  "win_mutex_tryLock ref_winmutex 2 (wm_ends ref_winmutex 0 (WHeld 0 1)) = (False, WHeld 2 1) \<and>
   win_mutex_lock ref_winmutex 3 (WHeld 2 1) = None"
  using abandoned_mutex[OF rwm.win_mutex_axioms, of "WHeld 0 1" 0 2]
  by (auto simp: win_mutex_tryLock_def ref_winmutex_def ref_wm_wait_def wait_results)

text \<open>On Windows \<open>terminate\<close> leaves the object as it is: called while the system thread is inside
  \<open>setRunning\<close>, it makes the next \<open>isRunning\<close> fail an assertion; called while the runnable runs, the
  running flag of the dead thread is true for ever, whatever the clients do afterwards.\<close>

theorem terminate_leaves_state:
  assumes "win_mutex W owner depth abandoned"
  shows "(\<exists>st. xtrace W [XCall 0 OpStart, XClient 0, XRunner, XCall 0 OpTerminate, XClient 0, XCall 0 OpIsRunning, XClient 0]
       (win_thread_new W r (Suc n) w) = Some st \<and> x_assert st) \<and>
    (\<exists>st. xtrace W [XCall 0 OpStart, XClient 0, XRunner, XRunner, XRunner, XCall 0 OpTerminate, XClient 0]
       (win_thread_new W r (Suc n) w) = Some st \<and> ended (x_runner st) \<and>
       (\<forall>es st'. xtrace W es st = Some st' \<longrightarrow> x_running st'))"
proof -
  obtain h where h: "win_mutex_lock W 0 (wm_create W) = Some (True, h)" "owner h = Some 0"
    using win_mutex.lock_unabandoned[OF assms win_mutex.created[OF assms]] by blast
  obtain h' where h': "win_mutex_lock W (Suc 0) (wm_ends W 0 h) = Some (False, h')"
    using win_mutex.lock_abandoned(1)[OF assms h(2)] by blast
  note eval = win_thread_new_def win_mutex_new_def xlock_def xunlock_def xstmt_defs ended_def cidle_def
  obtain st where st: "xtrace W [XCall 0 OpStart, XClient 0, XRunner, XRunner, XRunner, XCall 0 OpTerminate, XClient 0]
      (win_thread_new W r (Suc n) w) = Some st" "x_runner st = RCancelled" "x_running st"
    using h(1) by (simp add: eval)
  have "x_running st'" if "xtrace W es st = Some st'" for es st' using cancelled_stays[OF that] st by simp
  moreover have "ended (x_runner st)" using st(2) by (simp add: ended_def)
  moreover have "\<exists>st. xtrace W [XCall 0 OpStart, XClient 0, XRunner, XCall 0 OpTerminate, XClient 0, XCall 0 OpIsRunning, XClient 0]
      (win_thread_new W r (Suc n) w) = Some st \<and> x_assert st"
    using h(1) h' by (simp add: eval)
  ultimately show ?thesis using st(1) by blast
qed

theorem terminate_leaves_state_witness:
  "\<exists>st. xtrace ref_winmutex [XCall 0 OpStart, XClient 0, XRunner, XCall 0 OpTerminate, XClient 0, XCall 0 OpIsRunning, XClient 0]
     (win_thread_new ref_winmutex None 1 ()) = Some st \<and> x_assert st"
  using terminate_leaves_state[OF rwm.win_mutex_axioms, of None 0 "()"] by simp

end
