(* ===== verification/Destructors.thy ===== *)
theory Destructors
  imports Guarded Queue Thread SemaApple SemaWindows ServerThreadsProofs
begin

text \<open>
  The destructors of \<open>src/src/Mutex.cpp\<close> and \<open>src/src/Sema.cpp\<close>, and the places where other
  classes run them: the members of a \<open>Queue\<close>, the two \<open>delete\<close> statements of \<open>~Thread\<close>, and the
  socket that the server deletes. POSIX leaves undefined what happens when a locked mutex, a semaphore
  with waiting threads or a condition with sleeping threads is destroyed: that is the result \<open>None\<close>.
\<close>

section \<open>System calls\<close>

text \<open>\<open>pf_sem\<close> and \<open>hf_close\<close> are given the threads that are waiting.\<close>

record ('m, 's) posix_free =
  pf_mutex :: "'m \<Rightarrow> unit option"
  pf_sem :: "tid list \<Rightarrow> 's \<Rightarrow> unit option"

record ('m, 'c) pthread_free =
  ptf_mutex :: "'m \<Rightarrow> unit option"
  ptf_cond :: "'c \<Rightarrow> unit option"

locale posix_destroy = posix_sync P owner depth tokens
  for P :: "('m, 's) posix" and owner :: "'m \<Rightarrow> tid option" and depth :: "'m \<Rightarrow> nat" and tokens :: "'s \<Rightarrow> nat" +
  fixes F :: "('m, 's) posix_free"
  assumes mutex_destroy: "pf_mutex F m = (if owner m = None then Some () else None)"
    and sem_destroy: "pf_sem F ts s = (if ts = [] then Some () else None)"

locale pthread_destroy = pthread_calls X owner sleepers
  for X :: "('m, 'c) pthread" and owner :: "'m \<Rightarrow> tid option" and sleepers :: "'c \<Rightarrow> tid set" +
  fixes G :: "('m, 'c) pthread_free"
  assumes pt_mutex_destroy: "ptf_mutex G m = (if owner m = None then Some () else None)"
    and cond_destroy: "ptf_cond G c = (if sleepers c = {} then Some () else None)"

definition ref_posix_free :: "(ref_mutex, nat) posix_free" where
  "ref_posix_free = \<lparr>pf_mutex = (\<lambda>m. if m = None then Some () else None),
     pf_sem = (\<lambda>ts s. if ts = [] then Some () else None)\<rparr>"

definition ref_pthread_free :: "(tid option, tid list) pthread_free" where
  "ref_pthread_free = \<lparr>ptf_mutex = (\<lambda>m. if m = None then Some () else None),
     ptf_cond = (\<lambda>c. if c = [] then Some () else None)\<rparr>"

interpretation rd: posix_destroy ref_posix "map_option fst" ref_depth id ref_posix_free
  by unfold_locales (auto simp: ref_posix_free_def)

interpretation rpd: pthread_destroy ref_pthread id set ref_pthread_free
  by unfold_locales (auto simp: ref_pthread_free_def)

section \<open>Destructors\<close>

definition mutex_delete :: "('m, 's) posix_free \<Rightarrow> 'm \<Rightarrow> unit option" where
  "mutex_delete F m = pf_mutex F m"

definition sema_delete :: "('m, 's) posix_free \<Rightarrow> tid list \<Rightarrow> 's \<Rightarrow> unit option" where
  "sema_delete F waiters s = pf_sem F waiters s"

text \<open>The Mac OS semaphore.\<close>

definition asema_delete :: "('m, 'c) pthread_free \<Rightarrow> ('m, 'c) asema \<Rightarrow> unit option" where
  "asema_delete G st = (case ptf_mutex G (m_countMutex st) of None \<Rightarrow> None | Some _ \<Rightarrow>
     (case ptf_mutex G (m_waitMutex st) of None \<Rightarrow> None | Some _ \<Rightarrow> ptf_cond G (m_waitCond st)))"

text \<open>The Windows semaphore: \<open>CloseHandle\<close> on its handle, then the mutex.\<close>

definition wsema_waiters :: "('m, 'h) wsema \<Rightarrow> tid list" where
  "wsema_waiters st = filter (\<lambda>t. case w_pcs st ! t of WWait _ \<Rightarrow> True | _ \<Rightarrow> False) [0..<length (w_pcs st)]"

definition wsema_delete :: "('m, 's) posix_free \<Rightarrow> (tid list \<Rightarrow> 'h \<Rightarrow> unit option) \<Rightarrow> ('m, 'h) wsema \<Rightarrow> unit option" where
  "wsema_delete F CloseHandle st = (case CloseHandle (wsema_waiters st) (m_semaphore st) of
     None \<Rightarrow> None | Some _ \<Rightarrow> mutex_delete F (m_pMutex st))"

text \<open>The members of a queue, in the reverse order of their declaration; the items need no call.\<close>

definition queue_waiters :: "('m, 's, 'a) qstate \<Rightarrow> tid list" where
  "queue_waiters st = filter (\<lambda>t. case q_pcs st ! t of Deq \<Rightarrow> True | ClrLoop _ \<Rightarrow> True | _ \<Rightarrow> False) [0..<length (q_pcs st)]"

definition queue_delete :: "('m, 's) posix_free \<Rightarrow> ('m, 's, 'a) qstate \<Rightarrow> unit option" where
  "queue_delete F st = (case sema_delete F (queue_waiters st) (q_sem st) of
     None \<Rightarrow> None | Some _ \<Rightarrow> mutex_delete F (q_mutex st))"

section \<open>The semaphore of Mac OS\<close>

definition sleep_crit :: "apc \<Rightarrow> bool" where
  "sleep_crit pc \<longleftrightarrow> (case pc of WSleep _ \<Rightarrow> True | WAwake _ \<Rightarrow> True | _ \<Rightarrow> False)"

definition dozing :: "apc \<Rightarrow> bool" where
  "dozing pc \<longleftrightarrow> (case pc of WAsleep _ \<Rightarrow> True | _ \<Rightarrow> False)"

lemma aexec_pcs:
  assumes "aexec X t pc st = Some st'" and "t < length (a_pcs st)"
  shows "a_pcs st' = (a_pcs st)[t := a_pcs st' ! t]"
  using assms by (cases pc) (auto simp: astmt_defs split: option.splits if_splits)

lemma aexec_count:
  assumes "aexec X t pc st = Some st'" and "t < length (a_pcs st)"
  shows "m_countMutex st' = m_countMutex st \<and> acrit (a_pcs st' ! t) = acrit pc \<or>
      \<not> acrit pc \<and> acrit (a_pcs st' ! t) \<and> pt_lock X t (m_countMutex st) = Some (m_countMutex st') \<or>
      acrit pc \<and> \<not> acrit (a_pcs st' ! t) \<and> m_countMutex st' = pt_unlock X t (m_countMutex st)"
  using assms by (cases pc) (simp_all add: astmt_defs acrit_def split: option.splits if_splits, auto)

lemma aexec_wait:
  assumes "aexec X t pc st = Some st'" and "t < length (a_pcs st)"
  shows "m_waitMutex st' = m_waitMutex st \<and> sleep_crit (a_pcs st' ! t) = sleep_crit pc \<or>
      \<not> sleep_crit pc \<and> sleep_crit (a_pcs st' ! t) \<and> pt_lock X t (m_waitMutex st) = Some (m_waitMutex st') \<or>
      sleep_crit pc \<and> \<not> sleep_crit (a_pcs st' ! t) \<and> m_waitMutex st' = pt_unlock X t (m_waitMutex st)"
  using assms by (cases pc) (simp_all add: astmt_defs sleep_crit_def split: option.splits if_splits, auto)

lemma aexec_cond:
  assumes "aexec X t pc st = Some st'" and "t < length (a_pcs st)"
  shows "m_waitCond st' = m_waitCond st \<and> (dozing pc \<longrightarrow> \<not> pt_asleep X t (m_waitCond st)) \<or>
      m_waitCond st' = pt_sleep X t (m_waitCond st) \<and> dozing (a_pcs st' ! t) \<or>
      m_waitCond st' = pt_signal X (m_waitCond st) \<and> \<not> dozing pc"
  using assms by (cases pc) (simp_all add: astmt_defs dozing_def split: option.splits if_splits, auto)

context pthread_calls
begin

definition apple_locks :: "('m, 'c) asema \<Rightarrow> bool" where
  "apple_locks st \<longleftrightarrow> locked_by (owner (m_countMutex st)) acrit (a_pcs st) \<and>
     locked_by (owner (m_waitMutex st)) sleep_crit (a_pcs st) \<and>
     (\<forall>t \<in> sleepers (m_waitCond st). t < length (a_pcs st) \<and> dozing (a_pcs st ! t))"

lemma mutex_effect:
  assumes "locked_by (owner m) crit pcs" and t: "t < length pcs"
    and "m' = m \<and> crit pc' = crit (pcs ! t) \<or> \<not> crit (pcs ! t) \<and> crit pc' \<and> pt_lock X t m = Some m' \<or>
      crit (pcs ! t) \<and> \<not> crit pc' \<and> m' = pt_unlock X t m"
  shows "locked_by (owner m') crit (pcs[t := pc'])"
  using assms(3)
proof (elim disjE conjE)
  assume c: "\<not> crit (pcs ! t)" "crit pc'" and l: "pt_lock X t m = Some m'"
  have "owner m \<noteq> Some t" using assms(1) c(1) by (auto simp: locked_by_def)
  then have n: "owner m = None" using lock_waits[of m _ t] l by (cases "owner m") auto
  with lock_takes[OF n, of t] l have "owner m' = Some t" by auto
  with locked_take[of crit pcs t pc'] t c assms(1) n show ?thesis by simp
next
  assume c: "crit (pcs ! t)" "\<not> crit pc'" and m': "m' = pt_unlock X t m"
  have o: "owner m = Some t" using assms(1) c(1) t by (auto simp: locked_by_def)
  then have "owner m' = None" using unlock_frees m' by simp
  with locked_drop[of t crit pcs pc'] c assms(1) o show ?thesis by simp
qed (use locked_keep[OF assms(1)] in simp)

lemma locks_step:
  assumes inv: "apple_locks st" and t: "t < length (a_pcs st)" and step: "aexec X t (a_pcs st ! t) st = Some st'"
  shows "apple_locks st'"
proof -
  let ?pc' = "a_pcs st' ! t"
  note e = aexec_pcs[OF step t] aexec_count[OF step t] aexec_wait[OF step t] aexec_cond[OF step t]
  have m: "locked_by (owner (m_countMutex st')) acrit (a_pcs st')" "locked_by (owner (m_waitMutex st')) sleep_crit (a_pcs st')"
    using mutex_effect[OF _ t e(2)] mutex_effect[OF _ t e(3)] inv by (simp_all add: apple_locks_def flip: e(1))
  have len: "length (a_pcs st') = length (a_pcs st)" using e(1) by (metis length_list_update)
  have "u < length (a_pcs st') \<and> dozing (a_pcs st' ! u)" if u: "u \<in> sleepers (m_waitCond st')" for u
  proof (cases "u = t")
    case True
    have "u \<notin> sleepers (m_waitCond st)" if "\<not> dozing (a_pcs st ! t)"
      using that True inv by (auto simp: apple_locks_def)
    then show ?thesis using e(4) u True t len signal_wakes[of "m_waitCond st"] by (auto simp: asleep_iff)
  next
    case False
    then have "u \<in> sleepers (m_waitCond st)" using e(4) u signal_wakes[of "m_waitCond st"] sleep_joins by auto
    then show ?thesis using inv False len e(1) by (metis apple_locks_def nth_list_update_neq)
  qed
  then show ?thesis using m by (simp add: apple_locks_def)
qed

lemma locks_fire:
  assumes inv: "apple_locks st" and fire: "afire X e st = Some st'"
  shows "apple_locks st'"
proof (cases e)
  case (ACall t opn)
  then have c: "t < length (a_pcs st)" "aidle (a_pcs st ! t)" "st' = ago t (aentry opn) st"
    using fire by (auto split: if_splits)
  have "\<not> acrit (a_pcs st ! t)" "\<not> sleep_crit (a_pcs st ! t)" "\<not> dozing (a_pcs st ! t)"
    using c(2) by (cases "a_pcs st ! t"; simp add: apc_simps sleep_crit_def dozing_def)+
  moreover have "\<not> acrit (aentry opn)" "\<not> sleep_crit (aentry opn)" by (cases opn; simp add: acrit_def sleep_crit_def)+
  ultimately show ?thesis
    using inv c(1) by (auto simp: apple_locks_def c(3) ago_def nth_list_update intro!: locked_keep)
next
  case (AStep t)
  then show ?thesis using fire locks_step[OF inv] by (auto split: if_splits)
next
  case (AWake t timeout)
  then obtain ms where c: "t < length (a_pcs st)" "a_pcs st ! t = WAsleep ms"
      "st' = ago t (WRelock (\<not> timeout)) (st\<lparr>m_waitCond := pt_leave X t (m_waitCond st)\<rparr>)"
    using fire by (auto split: if_splits apc.splits)
  then show ?thesis
    using inv leave_leaves by (auto simp: apple_locks_def ago_def acrit_def sleep_crit_def nth_list_update intro!: locked_keep)
qed

lemma locks_run: "arun X es st = Some st' \<Longrightarrow> apple_locks st \<Longrightarrow> apple_locks st'"
  by (induction es arbitrary: st) (auto split: option.splits intro: locks_fire)

lemma locks_init: "apple_locks (asema_new X n threads)"
  using mutex_free cond_empty by (simp add: apple_locks_def asema_new_def locked_init acrit_def sleep_crit_def)

end

section \<open>The semaphore of Windows\<close>

definition mirror_crit :: "wpc \<Rightarrow> bool" where
  "mirror_crit pc \<longleftrightarrow> (case pc of WDec \<Rightarrow> True | WUnlock \<Rightarrow> True | NRelease _ \<Rightarrow> True | NUnlock \<Rightarrow> True
   | VRead \<Rightarrow> True | VUnlock _ \<Rightarrow> True | _ \<Rightarrow> False)"

lemma wexec_pcs:
  assumes "wexec P W t pc st = Some st'" and "t < length (w_pcs st)" and "w_pcs st ! t = pc"
  shows "w_pcs st' = (w_pcs st)[t := w_pcs st' ! t]"
  using assms by (cases pc) (auto simp: w_lock_def w_unlock_def wgo_def split: option.splits, metis list_update_id)

lemma wexec_mutex:
  assumes "wexec P W t pc st = Some st'" and "t < length (w_pcs st)" and "w_pcs st ! t = pc"
  shows "m_pMutex st' = m_pMutex st \<and> mirror_crit (w_pcs st' ! t) = mirror_crit pc \<or>
      \<not> mirror_crit pc \<and> mirror_crit (w_pcs st' ! t) \<and> p_mutex_lock P t (m_pMutex st) = Some (m_pMutex st') \<or>
      mirror_crit pc \<and> \<not> mirror_crit (w_pcs st' ! t) \<and> m_pMutex st' = p_mutex_unlock P t (m_pMutex st)"
  using assms
  by (cases pc) (auto simp: w_lock_def w_unlock_def wgo_def mirror_crit_def mutex_lock_def mutex_unlock_def split: option.splits)

context posix_sync
begin

definition mirror_locks :: "('m, 'h) wsema \<Rightarrow> bool" where
  "mirror_locks st \<longleftrightarrow> guarded (m_pMutex st) mirror_crit (w_pcs st)"

lemma mirror_step:
  assumes "mirror_locks st" and t: "t < length (w_pcs st)" and step: "wexec P W t (w_pcs st ! t) st = Some st'"
  shows "mirror_locks st'"
  using guarded_effect[OF _ t wexec_mutex[OF step t refl]] assms(1) wexec_pcs[OF step t refl] by (simp add: mirror_locks_def)

lemma mirror_fire:
  assumes inv: "mirror_locks st" and fire: "wfire P W e st = Some st'"
  shows "mirror_locks st'"
proof -
  have move: "mirror_locks (wgo t pc st)" if "\<not> mirror_crit (w_pcs st ! t)" "\<not> mirror_crit pc" for t pc
    using inv that by (auto simp: mirror_locks_def guarded_def wgo_def intro!: locked_keep)
  show ?thesis
  proof (cases e)
    case (WCall t opn)
    then have c: "widle (w_pcs st ! t)" "st' = wgo t (wentry opn) st" using fire by (auto split: if_splits)
    have "\<not> mirror_crit (w_pcs st ! t)" using c(1) by (cases "w_pcs st ! t") (simp_all add: mirror_crit_def widle_def)
    moreover have "\<not> mirror_crit (wentry opn)" by (cases opn) (simp_all add: mirror_crit_def)
    ultimately show ?thesis using move c(2) by simp
  next
    case (WStep t)
    then show ?thesis using fire mirror_step[OF inv] by (auto split: if_splits)
  next
    case (WTimeout t)
    then have "\<exists>ms. w_pcs st ! t = WWait ms" "st' = wgo t (WReturned False) st" using fire by (auto split: if_splits wpc.splits)
    then show ?thesis using move[of t "WReturned False"] by (auto simp: mirror_crit_def)
  qed
qed

lemma mirror_run: "wrun P W es st = Some st' \<Longrightarrow> mirror_locks st \<Longrightarrow> mirror_locks st'"
  by (induction es arbitrary: st) (auto split: option.splits intro: mirror_fire)

lemma mirror_init: "mirror_locks (wsema_new P W n threads)"
  using guarded_init[of mirror_crit WIdle threads] by (simp add: mirror_locks_def wsema_new_def mirror_crit_def)

end

section \<open>Properties\<close>

text \<open>C26: a \<open>Queue\<close> is destroyed without undefined behaviour exactly when no thread is inside an operation that
  has locked its mutex or waits in \<open>dequeue\<close>; in particular when all calls have returned.\<close>

theorem queue_delete_exact:
  assumes "posix_destroy P owner depth tokens F"
    and "run P es (queue_new P n) = Some st" and "\<forall>e \<in> set es. quiet e" and "length (q_in st) < 2 ^ 31"
  shows "queue_delete F st = Some () \<longleftrightarrow> (\<forall>pc \<in> set (q_pcs st). \<not> critical pc \<and> pc \<noteq> Deq)"
proof -
  have sync: "posix_sync P owner depth tokens" using assms(1) by (rule posix_destroy.axioms)
  have inv: "posix_sync.queue_inv owner depth tokens st" by (rule posix_sync.reachable_inv[OF sync assms(2-4)])
  then have own: "owner (q_mutex st) = None \<longleftrightarrow> (\<forall>t < length (q_pcs st). \<not> critical (q_pcs st ! t))"
    unfolding posix_sync.queue_inv_def[OF sync] by (metis not_None_eq)
  have "queue_waiters st = [] \<longleftrightarrow> (\<forall>t < length (q_pcs st). q_pcs st ! t \<noteq> Deq \<and> (\<forall>i. q_pcs st ! t \<noteq> ClrLoop i))"
    by (auto simp: queue_waiters_def filter_empty_conv split: pc.splits)
  moreover have "critical (ClrLoop i)" for i :: int32 by (simp add: critical_def)
  ultimately have "queue_waiters st = [] \<and> owner (q_mutex st) = None \<longleftrightarrow>
      (\<forall>t < length (q_pcs st). \<not> critical (q_pcs st ! t) \<and> q_pcs st ! t \<noteq> Deq)"
    using own by metis
  moreover have "queue_delete F st = Some () \<longleftrightarrow> queue_waiters st = [] \<and> owner (q_mutex st) = None"
    using posix_destroy.mutex_destroy[OF assms(1)] posix_destroy.sem_destroy[OF assms(1)]
    by (simp add: queue_delete_def mutex_delete_def sema_delete_def)
  ultimately show ?thesis by (simp add: all_set_conv_all_nth)
qed

text \<open>A queue with a waiting consumer cannot be destroyed, and one whose calls have returned can.\<close>

theorem queue_delete_exact_witness:
  "queue_delete ref_posix_free waiting_end \<noteq> Some () \<and>
   (\<exists>st. run ref_posix [Call 0 (OpEnqueue (7 :: nat)), Step 0 False, Step 0 False, Step 0 False, Step 0 False]
      (queue_new ref_posix 1) = Some st \<and> queue_delete ref_posix_free st = Some ())"
proof
  have "run ref_posix [Call 0 OpDequeue] (queue_new ref_posix 1) = Some waiting_end"
    by (simp add: waiting_end_def queue_new_def go_def idle_def)
  from queue_delete_exact[OF rd.posix_destroy_axioms this] show "queue_delete ref_posix_free waiting_end \<noteq> Some ()"
    by (simp add: waiting_end_def queue_new_def)
  obtain st where st: "run ref_posix [Call 0 (OpEnqueue (7 :: nat)), Step 0 False, Step 0 False, Step 0 False, Step 0 False]
      (queue_new ref_posix 1) = Some st" "q_pcs st = [Finished RUnit]" "length (q_in st) = 1"
    by (simp add: queue_new_def go_def idle_def locker_in_def locker_out_def locker_new_def locker_delete_def mutex_lock_def
        mutex_unlock_def mutex_new_def ref_posix_def ref_lock_def ref_unlock_def)
  then have "queue_delete ref_posix_free st = Some ()"
    using queue_delete_exact[OF rd.posix_destroy_axioms st(1)] by (simp add: critical_def)
  with st(1) show "\<exists>st. run ref_posix [Call 0 (OpEnqueue (7 :: nat)), Step 0 False, Step 0 False, Step 0 False, Step 0 False]
      (queue_new ref_posix 1) = Some st \<and> queue_delete ref_posix_free st = Some ()" by blast
qed

text \<open>When the object is deleted only after the one join has returned and nobody else uses it, \<open>~Thread\<close> destroys a
  semaphore nobody waits for and a mutex nobody has locked.\<close>

theorem thread_delete_defined:
  assumes "posix_destroy P owner depth tokens F" and "treach P sigs r n w st" and "i < length (t_clients st)"
  shows "(t_clients st ! i = CDelSem \<longrightarrow> (\<exists>s. m_pStartSemaphore st = Some s \<and>
      sema_delete F (if t_runner st = RWait then [0] else []) s = Some ())) \<and>
    (t_clients st ! i = CDelMutex \<longrightarrow> (\<exists>m. thread.m_pMutex st = Some m \<and> mutex_delete F m = Some ()))"
proof -
  have sync: "posix_sync P owner depth tokens" using assms(1) by (rule posix_destroy.axioms)
  have life: "life_inv st" and held: "posix_sync.sync_inv owner depth st" using reach_inv[OF assms(2) sync] by blast+
  have ok: "client_ok st (t_clients st ! i)" using life assms(3) by (simp add: life_inv_def)
  show ?thesis
  proof (intro conjI impI)
    assume "t_clients st ! i = CDelSem"
    then have "ended (t_runner st)" "m_pStartSemaphore st \<noteq> None" using ok life by (auto simp: client_ok_def life_inv_def)
    then show "\<exists>s. m_pStartSemaphore st = Some s \<and> sema_delete F (if t_runner st = RWait then [0] else []) s = Some ()"
      using posix_destroy.sem_destroy[OF assms(1)] by (auto simp: sema_delete_def ended_def)
  next
    assume c: "t_clients st ! i = CDelMutex"
    then obtain m where m: "thread.m_pMutex st = Some m" and e: "ended (t_runner st)"
      using ok life by (auto simp: client_ok_def life_inv_def)
    have "\<not> holds st t" for t
    proof (cases t)
      case 0 then show ?thesis using e by (cases "t_runner st") (simp_all add: holds_def rcrit_def ended_def)
    next
      case (Suc j)
      have "j < length (t_clients st) \<Longrightarrow> j \<noteq> i \<Longrightarrow> cidle (t_clients st ! j)"
        using life assms(3) c by (auto simp: life_inv_def compatible_def)
      then show ?thesis using c Suc by (cases "j = i") (auto simp: holds_def ccrit_def cidle_def split: cpc.splits)
    qed
    then have "owner m = None" using held m unfolding posix_sync.sync_inv_def[OF sync] by (cases "owner m") auto
    then show "\<exists>m. thread.m_pMutex st = Some m \<and> mutex_delete F m = Some ()"
      using m posix_destroy.mutex_destroy[OF assms(1)] by (simp add: mutex_delete_def)
  qed
qed

theorem thread_delete_defined_witness:
  "\<exists>st. treach ref_posix False (Some demo_body) (Suc (Suc 0)) 0 st \<and> t_clients st = [CDone None, CDelMutex] \<and>
     mutex_delete ref_posix_free (the (thread.m_pMutex st)) = Some ()"
proof -
  obtain st where st: "prun ref_posix False [TCall 1 OpDelete, TClient 1] (the demo_joined) = Some st"
    and c: "t_clients st = [CDone None, CDelMutex]"
    by (simp add: demo_joined_eval demo_new_def thread_new_def thread_eval)
  have r: "treach ref_posix False (Some demo_body) (Suc (Suc 0)) 0 st" by (rule prun_reach[OF demo_reach st])
  from thread_delete_defined[OF rd.posix_destroy_axioms r, of 1] c r show ?thesis by auto
qed

text \<open>Whenever a thread is about to free the socket of a server, its mutex is not locked.\<close>

theorem server_delete_defined:
  assumes "posix_destroy P owner depth tokens F" and "srun P N es (server_start P n w) = Some st"
    and "t < length (sv_pcs st)" and "sv_pcs st ! t = DtFree a"
  shows "\<exists>ob. obj_at (sv_heap st) a = Some ob \<and> mutex_delete F (o_mutex ob) = Some ()"
proof -
  have sync: "posix_sync P owner depth tokens" using assms(1) by (rule posix_destroy.axioms)
  have "posix_sync.srv_inv owner depth st"
    by (rule posix_sync.srv_inv_run[OF sync posix_sync.srv_inv_init[OF sync] assms(2)])
  moreover have "scrit (sv_pcs st ! t)" "uses (sv_pcs st ! t) = Some a" "inner (sv_pcs st ! t) = None" "sv_pcs st ! t \<noteq> ClNull"
    using assms(4) by (simp_all add: spc_simps)
  ultimately have "posix_sync.srv_knows owner depth t (DtFree a) (sv_ptr st) (sv_heap st)"
    using assms(3,4) unfolding posix_sync.srv_inv_def[OF sync] by (auto split: option.splits)
  then obtain ob where ob: "obj_at (sv_heap st) a = Some ob" "posix_sync.unlocked owner ob"
    unfolding posix_sync.srv_knows_def[OF sync] by (auto simp: spc_simps)
  then show ?thesis
    using posix_destroy.mutex_destroy[OF assms(1)] by (simp add: mutex_delete_def posix_sync.unlocked_def[OF sync])
qed

theorem server_delete_defined_witness:
  "\<exists>st ob. srun ref_posix ref_net ([Begin 0 (OpListen [] 80)] @ replicate 10 (Stmt 0) @ [Begin 0 OpClose] @ replicate 13 (Stmt 0))
       (server_start ref_posix 1 (demo_world 6 False False [])) = Some st \<and>
     obj_at (sv_heap st) 0 = Some ob \<and> mutex_delete ref_posix_free (o_mutex ob) = Some ()"
proof -
  obtain st where st: "srun ref_posix ref_net ([Begin 0 (OpListen [] 80)] @ replicate 10 (Stmt 0) @ [Begin 0 OpClose] @ replicate 13 (Stmt 0))
       (server_start ref_posix 1 (demo_world 6 False False [])) = Some st" "sv_pcs st = [DtFree 0]"
    by (simp add: eval_server replicate_numeral)
  with server_delete_defined[OF rd.posix_destroy_axioms st(1), of 0 0] show ?thesis by auto
qed

text \<open>When all calls of a semaphore have returned, its destructor is defined, on Mac OS and on Windows.\<close>

theorem semaphores_delete_defined:
  assumes "pthread_destroy X owner sleepers G" and "posix_destroy P owner' depth tokens F" and "\<forall>h. CloseHandle [] h = Some ()"
    and "arun X es (asema_new X n threads) = Some st" and "\<forall>pc \<in> set (a_pcs st). aidle pc"
    and "wrun P W es' (wsema_new P W n' threads') = Some st'" and "\<forall>pc \<in> set (w_pcs st'). widle pc"
  shows "asema_delete G st = Some () \<and> wsema_delete F CloseHandle st' = Some ()"
proof
  have calls: "pthread_calls X owner sleepers" using assms(1) by (rule pthread_destroy.axioms)
  have "\<forall>pc \<in> set (a_pcs st). \<not> acrit pc \<and> \<not> sleep_crit pc \<and> \<not> dozing pc"
    using assms(5) by (fastforce simp: apc_simps sleep_crit_def dozing_def split: apc.splits)
  moreover have "pthread_calls.apple_locks owner sleepers st"
    by (rule pthread_calls.locks_run[OF calls assms(4) pthread_calls.locks_init[OF calls]])
  ultimately have "owner (m_countMutex st) = None \<and> owner (m_waitMutex st) = None \<and> sleepers (m_waitCond st) = {}"
    unfolding pthread_calls.apple_locks_def[OF calls] by (auto dest: locked_none)
  then show "asema_delete G st = Some ()"
    using pthread_destroy.pt_mutex_destroy[OF assms(1)] pthread_destroy.cond_destroy[OF assms(1)] by (simp add: asema_delete_def)
next
  have sync: "posix_sync P owner' depth tokens" using assms(2) by (rule posix_destroy.axioms)
  have "\<forall>pc \<in> set (w_pcs st'). \<not> mirror_crit pc" using assms(7) by (fastforce simp: widle_def mirror_crit_def split: wpc.splits)
  moreover have "posix_sync.mirror_locks owner' depth st'"
    by (rule posix_sync.mirror_run[OF sync assms(6) posix_sync.mirror_init[OF sync]])
  ultimately have "owner' (wsema.m_pMutex st') = None"
    unfolding posix_sync.mirror_locks_def[OF sync] posix_sync.guarded_def[OF sync] by (auto dest: locked_none)
  moreover have "wsema_waiters st' = []"
    using assms(7) by (auto simp: wsema_waiters_def filter_empty_conv widle_def in_set_conv_nth split: wpc.splits)
  ultimately show "wsema_delete F CloseHandle st' = Some ()"
    using assms(3) posix_destroy.mutex_destroy[OF assms(2)] by (simp add: wsema_delete_def mutex_delete_def)
qed

theorem semaphores_delete_defined_witness:
  "\<exists>st st'. arun ref_pthread [ACall 0 (AWait 0), AStep 0, AStep 0, AStep 0, AStep 0] (asema_new ref_pthread 4 1) = Some st \<and>
     wrun ref_posix ref_winsem [WCall 0 OpValue, WStep 0, WStep 0, WStep 0] (wsema_new ref_posix ref_winsem 1 2) = Some st' \<and>
     asema_delete ref_pthread_free st = Some () \<and>
     wsema_delete ref_posix_free (\<lambda>ts h. if ts = [] then Some () else None) st' = Some ()"
proof -
  obtain st where st: "arun ref_pthread [ACall 0 (AWait 0), AStep 0, AStep 0, AStep 0, AStep 0] (asema_new ref_pthread 4 1) = Some st"
      "a_pcs st = [AReturned True]"
    by (simp add: asema_new_def ref_pthread_def astmt_defs aidle_def)
  obtain st' where st': "wrun ref_posix ref_winsem [WCall 0 OpValue, WStep 0, WStep 0, WStep 0]
        (wsema_new ref_posix ref_winsem 1 2) = Some st'" "w_pcs st' = [WCount 1, WIdle]"
    by (simp add: wsema_new_def w_lock_def w_unlock_def wgo_def widle_def mutex_lock_def mutex_unlock_def mutex_new_def
        ref_posix_def ref_lock_def ref_unlock_def numeral_2_eq_2)
  from semaphores_delete_defined[OF rpd.pthread_destroy_axioms rd.posix_destroy_axioms _ st(1) _ st'(1),
      of "\<lambda>ts h. if ts = [] then Some () else None"] st st' show ?thesis by (auto simp: aidle_def widle_def)
qed

end
