(* ===== verification/SocketThreads.thy ===== *)
theory SocketThreads
  imports TcpSocket Guarded
begin

text \<open>
  Model of \<open>src/src/TcpSocket.cpp\<close> for several threads: one socket, called by any number of them.
  As in \<open>ServerThreads\<close> a program counter names the statement a thread executes next, and the threads
  interleave between statements; what the rest of the program and the network do may happen at any
  time. The mutex of the class guards single accesses to \<open>m_socket\<close>, \<open>m_peerAddr\<close> and
  \<open>m_peerPort\<close>; \<open>setError\<close> and its readers in \<open>src/src/Socket.h\<close> do not use it. Buffers, lines and
  lengths are local to a thread, and part of its program counter.
\<close>

section \<open>State\<close>

text \<open>
  The operations. \<open>setPeerAddr\<close> and \<open>setPeerPort\<close> are private; \<open>TcpServer\<close> calls them before it hands a
  socket out. Here any thread may.
\<close>

datatype kop = OpRead size_t "char list" | OpWrite "char list" size_t | OpAvailable | OpReadLine size_t
  | OpClose stream | OpIsConnected | OpConnect string port | OpPeerAddr | OpPeerPort
  | OpSetPeerAddr string | OpSetPeerPort port | OpIsError | OpErrorText

datatype kret = RDone | RBool bool | RRead size_t "char list" | RSize size_t | RString string | RPort "port option"

text \<open>
  What the caller of \<open>nativeSocket\<close> does with the descriptor. \<open>close\<close> is also called by
  \<open>connectToHost\<close>, which goes on with the host and the port.
\<close>

datatype kact = ActRead size_t "char list" | ActWrite "char list" size_t | ActAvailable | ActLine size_t
  | ActClose stream "(string \<times> port) option"

text \<open>The caller of \<open>isConnected\<close>.\<close>

datatype kask = AskCaller | AskConnect string port | AskRead size_t "char list" | AskWrite "char list" size_t
  | AskAvailable | AskLine size_t

datatype kpc = Rest | Returned kret
  | IcLock kask | IcRead kask | IcUnlock kask bool
  | NvLock kact | NvRead kact | NvUnlock kact fd
  | RdRecv fd size_t "char list" | WrSend fd "char list" size_t | AvIoctl fd
  | LnRecv fd size_t string size_t char
  | ClShutdown stream "(string \<times> port) option" fd | ClClose "(string \<times> port) option" fd
  | CnSocket string port | CnConnect string port fd | CnLock fd | CnStore fd | CnUnlock
  | SeFlag string kret | SeText string kret
  | PaLock | PaRead | PaUnlock string | PpLock | PpRead | PpUnlock "port option"
  | SaLock string | SaStore string | SaUnlock | SpLock port | SpStore port | SpUnlock
  | EfRead | EtRead

record ('m, 'w) shared =
  sh_mutex :: 'm
  sh_data :: tcpsocket
  sh_world :: 'w
  sh_pcs :: "kpc list"

definition shared_start :: "('m, 's) posix \<Rightarrow> tcpsocket \<Rightarrow> nat \<Rightarrow> 'w \<Rightarrow> ('m, 'w) shared" where
  "shared_start P s n w = \<lparr>sh_mutex = mutex_new P, sh_data = s, sh_world = w, sh_pcs = replicate n Rest\<rparr>"

definition kgo :: "tid \<Rightarrow> kpc \<Rightarrow> ('m, 'w) shared \<Rightarrow> ('m, 'w) shared" where
  "kgo t pc st = st\<lparr>sh_pcs := (sh_pcs st)[t := pc]\<rparr>"

section \<open>Statements\<close>

text \<open>\<open>MutexLocker locker(&m_mutex)\<close> and its destructor.\<close>

definition k_lock :: "('m, 's) posix \<Rightarrow> tid \<Rightarrow> kpc \<Rightarrow> ('m, 'w) shared \<Rightarrow> ('m, 'w) shared option" where
  "k_lock P t pc st = (case locker_new P t (Some (sh_mutex st)) of
     Some (Some m) \<Rightarrow> Some (kgo t pc (st\<lparr>sh_mutex := m\<rparr>)) | _ \<Rightarrow> None)"

definition k_unlock :: "('m, 's) posix \<Rightarrow> tid \<Rightarrow> kpc \<Rightarrow> ('m, 'w) shared \<Rightarrow> ('m, 'w) shared option" where
  "k_unlock P t pc st = (case locker_delete P t (Some (sh_mutex st)) of
     Some m \<Rightarrow> Some (kgo t pc (st\<lparr>sh_mutex := m\<rparr>)) | None \<Rightarrow> None)"

text \<open>A system call: it returns a result and changes the world.\<close>

definition k_sys :: "tid \<Rightarrow> ('w \<Rightarrow> 'r \<times> 'w) \<Rightarrow> ('r \<Rightarrow> kpc) \<Rightarrow> ('m, 'w) shared \<Rightarrow> ('m, 'w) shared option" where
  "k_sys t call pc st = (case call (sh_world st) of (r, w) \<Rightarrow> Some (kgo t (pc r) (st\<lparr>sh_world := w\<rparr>)))"

text \<open>Where a thread goes on after \<open>isConnected\<close>, after \<open>nativeSocket\<close> and after \<open>close\<close> have returned.\<close>

primrec k_asked :: "kask \<Rightarrow> bool \<Rightarrow> kpc" where
  "k_asked AskCaller b = Returned (RBool b)"
| "k_asked (AskConnect h p) b = (if b then NvLock (ActClose Stream_All (Some (h, p))) else CnSocket h p)"
| "k_asked (AskRead n buf) b = (if b then NvLock (ActRead n buf) else Returned (RRead 0 buf))"
| "k_asked (AskWrite data n) b = (if b then NvLock (ActWrite data n) else Returned (RSize 0))"
| "k_asked AskAvailable b = (if b then NvLock ActAvailable else Returned (RSize 0))"
| "k_asked (AskLine n) b = (if b then NvLock (ActLine n) else Returned (RString []))"

primrec k_native :: "kact \<Rightarrow> fd \<Rightarrow> kpc" where
  "k_native (ActRead n buf) sock = RdRecv sock n buf"
| "k_native (ActWrite data n) sock = WrSend sock data n"
| "k_native ActAvailable sock = AvIoctl sock"
| "k_native (ActLine n) sock = LnRecv sock n [] 0 CHR 0x00"
| "k_native (ActClose stream h) sock = ClShutdown stream h sock"

definition k_closed :: "(string \<times> port) option \<Rightarrow> kpc" where
  "k_closed h = (case h of None \<Rightarrow> Returned RDone | Some (hostName, p) \<Rightarrow> CnSocket hostName p)"

text \<open>One turn of the loop of \<open>readLine\<close> after \<open>recv\<close> has returned \<open>r\<close> and stored \<open>bs\<close>.\<close>

definition k_line :: "fd \<Rightarrow> size_t \<Rightarrow> string \<Rightarrow> size_t \<Rightarrow> char \<Rightarrow> 64 word \<times> char list \<Rightarrow> kpc" where
  "k_line sock n line len c r = (case r of (k, bs) \<Rightarrow>
     let read = (ucast k :: int32); c' = (case bs of [] \<Rightarrow> c | b # _ \<Rightarrow> b)
     in if sint read < 0 then SeFlag ''Unable to read data'' (RString line)
        else let keep = (read = 1 \<and> c' \<noteq> CHR 0x0A \<and> c' \<noteq> CHR 0x0D);
                 line' = (if keep then line @ [c'] else line);
                 len' = (if keep then len + 1 else len)
             in if c' \<noteq> CHR 0x0A \<and> len' < n then LnRecv sock n line' len' c' else Returned (RString line'))"

fun kexec :: "('m, 's) posix \<Rightarrow> 'w net \<Rightarrow> tid \<Rightarrow> kpc \<Rightarrow> ('m, 'w) shared \<Rightarrow> ('m, 'w) shared option" where
  "kexec P N t Rest st = None"
| "kexec P N t (Returned r) st = None"
| "kexec P N t (IcLock q) st = k_lock P t (IcRead q) st"
| "kexec P N t (IcRead q) st = Some (kgo t (IcUnlock q (0 < sint (m_socket (sh_data st)))) st)"
| "kexec P N t (IcUnlock q b) st = k_unlock P t (k_asked q b) st"
| "kexec P N t (NvLock a) st = k_lock P t (NvRead a) st"
| "kexec P N t (NvRead a) st = Some (kgo t (NvUnlock a (m_socket (sh_data st))) st)"
| "kexec P N t (NvUnlock a sock) st = k_unlock P t (k_native a sock) st"
| "kexec P N t (RdRecv sock n buf) st = k_sys t (\<lambda>w. case n_recv N sock n w of (r, bs, w') \<Rightarrow> ((r, bs), w'))
     (\<lambda>(r, bs). let s = (ucast r :: int32); buf' = bs @ drop (length bs) buf
       in if sint s < 0 then SeFlag ''Unable to read data'' (RRead 0 buf') else Returned (RRead (scast s) buf')) st"
| "kexec P N t (WrSend sock data n) st = k_sys t (n_send N sock (take (unat n) data))
     (\<lambda>r. let s = (ucast r :: int32)
       in if sint s < 0 then SeFlag ''Unable to send data'' (RSize 0) else Returned (RSize (scast s))) st"
| "kexec P N t (AvIoctl sock) st = Some (kgo t (Returned (RSize
     (case n_fionread N sock (sh_world st) of None \<Rightarrow> 0 | Some k \<Rightarrow> ucast k))) st)"
| "kexec P N t (LnRecv sock n line len c) st =
     k_sys t (\<lambda>w. case n_recv N sock 1 w of (r, bs, w') \<Rightarrow> ((r, bs), w')) (k_line sock n line len c) st"
| "kexec P N t (ClShutdown stream h sock) st =
     k_sys t (\<lambda>w. ((), n_shutdown N sock (shutdown_how stream) w)) (\<lambda>_. ClClose h sock) st"
| "kexec P N t (ClClose h sock) st = k_sys t (\<lambda>w. ((), n_close N sock w)) (\<lambda>_. k_closed h) st"
| "kexec P N t (CnSocket h p) st = k_sys t (n_socket N)
     (\<lambda>sock. if sint sock < 0 then SeFlag ''Unable to create a socket'' (RBool False) else CnConnect h p sock) st"
| "kexec P N t (CnConnect h p sock) st = k_sys t
     (n_connect N sock \<lparr>sin_addr = n_inet_addr N (c_str h), sin_port = n_htons N p\<rparr>)
     (\<lambda>r. if 0 \<le> sint r then CnLock sock else Returned (RBool False)) st"
| "kexec P N t (CnLock sock) st = k_lock P t (CnStore sock) st"
| "kexec P N t (CnStore sock) st = Some (kgo t CnUnlock (st\<lparr>sh_data := (sh_data st)\<lparr>m_socket := sock\<rparr>\<rparr>))"
| "kexec P N t CnUnlock st = k_unlock P t (Returned (RBool True)) st"
| "kexec P N t (SeFlag txt r) st = Some (kgo t (SeText txt r) (st\<lparr>sh_data := (sh_data st)\<lparr>m_error := True\<rparr>\<rparr>))"
| "kexec P N t (SeText txt r) st = Some (kgo t (Returned r) (st\<lparr>sh_data := (sh_data st)\<lparr>m_errorText := txt\<rparr>\<rparr>))"
| "kexec P N t PaLock st = k_lock P t PaRead st"
| "kexec P N t PaRead st = Some (kgo t (PaUnlock (m_peerAddr (sh_data st))) st)"
| "kexec P N t (PaUnlock a) st = k_unlock P t (Returned (RString a)) st"
| "kexec P N t PpLock st = k_lock P t PpRead st"
| "kexec P N t PpRead st = Some (kgo t (PpUnlock (m_peerPort (sh_data st))) st)"
| "kexec P N t (PpUnlock p) st = k_unlock P t (Returned (RPort p)) st"
| "kexec P N t (SaLock a) st = k_lock P t (SaStore a) st"
| "kexec P N t (SaStore a) st = Some (kgo t SaUnlock (st\<lparr>sh_data := (sh_data st)\<lparr>m_peerAddr := a\<rparr>\<rparr>))"
| "kexec P N t SaUnlock st = k_unlock P t (Returned RDone) st"
| "kexec P N t (SpLock p) st = k_lock P t (SpStore p) st"
| "kexec P N t (SpStore p) st = Some (kgo t SpUnlock (st\<lparr>sh_data := (sh_data st)\<lparr>m_peerPort := Some p\<rparr>\<rparr>))"
| "kexec P N t SpUnlock st = k_unlock P t (Returned RDone) st"
| "kexec P N t EfRead st = Some (kgo t (Returned (RBool (m_error (sh_data st)))) st)"
| "kexec P N t EtRead st = Some (kgo t (Returned (RString (m_errorText (sh_data st)))) st)"

primrec kentry :: "kop \<Rightarrow> kpc" where
  "kentry (OpRead n buf) = IcLock (AskRead n buf)"
| "kentry (OpWrite data n) = IcLock (AskWrite data n)"
| "kentry OpAvailable = IcLock AskAvailable"
| "kentry (OpReadLine n) = IcLock (AskLine n)"
| "kentry (OpClose stream) = NvLock (ActClose stream None)"
| "kentry OpIsConnected = IcLock AskCaller"
| "kentry (OpConnect h p) = IcLock (AskConnect h p)"
| "kentry OpPeerAddr = PaLock"
| "kentry OpPeerPort = PpLock"
| "kentry (OpSetPeerAddr a) = SaLock a"
| "kentry (OpSetPeerPort p) = SpLock p"
| "kentry OpIsError = EfRead"
| "kentry OpErrorText = EtRead"

definition k_resting :: "kpc \<Rightarrow> bool" where
  "k_resting pc \<longleftrightarrow> (case pc of Rest \<Rightarrow> True | Returned _ \<Rightarrow> True | _ \<Rightarrow> False)"

text \<open>A thread calls an operation, executes its next statement, or something happens elsewhere.\<close>

datatype 'w kevent = KBegin tid kop | KStmt tid | KElsewhere 'w

fun kfire :: "('m, 's) posix \<Rightarrow> 'w net \<Rightarrow> 'w kevent \<Rightarrow> ('m, 'w) shared \<Rightarrow> ('m, 'w) shared option" where
  "kfire P N (KBegin t opn) st = (if t < length (sh_pcs st) \<and> k_resting (sh_pcs st ! t) then Some (kgo t (kentry opn) st) else None)"
| "kfire P N (KStmt t) st = (if t < length (sh_pcs st) then kexec P N t (sh_pcs st ! t) st else None)"
| "kfire P N (KElsewhere w) st = Some (st\<lparr>sh_world := w\<rparr>)"

primrec krun :: "('m, 's) posix \<Rightarrow> 'w net \<Rightarrow> 'w kevent list \<Rightarrow> ('m, 'w) shared \<Rightarrow> ('m, 'w) shared option" where
  "krun P N [] st = Some st"
| "krun P N (e # es) st = (case kfire P N e st of None \<Rightarrow> None | Some st' \<Rightarrow> krun P N es st')"

section \<open>Accesses to members\<close>

text \<open>
  The members a statement reads and writes. Two threads race when the next statements of both access
  one member, and one of them writes it: C++ leaves the behaviour undefined.
\<close>

datatype member = MemSocket | MemPeerAddr | MemPeerPort | MemError | MemErrorText

fun k_writes :: "kpc \<Rightarrow> member list" where
  "k_writes (CnStore sock) = [MemSocket]"
| "k_writes (SaStore a) = [MemPeerAddr]"
| "k_writes (SpStore p) = [MemPeerPort]"
| "k_writes (SeFlag txt r) = [MemError]"
| "k_writes (SeText txt r) = [MemErrorText]"
| "k_writes _ = []"

fun k_reads :: "kpc \<Rightarrow> member list" where
  "k_reads (IcRead q) = [MemSocket]"
| "k_reads (NvRead a) = [MemSocket]"
| "k_reads PaRead = [MemPeerAddr]"
| "k_reads PpRead = [MemPeerPort]"
| "k_reads EfRead = [MemError]"
| "k_reads EtRead = [MemErrorText]"
| "k_reads _ = []"

definition races :: "member \<Rightarrow> kpc \<Rightarrow> kpc \<Rightarrow> bool" where
  "races x pc pc' \<longleftrightarrow> x \<in> set (k_writes pc) \<and> x \<in> set (k_reads pc' @ k_writes pc') \<or>
     x \<in> set (k_writes pc') \<and> x \<in> set (k_reads pc)"

definition race_on :: "member \<Rightarrow> ('m, 'w) shared \<Rightarrow> bool" where
  "race_on x st \<longleftrightarrow> (\<exists>t < length (sh_pcs st). \<exists>u < length (sh_pcs st). t \<noteq> u \<and> races x (sh_pcs st ! t) (sh_pcs st ! u))"

end
