(* ===== verification/SocketThreadsProofs.thy ===== *)
theory SocketThreadsProofs
  imports SocketThreads
begin

text \<open>
  The invariant of \<open>SocketThreads\<close>, the end of its calls, and calls that run alone, which are the
  functions of \<open>TcpSocket\<close>; then the properties.
\<close>

section \<open>Invariant\<close>

fun kcrit :: "kpc \<Rightarrow> bool" where
  "kcrit (IcRead q) \<longleftrightarrow> True"
| "kcrit (IcUnlock q b) \<longleftrightarrow> True"
| "kcrit (NvRead a) \<longleftrightarrow> True"
| "kcrit (NvUnlock a sock) \<longleftrightarrow> True"
| "kcrit (CnStore sock) \<longleftrightarrow> True"
| "kcrit CnUnlock \<longleftrightarrow> True"
| "kcrit PaRead \<longleftrightarrow> True"
| "kcrit (PaUnlock a) \<longleftrightarrow> True"
| "kcrit PpRead \<longleftrightarrow> True"
| "kcrit (PpUnlock p) \<longleftrightarrow> True"
| "kcrit (SaStore a) \<longleftrightarrow> True"
| "kcrit SaUnlock \<longleftrightarrow> True"
| "kcrit (SpStore p) \<longleftrightarrow> True"
| "kcrit SpUnlock \<longleftrightarrow> True"
| "kcrit _ \<longleftrightarrow> False"

lemma k_asked_outside [simp]: "\<not> kcrit (k_asked q b)"
  by (cases q) simp_all

lemma native_outside [simp]: "\<not> kcrit (k_native a sock)"
  by (cases a) simp_all

lemma closed_outside [simp]: "\<not> kcrit (k_closed h)"
  by (simp add: k_closed_def split: option.split)

lemma line_outside [simp]: "\<not> kcrit (k_line sock n line len c r)"
  by (simp add: k_line_def Let_def split: prod.split)

lemma entry_outside [simp]: "\<not> kcrit (kentry opn)"
  by (cases opn) simp_all

lemma resting_outside: "k_resting pc \<Longrightarrow> \<not> kcrit pc"
  by (cases pc) (simp_all add: k_resting_def)

lemmas k_stmts = k_lock_def k_unlock_def k_sys_def kgo_def locker_new_def locker_delete_def mutex_lock_def mutex_unlock_def

lemma kexec_pcs:
  assumes "kexec P N t pc st = Some st'" and "t < length (sh_pcs st)"
  shows "sh_pcs st' = (sh_pcs st)[t := sh_pcs st' ! t]"
  using assms by (cases pc) (auto simp: k_stmts split: option.splits prod.splits)

lemma kexec_mutex:
  assumes "kexec P N t pc st = Some st'" and "t < length (sh_pcs st)"
  shows "sh_mutex st' = sh_mutex st \<and> kcrit (sh_pcs st' ! t) = kcrit pc \<or>
      \<not> kcrit pc \<and> kcrit (sh_pcs st' ! t) \<and> p_mutex_lock P t (sh_mutex st) = Some (sh_mutex st') \<or>
      kcrit pc \<and> \<not> kcrit (sh_pcs st' ! t) \<and> sh_mutex st' = p_mutex_unlock P t (sh_mutex st)"
  using assms by (cases pc) (auto simp: k_stmts Let_def split: option.splits prod.splits if_splits)

lemma krun_append: "krun P N (es @ es') st = (case krun P N es st of None \<Rightarrow> None | Some st' \<Rightarrow> krun P N es' st')"
  by (induction es arbitrary: st) (auto split: option.splits)

lemma kfire_length: "kfire P N e st = Some st' \<Longrightarrow> length (sh_pcs st') = length (sh_pcs st)"
  by (cases e) (auto simp: kgo_def split: if_splits, metis kexec_pcs length_list_update)

lemma krun_length: "krun P N es st = Some st' \<Longrightarrow> length (sh_pcs st') = length (sh_pcs st)"
  by (induction es arbitrary: st) (auto simp: kfire_length split: option.splits)

context posix_sync
begin

definition shared_inv :: "('m, 'w) shared \<Rightarrow> bool" where
  "shared_inv st \<longleftrightarrow> guarded (sh_mutex st) kcrit (sh_pcs st)"

lemma shared_start: "shared_inv (shared_start P s n w)"
  using guarded_init[of kcrit Rest n] by (simp add: shared_inv_def shared_start_def)

lemma shared_step:
  "shared_inv st \<Longrightarrow> t < length (sh_pcs st) \<Longrightarrow> kexec P N t (sh_pcs st ! t) st = Some st' \<Longrightarrow> shared_inv st'"
  using guarded_effect[OF _ _ kexec_mutex[of P N t "sh_pcs st ! t" st st']] kexec_pcs[of P N t "sh_pcs st ! t" st st']
  by (simp add: shared_inv_def)

lemma shared_fire: "shared_inv st \<Longrightarrow> kfire P N e st = Some st' \<Longrightarrow> shared_inv st'"
proof (cases e)
  case (KBegin t opn)
  assume "shared_inv st" "kfire P N e st = Some st'"
  with KBegin show ?thesis
    by (auto simp: shared_inv_def guarded_def kgo_def resting_outside split: if_splits intro!: locked_keep)
next
  case (KStmt t)
  assume "shared_inv st" "kfire P N e st = Some st'"
  with KStmt show ?thesis using shared_step by (auto split: if_splits)
next
  case (KElsewhere w)
  assume "shared_inv st" "kfire P N e st = Some st'"
  with KElsewhere show ?thesis by (auto simp: shared_inv_def)
qed

lemma shared_run: "krun P N es st = Some st' \<Longrightarrow> shared_inv st \<Longrightarrow> shared_inv st'"
  by (induction es arbitrary: st) (auto split: option.splits intro: shared_fire)

text \<open>A statement that does not lock can always be executed, and one that locks if nobody is inside.\<close>

lemma kexec_enabled:
  assumes "\<not> k_resting pc" and "kcrit pc \<or> owner (sh_mutex st) = None"
  shows "kexec P N t pc st \<noteq> None"
proof -
  have "\<exists>m. p_mutex_lock P t (sh_mutex st) = Some m" if "owner (sh_mutex st) = None"
    using lock_free[OF that, of t] by blast
  then show ?thesis using assms
    by (cases pc) (auto simp: k_stmts k_resting_def split: prod.splits)
qed

lemma some_can_step:
  assumes inv: "shared_inv st" and t: "t < length (sh_pcs st)" "\<not> k_resting (sh_pcs st ! t)"
  shows "\<exists>u < length (sh_pcs st). kexec P N u (sh_pcs st ! u) st \<noteq> None"
proof (cases "owner (sh_mutex st)")
  case None
  then show ?thesis using kexec_enabled t by blast
next
  case (Some u)
  then have u: "u < length (sh_pcs st)" "kcrit (sh_pcs st ! u)" using inv by (auto simp: shared_inv_def guarded_def locked_by_def)
  then show ?thesis using kexec_enabled[of "sh_pcs st ! u"] resting_outside by blast
qed

end

section \<open>The end of the calls\<close>

text \<open>The longest way from a statement to the end of its operation, the loop of \<open>readLine\<close> apart.\<close>

fun k_left :: "kpc \<Rightarrow> nat" where
  "k_left Rest = 0"
| "k_left (Returned r) = 0"
| "k_left (IcLock q) = 13"
| "k_left (IcRead q) = 12"
| "k_left (IcUnlock q b) = 11"
| "k_left (NvLock a) = 10"
| "k_left (NvRead a) = 9"
| "k_left (NvUnlock a sock) = 8"
| "k_left (ClShutdown stream h sock) = 7"
| "k_left (ClClose h sock) = 6"
| "k_left (CnSocket h p) = 5"
| "k_left (CnConnect h p sock) = 4"
| "k_left CnUnlock = 1"
| "k_left (CnStore sock) = 2"
| "k_left (SeFlag txt r) = 2"
| "k_left (SeText txt r) = 1"
| "k_left (PaUnlock a) = 1"
| "k_left PaRead = 2"
| "k_left (PpUnlock p) = 1"
| "k_left PpRead = 2"
| "k_left SaUnlock = 1"
| "k_left (SaStore a) = 2"
| "k_left SpUnlock = 1"
| "k_left (SpStore p) = 2"
| "k_left (AvIoctl sock) = 1"
| "k_left EfRead = 1"
| "k_left EtRead = 1"
| "k_left _ = 3"

text \<open>Threads on the way to the loop, or inside it.\<close>

fun in_line :: "kpc \<Rightarrow> bool" where
  "in_line (IcLock (AskLine n)) \<longleftrightarrow> True"
| "in_line (IcRead (AskLine n)) \<longleftrightarrow> True"
| "in_line (IcUnlock (AskLine n) b) \<longleftrightarrow> True"
| "in_line (NvLock (ActLine n)) \<longleftrightarrow> True"
| "in_line (NvRead (ActLine n)) \<longleftrightarrow> True"
| "in_line (NvUnlock (ActLine n) sock) \<longleftrightarrow> True"
| "in_line (LnRecv sock n line len c) \<longleftrightarrow> True"
| "in_line _ \<longleftrightarrow> False"

definition k_work :: "('m, 'w) shared \<Rightarrow> nat" where
  "k_work st = sum_list (map k_left (sh_pcs st))"

lemma left_asked: "k_left (k_asked q b) < 11" "in_line (k_asked q b) \<longrightarrow> in_line (IcUnlock q b)"
  by (cases q; simp)+

lemma left_native: "\<not> in_line (NvUnlock a sock) \<Longrightarrow> k_left (k_native a sock) < 8 \<and> \<not> in_line (k_native a sock)"
  by (cases a) simp_all

lemma left_closed: "k_left (k_closed h) < 6" "\<not> in_line (k_closed h)"
  by (cases h; auto simp: k_closed_def)+

lemma k_left_step:
  assumes "kexec P N t pc st = Some st'" and "t < length (sh_pcs st)" and "\<not> in_line pc"
  shows "k_left (sh_pcs st' ! t) < k_left pc \<and> \<not> in_line (sh_pcs st' ! t)"
proof (cases pc)
  case (IcLock q) with assms show ?thesis by (cases q) (auto simp: k_stmts split: option.splits)
next
  case (IcRead q) with assms show ?thesis by (cases q) (auto simp: k_stmts)
next
  case (IcUnlock q b) with assms show ?thesis using left_asked[of q b] by (auto simp: k_stmts)
next
  case (NvLock a) with assms show ?thesis by (cases a) (auto simp: k_stmts split: option.splits)
next
  case (NvRead a) with assms show ?thesis by (cases a) (auto simp: k_stmts)
next
  case (NvUnlock a sock) with assms show ?thesis using left_native[of a sock] by (auto simp: k_stmts)
next
  case (ClClose h sock) with assms show ?thesis using left_closed[of h] by (auto simp: k_stmts)
qed (use assms in \<open>auto simp: k_stmts Let_def split: option.splits prod.splits if_splits\<close>)

fun is_kstmt :: "'w kevent \<Rightarrow> bool" where
  "is_kstmt (KStmt t) \<longleftrightarrow> True"
| "is_kstmt _ \<longleftrightarrow> False"

fun is_kbegin :: "'w kevent \<Rightarrow> bool" where
  "is_kbegin (KBegin t opn) \<longleftrightarrow> True"
| "is_kbegin _ \<longleftrightarrow> False"

lemma sum_left_update:
  "t < length pcs \<Longrightarrow> sum_list (map k_left (pcs[t := pc])) + k_left (pcs ! t) = sum_list (map k_left pcs) + k_left pc"
  using sum_list_update[of t "map k_left pcs" "k_left pc"] elem_le_sum_list[of t "map k_left pcs"] by (simp add: map_update)

lemma k_work_fire:
  assumes "kfire P N e st = Some st'" and "\<not> is_kbegin e" and "\<forall>pc \<in> set (sh_pcs st). \<not> in_line pc"
  shows "k_work st' + (if is_kstmt e then 1 else 0) \<le> k_work st \<and> (\<forall>pc \<in> set (sh_pcs st'). \<not> in_line pc)"
proof (cases e)
  case (KStmt t)
  then have t: "t < length (sh_pcs st)" and step: "kexec P N t (sh_pcs st ! t) st = Some st'"
    using assms(1) by (auto split: if_splits)
  have l: "k_left (sh_pcs st' ! t) < k_left (sh_pcs st ! t)" "\<not> in_line (sh_pcs st' ! t)"
    using k_left_step[OF step t] assms(3) t by auto
  have e': "sh_pcs st' = (sh_pcs st)[t := sh_pcs st' ! t]" by (rule kexec_pcs[OF step t])
  have "set (sh_pcs st') \<subseteq> insert (sh_pcs st' ! t) (set (sh_pcs st))" by (subst e') (rule set_update_subset_insert)
  then have "\<forall>pc \<in> set (sh_pcs st'). \<not> in_line pc" using assms(3) l(2) by blast
  moreover have "k_work st' = sum_list (map k_left ((sh_pcs st)[t := sh_pcs st' ! t]))"
    using e' by (simp add: k_work_def)
  ultimately show ?thesis using sum_left_update[OF t, of "sh_pcs st' ! t"] l(1) KStmt by (simp add: k_work_def)
qed (use assms in \<open>auto simp: k_work_def\<close>)

lemma k_work_run:
  "krun P N es st = Some st' \<Longrightarrow> \<forall>e \<in> set es. \<not> is_kbegin e \<Longrightarrow> \<forall>pc \<in> set (sh_pcs st). \<not> in_line pc \<Longrightarrow>
   k_work st' + length (filter is_kstmt es) \<le> k_work st"
proof (induction es arbitrary: st)
  case (Cons e es)
  then obtain st1 where st1: "kfire P N e st = Some st1" "krun P N es st1 = Some st'" by (auto split: option.splits)
  with k_work_fire[OF st1(1)] Cons.prems
  have f: "k_work st1 + (if is_kstmt e then 1 else 0) \<le> k_work st" "\<forall>pc \<in> set (sh_pcs st1). \<not> in_line pc" by auto
  with Cons.IH[OF st1(2)] Cons.prems(2) show ?case by auto
qed simp

lemma k_left_bound: "k_left pc \<le> 13"
  by (cases pc) simp_all

lemma k_work_bound: "k_work st \<le> 13 * length (sh_pcs st)"
  using sum_list_mono[of "sh_pcs st" k_left "\<lambda>_. 13"] k_left_bound by (simp add: k_work_def sum_list_triv mult.commute)

section \<open>A call that runs alone\<close>

text \<open>
  What a statement does when its thread runs alone: the statement of the model, executed by the only thread of
  a socket with a concrete mutex.
\<close>

definition solo :: "'w net \<Rightarrow> kpc \<times> tcpsocket \<times> 'w \<Rightarrow> (kpc \<times> tcpsocket \<times> 'w) option" where
  "solo N c = (case c of (pc, s, w) \<Rightarrow>
     map_option (\<lambda>st. (hd (sh_pcs st), sh_data st, sh_world st))
       (kexec ref_posix N 0 pc \<lparr>sh_mutex = (if kcrit pc then Some (0, 1) else None), sh_data = s, sh_world = w, sh_pcs = [pc]\<rparr>))"

primrec solo_n :: "'w net \<Rightarrow> nat \<Rightarrow> kpc \<times> tcpsocket \<times> 'w \<Rightarrow> (kpc \<times> tcpsocket \<times> 'w) option" where
  "solo_n N 0 c = Some c"
| "solo_n N (Suc k) c = (case solo N c of None \<Rightarrow> None | Some c' \<Rightarrow> solo_n N k c')"

definition ends :: "'w net \<Rightarrow> kpc \<times> tcpsocket \<times> 'w \<Rightarrow> kret \<times> tcpsocket \<times> 'w \<Rightarrow> bool" where
  "ends N c r \<longleftrightarrow> (\<exists>k. solo_n N k c = Some (Returned (fst r), snd r))"

lemma others_wait:
  "krun P N (replicate k (KStmt t)) st = Some st' \<Longrightarrow> u \<noteq> t \<Longrightarrow> sh_pcs st' ! u = sh_pcs st ! u"
proof (induction k arbitrary: st)
  case (Suc k)
  then obtain st1 where st1: "kexec P N t (sh_pcs st ! t) st = Some st1" "t < length (sh_pcs st)"
      "krun P N (replicate k (KStmt t)) st1 = Some st'" by (auto split: option.splits if_splits)
  with kexec_pcs[OF st1(1,2)] Suc show ?case by (metis nth_list_update_neq)
qed simp

context posix_sync
begin

definition k_alone :: "tid \<Rightarrow> kpc \<times> tcpsocket \<times> 'w \<Rightarrow> ('m, 'w) shared \<Rightarrow> bool" where
  "k_alone t c st \<longleftrightarrow> shared_inv st \<and> t < length (sh_pcs st) \<and> c = (sh_pcs st ! t, sh_data st, sh_world st) \<and>
     owner (sh_mutex st) = (if kcrit (sh_pcs st ! t) then Some t else None)"

lemma solo_statement:
  assumes st: "k_alone t c st" and c': "solo N c = Some c'"
  shows "\<exists>st'. kexec P N t (fst c) st = Some st' \<and> k_alone t c' st'"
proof -
  let ?pc = "sh_pcs st ! t"
  have inv: "shared_inv st" and t: "t < length (sh_pcs st)" and c: "c = (?pc, sh_data st, sh_world st)"
    and own: "owner (sh_mutex st) = (if kcrit ?pc then Some t else None)"
    using st by (simp_all add: k_alone_def)
  have "\<not> k_resting ?pc" using c' by (cases ?pc) (auto simp: c solo_def k_resting_def)
  then obtain st' where st': "kexec P N t ?pc st = Some st'"
    using kexec_enabled[of ?pc st N t] own by (auto split: if_splits)
  have inv': "shared_inv st'" by (rule shared_step[OF inv t st'])
  have t': "t < length (sh_pcs st')" using kexec_pcs[OF st' t] t by (metis length_list_update)
  have "c' = (sh_pcs st' ! t, sh_data st', sh_world st')" using st' c' t
    by (cases ?pc) (auto simp: c solo_def k_stmts ref_posix_def ref_lock_def split: option.splits prod.splits)
  moreover have "owner (sh_mutex st') = (if kcrit (sh_pcs st' ! t) then Some t else None)"
  proof -
    have lock: "owner (sh_mutex st') = Some u \<longleftrightarrow> u < length (sh_pcs st') \<and> kcrit (sh_pcs st' ! u)" for u
      using inv' by (simp add: shared_inv_def guarded_def locked_by_def)
    have "owner (sh_mutex st') \<noteq> Some u" if "u \<noteq> t" for u
    proof
      assume "owner (sh_mutex st') = Some u"
      then have "u < length (sh_pcs st)" "kcrit (sh_pcs st ! u)"
        using lock kexec_pcs[OF st' t] that by (metis length_list_update, metis nth_list_update_neq)
      then have "owner (sh_mutex st) = Some u" using inv by (simp add: shared_inv_def guarded_def locked_by_def)
      then show False using own that by (simp split: if_splits)
    qed
    then show ?thesis using lock t' by (cases "owner (sh_mutex st')") auto
  qed
  ultimately show ?thesis using inv' t' st' c by (auto simp: k_alone_def)
qed

lemma solo_statements:
  "k_alone t c st \<Longrightarrow> solo_n N k c = Some c' \<Longrightarrow> \<exists>st'. krun P N (replicate k (KStmt t)) st = Some st' \<and> k_alone t c' st'"
proof (induction k arbitrary: c st)
  case (Suc k)
  from Suc.prems(2) obtain c1 where c1: "solo N c = Some c1" "solo_n N k c1 = Some c'" by (auto split: option.splits)
  from solo_statement[OF Suc.prems(1) c1(1)] obtain st1 where st1: "kexec P N t (fst c) st = Some st1" "k_alone t c1 st1" by blast
  with Suc.IH[OF st1(2) c1(2)] Suc.prems(1) show ?case by (auto simp: k_alone_def)
qed simp

text \<open>A thread that begins while nobody is inside the mutex, and runs alone from there.\<close>

lemma begin_alone:
  assumes "shared_inv st" and "owner (sh_mutex st) = None" and "t < length (sh_pcs st)" and "k_resting (sh_pcs st ! t)"
  shows "kfire P N (KBegin t opn) st = Some (kgo t (kentry opn) st) \<and>
    k_alone t (kentry opn, sh_data st, sh_world st) (kgo t (kentry opn) st)"
proof -
  have f: "kfire P N (KBegin t opn) st = Some (kgo t (kentry opn) st)" for N using assms(3,4) by simp
  then show ?thesis using shared_fire[OF assms(1) f] assms(2,3) by (simp add: k_alone_def kgo_def)
qed

lemma run_alone:
  assumes "shared_inv st" and "owner (sh_mutex st) = None" and "t < length (sh_pcs st)" and "k_resting (sh_pcs st ! t)"
    and "solo_n N k (kentry opn, sh_data st, sh_world st) = Some c'"
  shows "\<exists>st'. krun P N (KBegin t opn # replicate k (KStmt t)) st = Some st' \<and> k_alone t c' st' \<and>
    (\<forall>u. u \<noteq> t \<longrightarrow> sh_pcs st' ! u = sh_pcs st ! u)"
proof -
  note b = begin_alone[OF assms(1-4), of N opn]
  from solo_statements[OF _ assms(5)] b obtain st' where
    st': "krun P N (replicate k (KStmt t)) (kgo t (kentry opn) st) = Some st'" "k_alone t c' st'" by blast
  have "sh_pcs st' ! u = sh_pcs st ! u" if "u \<noteq> t" for u using others_wait[OF st'(1) that] that by (simp add: kgo_def)
  with b st' show ?thesis by auto
qed

end

text \<open>The statements that do not loop, as rules for the way to the end.\<close>

lemma ends_step: "solo N c = Some c' \<Longrightarrow> fst c \<notin> range Returned \<Longrightarrow> ends N c r = ends N c' r"
proof
  assume s: "solo N c = Some c'" and n: "fst c \<notin> range Returned"
  show "ends N c' r" if e: "ends N c r"
  proof -
    obtain k where k: "solo_n N k c = Some (Returned (fst r), snd r)" using e by (auto simp: ends_def)
    then show ?thesis using s n by (cases k) (auto simp: ends_def)
  qed
  show "ends N c r" if e: "ends N c' r"
  proof -
    obtain k where "solo_n N k c' = Some (Returned (fst r), snd r)" using e by (auto simp: ends_def)
    then have "solo_n N (Suc k) c = Some (Returned (fst r), snd r)" using s by simp
    then show ?thesis unfolding ends_def by blast
  qed
qed

lemma ends_returned: "ends N (Returned v, x) r \<longleftrightarrow> r = (v, x)"
proof -
  have "solo_n N k (Returned v, x) = Some c \<longleftrightarrow> k = 0 \<and> c = (Returned v, x)" for k c
    by (cases k; cases x) (auto simp: solo_def)
  then show ?thesis by (cases r) (auto simp: ends_def)
qed

lemmas solo_eval = solo_def k_stmts ref_posix_def ref_lock_def ref_unlock_def

lemma ends_simps:
  "ends N (IcLock q, s, w) r = ends N (IcRead q, s, w) r"
  "ends N (IcRead q, s, w) r = ends N (IcUnlock q (isConnected s), s, w) r"
  "ends N (IcUnlock q b, s, w) r = ends N (k_asked q b, s, w) r"
  "ends N (NvLock a, s, w) r = ends N (NvRead a, s, w) r"
  "ends N (NvRead a, s, w) r = ends N (NvUnlock a (nativeSocket s), s, w) r"
  "ends N (NvUnlock a sock, s, w) r = ends N (k_native a sock, s, w) r"
  "ends N (ClShutdown stream h sock, s, w) r = ends N (ClClose h sock, s, n_shutdown N sock (shutdown_how stream) w) r"
  "ends N (ClClose h sock, s, w) r = ends N (k_closed h, s, n_close N sock w) r"
  "ends N (CnLock sock, s, w) r = ends N (CnStore sock, s, w) r"
  "ends N (CnStore sock, s, w) r = ends N (CnUnlock, s\<lparr>m_socket := sock\<rparr>, w) r"
  "ends N (CnUnlock, s, w) r = ends N (Returned (RBool True), s, w) r"
  "ends N (SeFlag txt v, s, w) r = ends N (SeText txt v, s\<lparr>m_error := True\<rparr>, w) r"
  "ends N (SeText txt v, s, w) r = ends N (Returned v, s\<lparr>m_errorText := txt\<rparr>, w) r"
  "ends N (PaLock, s, w) r = ends N (PaRead, s, w) r"
  "ends N (PaRead, s, w) r = ends N (PaUnlock (m_peerAddr s), s, w) r"
  "ends N (PaUnlock a', s, w) r = ends N (Returned (RString a'), s, w) r"
  "ends N (PpLock, s, w) r = ends N (PpRead, s, w) r"
  "ends N (PpRead, s, w) r = ends N (PpUnlock (m_peerPort s), s, w) r"
  "ends N (PpUnlock p, s, w) r = ends N (Returned (RPort p), s, w) r"
  "ends N (SaLock a', s, w) r = ends N (SaStore a', s, w) r"
  "ends N (SaStore a', s, w) r = ends N (SaUnlock, setPeerAddr a' s, w) r"
  "ends N (SaUnlock, s, w) r = ends N (Returned RDone, s, w) r"
  "ends N (SpLock p', s, w) r = ends N (SpStore p', s, w) r"
  "ends N (SpStore p', s, w) r = ends N (SpUnlock, setPeerPort p' s, w) r"
  "ends N (SpUnlock, s, w) r = ends N (Returned RDone, s, w) r"
  "ends N (EfRead, s, w) r = ends N (Returned (RBool (m_error s)), s, w) r"
  "ends N (EtRead, s, w) r = ends N (Returned (RString (m_errorText s)), s, w) r"
  by (rule ends_step; auto simp: solo_eval isConnected_def nativeSocket_def setPeerAddr_def setPeerPort_def)+

lemma ends_calls:
  "n_recv N sock n w = (k, bs, w') \<Longrightarrow> ends N (RdRecv sock n buf, s, w) r =
     ends N (if sint (ucast k :: int32) < 0 then SeFlag ''Unable to read data'' (RRead 0 (bs @ drop (length bs) buf))
       else Returned (RRead (scast (ucast k :: int32)) (bs @ drop (length bs) buf)), s, w') r"
  "n_send N sock (take (unat n) data) w = (k, w') \<Longrightarrow> ends N (WrSend sock data n, s, w) r =
     ends N (if sint (ucast k :: int32) < 0 then SeFlag ''Unable to send data'' (RSize 0)
       else Returned (RSize (scast (ucast k :: int32))), s, w') r"
  "ends N (AvIoctl sock, s, w) r = ends N (Returned (RSize (case n_fionread N sock w of None \<Rightarrow> 0 | Some k \<Rightarrow> ucast k)), s, w) r"
  "n_recv N sock 1 w = (k, bs, w') \<Longrightarrow> ends N (LnRecv sock n line len c, s, w) r = ends N (k_line sock n line len c (k, bs), s, w') r"
  "n_socket N w = (sock, w') \<Longrightarrow> ends N (CnSocket h p, s, w) r =
     ends N (if sint sock < 0 then SeFlag ''Unable to create a socket'' (RBool False) else CnConnect h p sock, s, w') r"
  "n_connect N sock \<lparr>sin_addr = n_inet_addr N (c_str h), sin_port = n_htons N p\<rparr> w = (q, w') \<Longrightarrow>
     ends N (CnConnect h p sock, s, w) r = ends N (if 0 \<le> sint q then CnLock sock else Returned (RBool False), s, w') r"
  by (rule ends_step; auto simp: solo_eval Let_def)+

section \<open>The functions of TcpSocket\<close>

fun socket_outcome :: "'w net \<Rightarrow> kop \<Rightarrow> 'w tcp \<Rightarrow> (kret \<times> 'w tcp) option" where
  "socket_outcome N (OpRead n buf) st = (case tcp_readBuffer N n buf st of (k, buf', st') \<Rightarrow> Some (RRead k buf', st'))"
| "socket_outcome N (OpWrite data n) st = (case tcp_writeBuffer N data n st of (k, st') \<Rightarrow> Some (RSize k, st'))"
| "socket_outcome N OpAvailable st = Some (RSize (tcp_available N st), st)"
| "socket_outcome N (OpReadLine n) st = (case readLine N n st of None \<Rightarrow> None | Some (line, st') \<Rightarrow> Some (RString line, st'))"
| "socket_outcome N (OpClose stream) st = (case st of (s, w) \<Rightarrow> Some (RDone, s, tcp_close N stream s w))"
| "socket_outcome N OpIsConnected st = Some (RBool (isConnected (fst st)), st)"
| "socket_outcome N (OpConnect h p) st = (case connectToHost N h p st of (b, st') \<Rightarrow> Some (RBool b, st'))"
| "socket_outcome N OpPeerAddr st = Some (RString (peerAddr (fst st)), st)"
| "socket_outcome N OpPeerPort st = Some (RPort (peerPort (fst st)), st)"
| "socket_outcome N (OpSetPeerAddr a) st = Some (RDone, setPeerAddr a (fst st), snd st)"
| "socket_outcome N (OpSetPeerPort p) st = Some (RDone, setPeerPort p (fst st), snd st)"
| "socket_outcome N OpIsError st = Some (RBool (isError (fst st)), st)"
| "socket_outcome N OpErrorText st = Some (RString (errorText (fst st)), st)"

lemma ends_error: "ends N (SeFlag txt v, s, w) r \<longleftrightarrow> r = (v, setError txt s, w)"
  by (simp add: ends_simps ends_returned setError_def)

lemma ends_read: "ends N (kentry (OpRead n buf), s, w) r \<longleftrightarrow> Some r = socket_outcome N (OpRead n buf) (s, w)"
proof (cases "n_recv N (nativeSocket s) n w")
  case (fields k bs w')
  then show ?thesis
    by (simp add: ends_simps ends_calls(1)[OF fields] ends_returned setError_def tcp_readBuffer_def Let_def)
qed

lemma ends_write: "ends N (kentry (OpWrite data n), s, w) r \<longleftrightarrow> Some r = socket_outcome N (OpWrite data n) (s, w)"
proof (cases "n_send N (nativeSocket s) (take (unat n) data) w")
  case (Pair k w')
  then show ?thesis
    by (simp add: ends_simps ends_calls(2)[OF Pair] ends_returned setError_def tcp_writeBuffer_def Let_def)
qed

lemma ends_socket:
  "ends N (CnSocket h p, s, w) r \<longleftrightarrow> Some r = (case n_socket N w of (sock, w1) \<Rightarrow>
     if sint sock < 0 then Some (RBool False, setError ''Unable to create a socket'' s, w1)
     else case n_connect N sock \<lparr>sin_addr = n_inet_addr N (c_str h), sin_port = n_htons N p\<rparr> w1 of (q, w2) \<Rightarrow>
       if 0 \<le> sint q then Some (RBool True, s\<lparr>m_socket := sock\<rparr>, w2) else Some (RBool False, s, w2))"
proof -
  obtain sock w1 where sock: "n_socket N w = (sock, w1)" by (cases "n_socket N w")
  obtain q w2 where con: "n_connect N sock \<lparr>sin_addr = n_inet_addr N (c_str h), sin_port = n_htons N p\<rparr> w1 = (q, w2)"
    by (cases "n_connect N sock \<lparr>sin_addr = n_inet_addr N (c_str h), sin_port = n_htons N p\<rparr> w1")
  show ?thesis
    by (simp add: sock con ends_calls(5)[OF sock] ends_calls(6)[OF con] ends_error ends_simps ends_returned)
qed

lemma ends_connect: "ends N (kentry (OpConnect h p), s, w) r \<longleftrightarrow> Some r = socket_outcome N (OpConnect h p) (s, w)"
  by (simp add: ends_simps k_closed_def ends_socket connectToHost_def tcp_close_def nativeSocket_def Let_def
      split: prod.splits)

lemma ends_plain:
  "ends N (kentry OpAvailable, s, w) r \<longleftrightarrow> Some r = socket_outcome N OpAvailable (s, w)"
  "ends N (kentry (OpClose stream), s, w) r \<longleftrightarrow> Some r = socket_outcome N (OpClose stream) (s, w)"
  "ends N (kentry OpIsConnected, s, w) r \<longleftrightarrow> Some r = socket_outcome N OpIsConnected (s, w)"
  "ends N (kentry OpPeerAddr, s, w) r \<longleftrightarrow> Some r = socket_outcome N OpPeerAddr (s, w)"
  "ends N (kentry OpPeerPort, s, w) r \<longleftrightarrow> Some r = socket_outcome N OpPeerPort (s, w)"
  "ends N (kentry (OpSetPeerAddr a), s, w) r \<longleftrightarrow> Some r = socket_outcome N (OpSetPeerAddr a) (s, w)"
  "ends N (kentry (OpSetPeerPort p), s, w) r \<longleftrightarrow> Some r = socket_outcome N (OpSetPeerPort p) (s, w)"
  "ends N (kentry OpIsError, s, w) r \<longleftrightarrow> Some r = socket_outcome N OpIsError (s, w)"
  "ends N (kentry OpErrorText, s, w) r \<longleftrightarrow> Some r = socket_outcome N OpErrorText (s, w)"
  by (auto simp: ends_simps ends_calls(3) ends_returned tcp_available_def k_closed_def tcp_close_def peerAddr_def
      peerPort_def isError_def errorText_def Let_def)

text \<open>The loop of \<open>readLine\<close> ends in the one model when it ends in the other.\<close>

lemma loop_ends:
  "readLine_loop N sock n line len c w = Some x \<Longrightarrow> ends N (LnRecv sock n line len c, s, w)
     (case x of (l, err, w') \<Rightarrow> (RString l, if err then setError ''Unable to read data'' s else s, w'))"
proof (rule readLine_loop.raw_induct [where P = "\<lambda>N sock n line len c w x. ends N (LnRecv sock n line len c, s, w)
    (case x of (l, err, w') \<Rightarrow> (RString l, if err then setError ''Unable to read data'' s else s, w'))"])
  fix loop N sock n line len c w and x :: "string \<times> bool \<times> 'a"
  assume IH: "\<And>N sock n line len c w x. loop N sock n line len c w = Some x \<Longrightarrow> ends N (LnRecv sock n line len c, s, w)
      (case x of (l, err, w') \<Rightarrow> (RString l, if err then setError ''Unable to read data'' s else s, w'))"
    and step: "(case n_recv N sock 1 w of (r, bs, w') \<Rightarrow>
        let read = (ucast r :: int32); c' = (case bs of [] \<Rightarrow> c | b # _ \<Rightarrow> b)
        in if sint read < 0 then Some (line, True, w')
           else let keep = (read = 1 \<and> c' \<noteq> CHR 0x0A \<and> c' \<noteq> CHR 0x0D);
                    line' = (if keep then line @ [c'] else line);
                    len' = (if keep then len + 1 else len)
                in if c' \<noteq> CHR 0x0A \<and> len' < n then loop N sock n line' len' c' w'
                   else Some (line', False, w')) = Some x"
  obtain k bs w' where r: "n_recv N sock 1 w = (k, bs, w')" by (cases "n_recv N sock 1 w") auto
  show "ends N (LnRecv sock n line len c, s, w)
      (case x of (l, err, w') \<Rightarrow> (RString l, if err then setError ''Unable to read data'' s else s, w'))"
    using step by (auto simp: ends_calls(4)[OF r] r k_line_def Let_def ends_error ends_returned IH split: if_splits)
qed

lemma ends_loop:
  "solo_n N k (LnRecv sock n line len c, s, w) = Some (Returned v, x) \<Longrightarrow> readLine_loop N sock n line len c w \<noteq> None"
proof (induction k arbitrary: line len c w)
  case (Suc k)
  obtain r bs w' where r: "n_recv N sock 1 w = (r, bs, w')" by (cases "n_recv N sock 1 w") auto
  have "solo N (LnRecv sock n line len c, s, w) = Some (k_line sock n line len c (r, bs), s, w')"
    by (simp add: solo_eval r)
  with Suc.prems have "solo_n N k (k_line sock n line len c (r, bs), s, w') = Some (Returned v, x)" by simp
  then show ?case
    using Suc.IH by (subst readLine_loop.simps) (auto simp: r k_line_def Let_def split: if_splits)
qed simp

lemma ends_unique: "ends N c r \<Longrightarrow> ends N c r' \<Longrightarrow> r = r'"
proof -
  have "solo_n N k c = Some (Returned (fst r), snd r) \<Longrightarrow> ends N c r' \<Longrightarrow> r = r'" for k
  proof (induction k arbitrary: c)
    case 0
    then have "c = (Returned (fst r), snd r)" by simp
    with 0 ends_returned[of N "fst r" "snd r" r'] show ?case by simp
  next
    case (Suc k)
    then obtain c' where c': "solo N c = Some c'" "solo_n N k c' = Some (Returned (fst r), snd r)" by (auto split: option.splits)
    have "fst c \<notin> range Returned" using c'(1) by (cases c) (auto simp: solo_def)
    with Suc c' ends_step[OF c'(1)] show ?case by blast
  qed
  then show "ends N c r \<Longrightarrow> ends N c r' \<Longrightarrow> r = r'" by (auto simp: ends_def)
qed

lemma ends_line: "ends N (kentry (OpReadLine n), s, w) r \<longleftrightarrow> Some r = socket_outcome N (OpReadLine n) (s, w)"
proof (cases "isConnected s")
  case False
  then show ?thesis by (auto simp: ends_simps ends_returned readLine_def)
next
  case True
  let ?c = "(LnRecv (nativeSocket s) n [] 0 CHR 0x00, s, w)"
  have "ends N ?c r \<longleftrightarrow> Some r = socket_outcome N (OpReadLine n) (s, w)"
  proof (cases "readLine_loop N (nativeSocket s) n [] 0 CHR 0x00 w")
    case None
    then have "\<not> ends N ?c r" using ends_loop by (metis ends_def)
    with None True show ?thesis by (simp add: readLine_def)
  next
    case (Some x)
    from loop_ends[OF this, of s] ends_unique have "ends N ?c r \<longleftrightarrow>
        r = (case x of (l, err, w') \<Rightarrow> (RString l, if err then setError ''Unable to read data'' s else s, w'))" by blast
    with Some True show ?thesis by (auto simp: readLine_def split: prod.splits)
  qed
  with True show ?thesis by (simp add: ends_simps)
qed

lemma ends_outcome: "ends N (kentry opn, s, w) r \<longleftrightarrow> Some r = socket_outcome N opn (s, w)"
  by (cases opn) (simp_all only: ends_read ends_write ends_connect ends_line ends_plain)

lemma asked_goes_on [simp]: "k_asked q b \<noteq> Rest"
  by (cases q) simp_all

lemma native_goes_on [simp]: "k_native a f \<noteq> Rest"
  by (cases a) simp_all

lemma closed_goes_on [simp]: "k_closed h \<noteq> Rest"
  by (simp add: k_closed_def split: option.split)

lemma line_goes_on [simp]: "k_line f n line len c r \<noteq> Rest"
  by (simp add: k_line_def Let_def split: prod.split)

lemma solo_total:
  assumes "\<not> k_resting pc"
  shows "\<exists>c'. solo N (pc, s, w) = Some c' \<and> fst c' \<noteq> Rest"
proof -
  let ?st = "\<lparr>sh_mutex = (if kcrit pc then Some (0, 1) else None), sh_data = s, sh_world = w, sh_pcs = [pc]\<rparr>"
  have "kexec ref_posix N 0 pc ?st \<noteq> None" by (rule ref.kexec_enabled[OF assms]) simp
  then obtain st' where st': "kexec ref_posix N 0 pc ?st = Some st'" by blast
  have "hd (sh_pcs st') \<noteq> Rest" using st'
    by (cases pc) (auto simp: k_stmts Let_def split: option.splits prod.splits if_splits)
  with st' show ?thesis by (simp add: solo_def)
qed

lemma solo_forever:
  assumes "\<And>r. \<not> ends N c r" and "\<not> k_resting (fst c)"
  shows "\<exists>c'. solo_n N k c = Some c' \<and> \<not> k_resting (fst c')"
  using assms
proof (induction k arbitrary: c)
  case (Suc k)
  obtain c' where c': "solo N c = Some c'" "fst c' \<noteq> Rest" using solo_total[OF Suc.prems(2), of N "fst (snd c)" "snd (snd c)"] by auto
  have "fst c \<notin> range Returned" using Suc.prems(2) by (auto simp: k_resting_def)
  then have "\<not> ends N c' r" for r using Suc.prems(1) ends_step[OF c'(1)] by blast
  moreover from this have "fst c' \<noteq> Returned v" for v using ends_returned[of N v "snd c'"] by (metis prod.collapse)
  with c'(2) have "\<not> k_resting (fst c')" by (auto simp: k_resting_def split: kpc.splits)
  ultimately show ?case using Suc.IH c'(1) by simp
qed simp

section \<open>Races\<close>

lemma member_guarded: "x \<in> set (k_reads pc @ k_writes pc) \<Longrightarrow> x \<notin> {MemError, MemErrorText} \<Longrightarrow> kcrit pc"
  by (cases pc) auto

context posix_sync
begin

lemma no_race:
  assumes "shared_inv st" and "race_on x st"
  shows "x \<in> {MemError, MemErrorText}"
proof (rule ccontr)
  assume x: "x \<notin> {MemError, MemErrorText}"
  obtain t u where tu: "t < length (sh_pcs st)" "u < length (sh_pcs st)" "t \<noteq> u" "races x (sh_pcs st ! t) (sh_pcs st ! u)"
    using assms(2) by (auto simp: race_on_def)
  then have "kcrit (sh_pcs st ! t)" "kcrit (sh_pcs st ! u)" using member_guarded[OF _ x] by (auto simp: races_def)
  from guarded_alone[OF _ tu(1,2) this] tu(3) assms(1) show False by (simp add: shared_inv_def)
qed

end

text \<open>
  Two threads whose reads fail meet in \<open>setError\<close>. A thread on its way to \<open>recv\<close>, and the failed call from
  there; in between the world may become what it likes.
\<close>

lemma solo_to_recv:
  "isConnected s \<Longrightarrow> solo_n N 6 (kentry (OpRead n buf), s, w) = Some (RdRecv (m_socket s) n buf, s, w)"
  by (simp add: eval_nat_numeral solo_eval isConnected_def)

lemma solo_recv_fails:
  assumes "sint (ucast (fst (n_recv N (m_socket s) n w)) :: int32) < 0"
  shows "\<exists>r w'. solo_n N 1 (RdRecv (m_socket s) n buf, s, w) = Some (SeFlag ''Unable to read data'' r, s, w') \<and>
    solo_n N 2 (RdRecv (m_socket s) n buf, s, w) = Some (SeText ''Unable to read data'' r, s\<lparr>m_error := True\<rparr>, w')"
proof -
  obtain k bs w' where r: "n_recv N (m_socket s) n w = (k, bs, w')" by (cases "n_recv N (m_socket s) n w") auto
  then show ?thesis using assms by (simp add: eval_nat_numeral solo_eval Let_def)
qed

context posix_sync
begin

lemma run_elsewhere:
  assumes "shared_inv st" and "owner (sh_mutex st) = None" and "t < length (sh_pcs st)" and "k_resting (sh_pcs st ! t)"
    and to: "solo_n N k (kentry opn, sh_data st, sh_world st) = Some (pc, s, w)" and c': "solo_n N j (pc, s, v) = Some c'"
  shows "\<exists>es st'. krun P N es st = Some st' \<and> k_alone t c' st' \<and> (\<forall>u. u \<noteq> t \<longrightarrow> sh_pcs st' ! u = sh_pcs st ! u)"
proof -
  obtain st1 where st1: "krun P N (KBegin t opn # replicate k (KStmt t)) st = Some st1" "k_alone t (pc, s, w) st1"
      "\<forall>u. u \<noteq> t \<longrightarrow> sh_pcs st1 ! u = sh_pcs st ! u"
    using run_alone[OF assms(1-4) to] by blast
  let ?st = "st1\<lparr>sh_world := v\<rparr>"
  have "k_alone t (pc, s, v) ?st" using st1(2) by (simp add: k_alone_def shared_inv_def)
  from solo_statements[OF this c'] obtain st' where
    st': "krun P N (replicate j (KStmt t)) ?st = Some st'" "k_alone t c' st'" by blast
  have "krun P N (KElsewhere v # replicate j (KStmt t)) st1 = Some st'" using st'(1) by simp
  then have "krun P N ((KBegin t opn # replicate k (KStmt t)) @ KElsewhere v # replicate j (KStmt t)) st = Some st'"
    unfolding krun_append st1(1) by simp
  moreover have "sh_pcs st' ! u = sh_pcs st ! u" if "u \<noteq> t" for u using others_wait[OF st'(1) that] st1(3) that by simp
  ultimately show ?thesis using st'(2) by blast
qed

lemma two_meet:
  assumes to: "\<And>s' w. m_socket s' = m_socket s \<Longrightarrow> solo_n N k (kentry opn, s', w) = Some (pc0, s', w)"
    and fails: "\<And>s'. m_socket s' = m_socket s \<Longrightarrow> \<exists>r w'. solo_n N j (pc0, s', v) = Some (pc r, f s', w')"
    and pc: "\<And>r r'. \<not> kcrit (pc r) \<and> races x (pc r) (pc r')" and keep: "m_socket (f s) = m_socket s" and n: "1 < n"
  shows "\<exists>es st. krun P N es (shared_start P s n w) = Some st \<and> race_on x st"
proof -
  let ?st = "shared_start P s n w"
  have free: "owner (sh_mutex ?st) = None" using new_free by (simp add: shared_start_def)
  have st: "sh_data ?st = s" "length (sh_pcs ?st) = n" "\<And>t. t < n \<Longrightarrow> k_resting (sh_pcs ?st ! t)"
    by (simp_all add: shared_start_def k_resting_def)
  obtain r1 w1 where r1: "solo_n N j (pc0, s, v) = Some (pc r1, f s, w1)" using fails by blast
  have to1: "solo_n N k (kentry opn, sh_data ?st, sh_world ?st) = Some (pc0, s, sh_world ?st)" by (simp add: st(1) to)
  from run_elsewhere[OF shared_start free _ _ to1 r1, of 0] st(2,3) n obtain es1 st1 where
    st1: "krun P N es1 ?st = Some st1" "k_alone 0 (pc r1, f s, w1) st1" "\<And>u. u \<noteq> 0 \<Longrightarrow> sh_pcs st1 ! u = sh_pcs ?st ! u"
    by auto
  have a1: "shared_inv st1" "owner (sh_mutex st1) = None" "sh_data st1 = f s" "sh_pcs st1 ! 0 = pc r1"
    using st1(2) pc[of r1 r1] by (simp_all add: k_alone_def)
  have len: "length (sh_pcs st1) = n" using krun_length[OF st1(1)] st(2) by simp
  obtain r2 w2 where r2: "solo_n N j (pc0, f s, v) = Some (pc r2, f (f s), w2)" using fails[OF keep] by blast
  have to2: "solo_n N k (kentry opn, sh_data st1, sh_world st1) = Some (pc0, f s, sh_world st1)" by (simp add: a1(3) to[OF keep])
  from run_elsewhere[OF a1(1,2) _ _ to2 r2, of 1] len n st1(3)[of 1] st(3)[of 1] obtain es2 st2 where
    st2: "krun P N es2 st1 = Some st2" "k_alone 1 (pc r2, f (f s), w2) st2" "sh_pcs st2 ! 0 = sh_pcs st1 ! 0"
    by auto
  have "race_on x st2" unfolding race_on_def
  proof (intro exI conjI)
    show "0 < length (sh_pcs st2)" "1 < length (sh_pcs st2)" using krun_length[OF st2(1)] len n by simp_all
    show "races x (sh_pcs st2 ! 0) (sh_pcs st2 ! 1)" using st2(2,3) a1(4) pc[of r1 r2] by (simp add: k_alone_def)
  qed simp
  moreover have "krun P N (es1 @ es2) ?st = Some st2" by (simp add: krun_append st1(1) st2(1))
  ultimately show ?thesis by blast
qed

end

text \<open>Two threads that connect one socket at the same time.\<close>

lemma solo_connects:
  assumes "\<not> isConnected s" and "connectToHost N h p (s, w) = (True, s', w')"
  shows "\<exists>sock. s' = s\<lparr>m_socket := sock\<rparr> \<and> solo_n N 5 (kentry (OpConnect h p), s, w) = Some (CnLock sock, s, w')"
proof -
  obtain sock w1 where sock: "n_socket N w = (sock, w1)" by (cases "n_socket N w")
  obtain q w2 where con: "n_connect N sock \<lparr>sin_addr = n_inet_addr N (c_str h), sin_port = n_htons N p\<rparr> w1 = (q, w2)"
    by (cases "n_connect N sock \<lparr>sin_addr = n_inet_addr N (c_str h), sin_port = n_htons N p\<rparr> w1")
  show ?thesis using assms sock con
    by (auto simp: connectToHost_def isConnected_def eval_nat_numeral solo_eval Let_def split: if_splits)
qed

lemma solo_stores: "solo_n N 3 (CnLock sock, s, w) = Some (Returned (RBool True), s\<lparr>m_socket := sock\<rparr>, w)"
  by (simp add: eval_nat_numeral solo_eval)

context posix_sync
begin

text \<open>A thread that has stopped outside the mutex leaves it to any other that is outside.\<close>

lemma alone_handover:
  assumes "k_alone t (pc, s, w) st" and "\<not> kcrit pc" and "u < length (sh_pcs st)" and "\<not> kcrit (sh_pcs st ! u)"
  shows "k_alone u (sh_pcs st ! u, s, w) st"
  using assms by (simp add: k_alone_def)

lemma both_connect:
  assumes "\<not> isConnected s" and first: "connectToHost N h p (s, w) = (True, s1, w1)"
    and second: "connectToHost N h' p' (s, w1) = (True, s2, w2)"
  shows "\<exists>es st. krun P N es (shared_start P s 2 w) = Some st \<and>
    sh_pcs st = [Returned (RBool True), Returned (RBool True)] \<and> sh_data st = s2 \<and> sh_world st = w2"
proof -
  let ?st = "shared_start P s 2 w"
  obtain k1 where k1: "s1 = s\<lparr>m_socket := k1\<rparr>" "solo_n N 5 (kentry (OpConnect h p), s, w) = Some (CnLock k1, s, w1)"
    using solo_connects[OF assms(1) first] by blast
  obtain k2 where k2: "s2 = s\<lparr>m_socket := k2\<rparr>" "solo_n N 5 (kentry (OpConnect h' p'), s, w1) = Some (CnLock k2, s, w2)"
    using solo_connects[OF assms(1) second] by blast
  have free: "owner (sh_mutex ?st) = None" using init_mutex by (simp add: shared_start_def mutex_new_def)
  have st: "sh_data ?st = s" "sh_world ?st = w" "length (sh_pcs ?st) = 2" "\<And>t. t < 2 \<Longrightarrow> k_resting (sh_pcs ?st ! t)"
    by (simp_all add: shared_start_def k_resting_def)
  from run_alone[OF shared_start free, of 0 N 5 "OpConnect h p"] st k1(2) obtain es1 st1 where
    st1: "krun P N es1 ?st = Some st1" "k_alone 0 (CnLock k1, s, w1) st1" "sh_pcs st1 ! 1 = sh_pcs ?st ! 1"
    by (metis numeral_2_eq_2 zero_less_Suc zero_neq_one)
  have l1: "length (sh_pcs st1) = 2" using krun_length[OF st1(1)] st(3) by simp
  have a1: "sh_pcs st1 ! 0 = CnLock k1" "shared_inv st1" "sh_data st1 = s" "sh_world st1 = w1"
    using st1(2) by (simp_all add: k_alone_def)
  then have o1: "owner (sh_mutex st1) = None" using st1(2) by (simp add: k_alone_def)
  from run_alone[OF a1(2) o1, of 1 N 5 "OpConnect h' p'"] st1(3) st(4)[of 1] k2(2) l1 a1(3,4) obtain es2 st2 where
    st2: "krun P N es2 st1 = Some st2" "k_alone 1 (CnLock k2, s, w2) st2" "sh_pcs st2 ! 0 = CnLock k1"
    using a1(1) by (metis one_less_numeral_iff semiring_norm(76) zero_neq_one)
  have "k_alone 0 (CnLock k1, s, w2) st2" using alone_handover[OF st2(2), of 0] st2(3) krun_length[OF st2(1)] l1 by simp
  from solo_statements[OF this solo_stores] obtain st3 where
    st3: "krun P N (replicate 3 (KStmt 0)) st2 = Some st3" "k_alone 0 (Returned (RBool True), s\<lparr>m_socket := k1\<rparr>, w2) st3" by blast
  have p3: "sh_pcs st3 ! 1 = CnLock k2" using others_wait[OF st3(1), of 1] st2(2) by (simp add: k_alone_def)
  have "k_alone 1 (CnLock k2, s\<lparr>m_socket := k1\<rparr>, w2) st3"
    using alone_handover[OF st3(2), of 1] p3 krun_length[OF st3(1)] krun_length[OF st2(1)] l1 by simp
  from solo_statements[OF this solo_stores] obtain st4 where
    st4: "krun P N (replicate 3 (KStmt 1)) st3 = Some st4" "k_alone 1 (Returned (RBool True), s2, w2) st4"
    by (auto simp: k2(1))
  have "sh_pcs st4 ! 0 = Returned (RBool True)" using others_wait[OF st4(1), of 0] st3(2) by (simp add: k_alone_def)
  moreover have "length (sh_pcs st4) = 2" using krun_length st4(1) st3(1) st2(1) l1 by metis
  ultimately have "sh_pcs st4 = [Returned (RBool True), Returned (RBool True)]"
    using st4(2) by (auto simp: k_alone_def list_eq_iff_nth_eq less_2_cases_iff)
  moreover have "krun P N (es1 @ es2 @ replicate 3 (KStmt 0) @ replicate 3 (KStmt 1)) ?st = Some st4"
    by (simp add: krun_append st1(1) st2(1) st3(1) st4(1)[unfolded One_nat_def])
  ultimately show ?thesis using st4(2) by (auto simp: k_alone_def)
qed

end

section \<open>Properties\<close>

text \<open>C7: a call of a socket that runs while all other threads are outside its operations does what the function of
  \<open>TcpSocket\<close> does: it returns its result and leaves its object and its world; and where \<open>readLine\<close> never
  returns, the call never ends either.\<close>

theorem socket_alone_refines:
  assumes "posix_sync P owner depth tokens" and "krun P N es (shared_start P s0 n w0) = Some st"
    and "\<forall>pc \<in> set (sh_pcs st). k_resting pc" and "t < n"
  shows "case socket_outcome N opn (sh_data st, sh_world st) of
     Some (r, s, w) \<Rightarrow> \<exists>k st'. krun P N (KBegin t opn # replicate k (KStmt t)) st = Some st' \<and>
       sh_pcs st' ! t = Returned r \<and> sh_data st' = s \<and> sh_world st' = w
   | None \<Rightarrow> \<forall>k. \<exists>st'. krun P N (KBegin t opn # replicate k (KStmt t)) st = Some st' \<and> \<not> k_resting (sh_pcs st' ! t)"
proof -
  let ?c = "(kentry opn, sh_data st, sh_world st)"
  have inv: "posix_sync.shared_inv owner depth st"
    by (rule posix_sync.shared_run[OF assms(1,2) posix_sync.shared_start[OF assms(1)]])
  have t: "t < length (sh_pcs st)" using krun_length[OF assms(2)] assms(4) by (simp add: shared_start_def)
  then have rest: "k_resting (sh_pcs st ! t)" using assms(3) by simp
  have free: "owner (sh_mutex st) = None"
    using inv assms(3) resting_outside locked_none
    unfolding posix_sync.shared_inv_def[OF assms(1)] posix_sync.guarded_def[OF assms(1)] by blast
  note run = posix_sync.run_alone[OF assms(1) inv free t rest]
  show ?thesis
  proof (cases "socket_outcome N opn (sh_data st, sh_world st)")
    case None
    then have "\<not> ends N ?c r" for r using ends_outcome[of N opn "sh_data st" "sh_world st" r] by simp
    moreover have "\<not> k_resting (fst ?c)" by (cases opn) (simp_all add: k_resting_def)
    ultimately have "\<exists>c'. solo_n N k ?c = Some c' \<and> \<not> k_resting (fst c')" for k by (rule solo_forever)
    then have "\<exists>st'. krun P N (KBegin t opn # replicate k (KStmt t)) st = Some st' \<and> \<not> k_resting (sh_pcs st' ! t)" for k
      using run[of N k opn] by (metis posix_sync.k_alone_def[OF assms(1)] fst_conv)
    with None show ?thesis by simp
  next
    case (Some r)
    then obtain k where "solo_n N k ?c = Some (Returned (fst r), snd r)"
      using ends_outcome[of N opn "sh_data st" "sh_world st" r] by (auto simp: ends_def)
    from run[OF this] obtain st' where st': "krun P N (KBegin t opn # replicate k (KStmt t)) st = Some st'"
        "posix_sync.k_alone owner depth t (Returned (fst r), snd r) st'" by blast
    then have "sh_pcs st' ! t = Returned (fst r)" "(sh_data st', sh_world st') = snd r"
      by (simp_all add: posix_sync.k_alone_def[OF assms(1)])
    moreover obtain v s w where r: "r = (v, s, w)" by (cases r)
    ultimately have "sh_pcs st' ! t = Returned v" "sh_data st' = s" "sh_world st' = w" by simp_all
    with st'(1) show ?thesis unfolding Some r option.case prod.case by blast
  qed
qed

lemmas eval_shared = k_stmts shared_start_def mutex_new_def ref_posix_def ref_lock_def ref_unlock_def ref_net_def
  ref_recv_def demo_world_def tcp_new_def k_resting_def Let_def

lemma two_threads: "replicate 2 pc = [pc, pc]"
  by (simp add: numeral_2_eq_2)

theorem socket_alone_refines_witness:
  "\<exists>k st. krun ref_posix ref_net (KBegin 1 OpIsConnected # replicate k (KStmt 1))
     (shared_start ref_posix (tcp_new\<lparr>m_socket := 5\<rparr>) 2 (demo_world 6 False False [])) = Some st \<and> sh_pcs st ! 1 = Returned (RBool True)"
  using socket_alone_refines[OF ref.posix_sync_axioms, of ref_net "[]" "tcp_new\<lparr>m_socket := 5\<rparr>" 2 "demo_world 6 False False []" _ 1 OpIsConnected]
  by (auto simp: shared_start_def k_resting_def isConnected_def)

text \<open>C13: calls of one socket by any number of threads never deadlock and never loop, the loop of \<open>readLine\<close> apart: when no
  thread is in \<open>readLine\<close>, at most 13 more statements per thread can be executed without a new call, in whatever
  order, and when no statement can be executed any more every call has returned.\<close>

theorem socket_calls_end:
  assumes "posix_sync P owner depth tokens" and "krun P N es (shared_start P s0 n w) = Some st"
    and "\<forall>pc \<in> set (sh_pcs st). \<not> in_line pc" and "krun P N es' st = Some st'" and "\<forall>e \<in> set es'. \<not> is_kbegin e"
  shows "length (filter is_kstmt es') \<le> 13 * n \<and>
     ((\<forall>t. kfire P N (KStmt t) st' = None) \<longrightarrow> (\<forall>pc \<in> set (sh_pcs st'). k_resting pc))"
proof (intro conjI impI ballI)
  have "length (sh_pcs st) = n" using krun_length[OF assms(2)] by (simp add: shared_start_def)
  then show "length (filter is_kstmt es') \<le> 13 * n"
    using k_work_run[OF assms(4,5,3)] k_work_bound[of st] by linarith
  fix pc assume stuck: "\<forall>t. kfire P N (KStmt t) st' = None" and "pc \<in> set (sh_pcs st')"
  then obtain t where t: "t < length (sh_pcs st')" "pc = sh_pcs st' ! t" by (metis in_set_conv_nth)
  note inv = posix_sync.shared_run[OF assms(1)]
  have i: "posix_sync.shared_inv owner depth st'"
    by (rule inv[OF assms(4) inv[OF assms(2) posix_sync.shared_start[OF assms(1)]]])
  show "k_resting pc"
  proof (rule ccontr)
    assume "\<not> k_resting pc"
    then obtain u where "u < length (sh_pcs st')" "kexec P N u (sh_pcs st' ! u) st' \<noteq> None"
      using posix_sync.some_can_step[OF assms(1) i t(1), of N] t(2) by auto
    with stuck[rule_format, of u] show False by simp
  qed
qed

theorem socket_calls_end_witness:
  "\<exists>st st'. krun ref_posix ref_net [KBegin 0 OpIsConnected, KBegin 1 OpPeerAddr, KStmt 1]
       (shared_start ref_posix (tcp_new\<lparr>m_socket := 5\<rparr>) 2 (demo_world 6 False False [])) = Some st \<and>
     krun ref_posix ref_net [KStmt 1, KStmt 1, KStmt 0] st = Some st' \<and> length (filter is_kstmt [KStmt 1, KStmt 1, KStmt 0 :: ref_world kevent]) \<le> 26"
proof -
  obtain st st' where st: "krun ref_posix ref_net [KBegin 0 OpIsConnected, KBegin 1 OpPeerAddr, KStmt 1]
       (shared_start ref_posix (tcp_new\<lparr>m_socket := 5\<rparr>) 2 (demo_world 6 False False [])) = Some st"
     "\<forall>pc \<in> set (sh_pcs st). \<not> in_line pc" "krun ref_posix ref_net [KStmt 1, KStmt 1, KStmt 0] st = Some st'"
    by (simp add: eval_shared numeral_2_eq_2)
  with socket_calls_end[OF ref.posix_sync_axioms st(1,2,3)] show ?thesis by auto
qed

text \<open>C22: whatever calls any number of threads make of one socket, and whatever the network does, two threads never
  access \<open>m_socket\<close>, \<open>m_peerAddr\<close> or \<open>m_peerPort\<close> at the same moment when one of them writes it. The error flag and
  the error text, which \<open>setError\<close> writes without the mutex, are not protected so: on any connected socket two
  threads can come to write either of them at the same moment, if \<open>recv\<close> can fail at all.\<close>

theorem socket_races_exactly:
  assumes "posix_sync P owner depth tokens"
  shows "(krun P N es (shared_start P s n w) = Some st \<and> race_on x st \<longrightarrow> x \<in> {MemError, MemErrorText}) \<and>
    (x \<in> {MemError, MemErrorText} \<and> isConnected s \<and> 1 < n \<and> sint (ucast (fst (n_recv N (m_socket s) k v)) :: int32) < 0 \<longrightarrow>
       (\<exists>es st. krun P N es (shared_start P s n w) = Some st \<and> race_on x st))"
proof (intro conjI impI)
  assume r: "krun P N es (shared_start P s n w) = Some st \<and> race_on x st"
  have "posix_sync.shared_inv owner depth st"
    by (rule posix_sync.shared_run[OF assms conjunct1[OF r] posix_sync.shared_start[OF assms]])
  from posix_sync.no_race[OF assms this conjunct2[OF r]] show "x \<in> {MemError, MemErrorText}" .
next
  assume h: "x \<in> {MemError, MemErrorText} \<and> isConnected s \<and> 1 < n \<and> sint (ucast (fst (n_recv N (m_socket s) k v)) :: int32) < 0"
  have to: "solo_n N 6 (kentry (OpRead k []), s', w') = Some (RdRecv (m_socket s) k [], s', w')"
    if "m_socket s' = m_socket s" for s' w'
    using solo_to_recv[of s' N k "[]" w'] h that by (simp add: isConnected_def)
  have fails: "\<exists>r w'. solo_n N 1 (RdRecv (m_socket s) k [], s', v) = Some (SeFlag ''Unable to read data'' r, s', w') \<and>
      solo_n N 2 (RdRecv (m_socket s) k [], s', v) = Some (SeText ''Unable to read data'' r, s'\<lparr>m_error := True\<rparr>, w')"
    if "m_socket s' = m_socket s" for s'
    using solo_recv_fails[of N s' k v "[]"] h that by simp
  have n: "1 < n" using h by blast
  note meet = posix_sync.two_meet[OF assms to, where n = n, OF _ _ _ _ n]
  from h have "x = MemError \<or> x = MemErrorText" by blast
  then show "\<exists>es st. krun P N es (shared_start P s n w) = Some st \<and> race_on x st"
  proof
    assume x: "x = MemError"
    show ?thesis
      by (rule meet[where j = 1 and pc = "SeFlag ''Unable to read data''" and f = id and v = v])
        (use fails x in \<open>fastforce simp: races_def\<close>)+
  next
    assume x: "x = MemErrorText"
    show ?thesis
      by (rule meet[where j = 2 and pc = "SeText ''Unable to read data''" and f = "\<lambda>s. s\<lparr>m_error := True\<rparr>" and v = v])
        (use fails x in \<open>fastforce simp: races_def\<close>)+
  qed
qed

theorem socket_races_exactly_witness:
  "(\<exists>es st. krun ref_posix ref_net es (shared_start ref_posix (tcp_new\<lparr>m_socket := 5\<rparr>) 2 (demo_world 6 False False ''key'')) = Some st \<and>
     race_on MemError st) \<and>
   \<not> (\<exists>es st. krun ref_posix ref_net es (shared_start ref_posix (tcp_new\<lparr>m_socket := 5\<rparr>) 2 (demo_world 6 False False ''key'')) = Some st \<and>
     race_on MemSocket st)"
proof -
  have "fst (n_recv ref_net 5 0 (demo_world 6 False False [])) = - 1" by (simp add: ref_net_def ref_recv_def demo_world_def)
  then have "sint (ucast (fst (n_recv ref_net 5 0 (demo_world 6 False False []))) :: int32) < 0"
    using ucast_minus_one[of "- 1 :: 64 word"] by simp
  then have race: "\<exists>es st. krun ref_posix ref_net es (shared_start ref_posix (tcp_new\<lparr>m_socket := 5\<rparr>) 2 (demo_world 6 False False ''key'')) = Some st \<and>
     race_on MemError st"
    by (intro socket_races_exactly[OF ref.posix_sync_axioms, THEN conjunct2, THEN mp])
      (simp add: isConnected_def)
  show ?thesis
  proof (intro conjI notI race)
    assume "\<exists>es st. krun ref_posix ref_net es (shared_start ref_posix (tcp_new\<lparr>m_socket := 5\<rparr>) 2 (demo_world 6 False False ''key'')) = Some st \<and>
     race_on MemSocket st"
    then obtain es st where "krun ref_posix ref_net es
       (shared_start ref_posix (tcp_new\<lparr>m_socket := 5\<rparr>) 2 (demo_world 6 False False ''key'')) = Some st \<and> race_on MemSocket st"
      by blast
    from socket_races_exactly[OF ref.posix_sync_axioms, THEN conjunct1, THEN mp, OF this]
    have "MemSocket \<in> {MemError, MemErrorText}" .
    then show False by simp
  qed
qed

text \<open>Two calls of \<open>connectToHost\<close> on an unconnected socket that overlap both succeed: whenever the
  system grants both requests, there is an interleaving in which both return true, the socket knows only the second
  descriptor, and the first stays open even after the socket has been destroyed.\<close>

theorem overlapping_connects_leak:
  assumes "posix_sync P owner depth tokens" and net: "net_calls N opened inbox hungup" and "\<not> isConnected s"
    and first: "connectToHost N h p (s, w) = (True, s1, w1)" and second: "connectToHost N h' p' (s, w1) = (True, s2, w2)"
  shows "\<exists>es st. krun P N es (shared_start P s 2 w) = Some st \<and>
    sh_pcs st = [Returned (RBool True), Returned (RBool True)] \<and> sh_data st = s2 \<and> sh_world st = w2 \<and>
    m_socket s1 \<notin> opened w \<and> m_socket s1 \<in> opened (tcp_delete N (sh_data st) (sh_world st))"
proof -
  have none: "tcp_fds s = {}" using assms(3) by (simp add: tcp_fds_def)
  have "m_socket s1 \<notin> opened w \<and> opened w1 = insert (m_socket s1) (opened w)"
    using net_calls.connect_result[OF net first] none by auto
  moreover have "m_socket s2 \<notin> opened w1 \<and> opened w2 = insert (m_socket s2) (opened w1)"
    using net_calls.connect_result[OF net second] none by auto
  ultimately have "m_socket s1 \<notin> opened w \<and> m_socket s1 \<in> opened (tcp_delete N s2 w2)"
    by (auto simp: net_calls.tcp_delete_fd[OF net])
  then show ?thesis using posix_sync.both_connect[OF assms(1,3) first second] by blast
qed

theorem overlapping_connects_leak_witness:
  "\<exists>es st. krun ref_posix ref_net es (shared_start ref_posix tcp_new 2 (demo_world 6 False False [])) = Some st \<and>
     sh_pcs st = [Returned (RBool True), Returned (RBool True)] \<and>
     6 \<in> set (rw_open (tcp_delete ref_net (sh_data st) (sh_world st)))"
proof -
  let ?s1 = "tcp_new\<lparr>m_socket := 6\<rparr>" and ?w1 = "(demo_world 7 False False [])\<lparr>rw_open := [6, 5]\<rparr>"
  have c: "connectToHost ref_net [] 80 (tcp_new, demo_world 6 False False []) = (True, ?s1, ?w1)"
    and c': "connectToHost ref_net [] 81 (tcp_new, ?w1) = (True, tcp_new\<lparr>m_socket := 7\<rparr>, ?w1\<lparr>rw_open := [7, 6, 5], rw_next := 8\<rparr>)"
    and n: "\<not> isConnected tcp_new"
    by (simp_all add: connectToHost_def isConnected_def tcp_new_def ref_net_def ref_open_def ref_try_def demo_world_def Let_def)
  have "m_socket ?s1 = 6" by simp
  with overlapping_connects_leak[OF ref.posix_sync_axioms rn.net_calls_axioms n c c'] show ?thesis by metis
qed

text \<open>\<open>readBuffer\<close> releases the mutex before it uses the descriptor. Here thread 0 has fetched it, thread 1
  closes the socket, the system hands the descriptor out again for some other connection, and thread 0 returns
  what has arrived there, without an error.\<close>

theorem close_redirects_reader:
  "\<exists>st. krun ref_posix ref_net
       [KBegin 0 (OpRead 3 ''---''), KStmt 0, KStmt 0, KStmt 0, KStmt 0, KStmt 0, KStmt 0,
        KBegin 1 (OpClose Stream_All), KStmt 1, KStmt 1, KStmt 1, KStmt 1, KStmt 1,
        KElsewhere (demo_world 6 False False ''key''), KStmt 0]
       (shared_start ref_posix (tcp_new\<lparr>m_socket := 5\<rparr>) 2 (demo_world 6 False False [])) = Some st \<and>
     sh_pcs st = [Returned (RRead 3 ''key''), Returned RDone] \<and> \<not> m_error (sh_data st)"
  by (simp add: eval_shared k_closed_def two_threads)

end
