(* ===== verification/Spec2Isabelle.thy ===== *)
theory Spec2Isabelle
  imports VariantPrograms Queue SemaApple SemaWindows VariantLink ServerThreadsProofs WinSockets ThreadWindows Destructors
    SocketThreadsProofs
begin

text \<open>
  A verification library for ucxx, a small C++ library of variants, byte arrays, serialisation,
  threads and sockets. Paths are relative to \<open>src/src\<close> of the repository.

  \<^bold>\<open>The program.\<close> \<open>Variant\<close> is a tagged union of null, boolean, integer, real, string, list and
  map; \<open>ByteArray\<close> wraps \<open>std::vector<char>\<close>; \<open>ByteArraySerializer\<close> implements
  \<open>IVariantSerializer\<close> and writes variants into a byte array and reads them back; \<open>StringUtils\<close>
  trims strings and converts numbers, and \<open>Variant\<close> uses it for its text. \<open>Mutex\<close> (with
  \<open>MutexLocker\<close>) and \<open>Semaphore\<close> wrap the system's objects; \<open>Queue\<close> is built on both;
  \<open>Thread\<close> runs an \<open>IRunnable\<close> once a start semaphore is released, and guards its running flag
  with a mutex. \<open>Socket\<close> reads and writes byte arrays over the virtual functions of a derived
  class; \<open>TcpSocket\<close> implements these on a descriptor, and \<open>TcpServer\<close> listens through one
  \<open>TcpSocket\<close> and makes others for the connections it accepts.

  \<^bold>\<open>Theories and the code they model.\<close>
  \<^item> \<open>Ucxx_Prelude\<close>: the C types as words, the bytes of scalars, lemmas on words that all parts share.
  \<^item> \<open>ByteArray\<close>: \<open>ByteArray.cpp\<close>, one definition per operation, \<open>None\<close> for undefined behaviour.
  \<^item> \<open>StdMap\<close>: the operations of \<open>std::map\<close> the code uses, on sorted association lists.
  \<^item> \<open>StringUtils\<close>, \<open>Doubles\<close>: \<open>StringUtils.cpp\<close> and the two instances of the templates in
    \<open>StringUtils.h\<close>; conversion of integers to and from IEEE bit patterns.
  \<^item> \<open>Variant\<close>: the values and conversions of \<open>Variant.cpp\<close>. \<open>VariantHeap\<close>: its memory, with tag,
    union, heap objects, constructors, assignments and \<open>clear\<close>. \<open>VariantHeapProofs\<close>: ownership.
    \<open>VariantPrograms\<close>: sequences of declarations, assignments and ends of scope.
  \<^item> \<open>ByteArraySerializer\<close>: \<open>ByteArraySerializer.cpp\<close>. \<open>WireFormat\<close>: the format on its own, as an encoder
    and a grammar. \<open>SerializerProofs\<close>: the code against the format, and the contract of
    \<open>IVariantSerializer.h\<close> as a locale.
  \<^item> \<open>Posix\<close>: the calls on recursive mutexes and semaphores, as parameters with laws. \<open>Mutex\<close>: \<open>Mutex.cpp\<close>.
    \<open>Sema\<close>, \<open>SemaApple\<close>, \<open>SemaWindows\<close>: the three builds of \<open>Sema.cpp\<close>.
  \<^item> \<open>Queue\<close>: \<open>Queue.h\<close> as a transition system over statements, for any number of threads.
  \<^item> \<open>Thread\<close>: \<open>Thread.cpp\<close>, the object, its system thread and any number of clients, in the same way;
    \<open>sleep\<close>, and the Windows tables of priorities.
  \<^item> \<open>Net\<close>: the socket calls, as parameters with laws. \<open>Socket\<close>, \<open>TcpSocket\<close>, \<open>TcpServer\<close>: the classes of
    the same names, as functions of the object and the world of these calls.
  \<^item> \<open>ServerThreads\<close>: \<open>TcpServer.cpp\<close> again, for any number of threads that call one server, as a
    transition system over statements with the mutexes of the server and of its socket and a heap of
    sockets. \<open>ServerThreadsInv\<close>: its invariant, and a measure. \<open>ServerThreadsAlone\<close>: calls that
    run alone. \<open>ServerThreadsProofs\<close>: the properties.
  \<^item> \<open>SocketThreads\<close>: \<open>TcpSocket.cpp\<close> again, for any number of threads that call one socket, in the same
    way. \<open>SocketThreadsProofs\<close>: its invariant, its measure and the properties. \<open>Guarded\<close>: the owner of
    a mutex, told by the statements the threads execute next.
  \<^item> \<open>WinSockets\<close>: the Windows build of \<open>TcpSocket.cpp\<close> and \<open>TcpServer.cpp\<close>. \<open>ThreadWindows\<close>: that of
    \<open>Mutex.cpp\<close> and \<open>Thread.cpp\<close>.
  \<^item> \<open>Destructors\<close>: the destructors of mutexes and semaphores, and where queues, threads and servers run them.
  \<^item> \<open>VariantLink\<close>: \<open>IVariantSerializer.h\<close>, and the way of variants from a serialiser through two
    sockets into another serialiser.

  A member of a class is a field of a record with its name in the code, a method is a definition
  with the name of the method, with a prefix where names clash, and every early return, failed
  assertion and undefined operation of the code is a branch.

  \<^bold>\<open>Interfaces.\<close> The locales \<open>posix_sync\<close>, its extension \<open>posix_mutexes\<close>, \<open>pthread_calls\<close>, \<open>win_semaphore\<close>, \<open>win_mutex\<close>, \<open>posix_destroy\<close>, \<open>pthread_destroy\<close>, \<open>net_calls\<close> and \<open>winsock_calls\<close> state what
  the documentation promises of calls that are not part of the program; each is interpreted on a
  concrete implementation. \<open>stream_socket\<close> is the contract of \<open>readBuffer\<close> and \<open>writeBuffer\<close>, and a
  \<open>sublocale\<close> of \<open>net_calls\<close> shows that \<open>TcpSocket\<close> keeps it. The locales of \<open>VariantHeapProofs\<close> and
  \<open>SerializerProofs\<close> state the contracts of deep copies and of a serialiser, interpreted on the code.

  \<^bold>\<open>What is shown.\<close>
  \<^item> Serialiser: pushing refines the format; popping accepts exactly the grammar, terminates, stays inside
    the array on any input, and yields canonical values; what is pushed is popped in order, and
    nothing cut short is accepted.
  \<^item> Variants: programs that declare, copy, assign and end the scopes of whole variables of this type run without
    touching freed memory, compute the right values, share nothing and leak nothing; assignments from inside
    the assigned variant, through the references that \<open>string\<close>, \<open>list\<close> and \<open>map\<close> return, which such
    programs do not contain, read deleted memory. Text and numbers round trip, except that a real does not
    convert to a boolean, and trimming is exact.
  \<^item> Mutexes and semaphores: a mutex is a reentrant lock, because of the type its constructor sets; restart after signals, deadlines without overflow; the Mac OS
    counter is exact but wakeups can be lost; the Windows mirror of the counter drifts.
  \<^item> Queue: order and completeness in every interleaving; \<open>front\<close> of an empty queue only after \<open>head\<close> or a
    signal during a wait; without these, no deadlock without \<open>clear\<close>, and the deadlock with it; when it may
    be destroyed.
  \<^item> Threads: safety for clients that delete the object after the join, one call of the runnable by then, the
    meaning of the running flag, no deadlock, nothing runs before \<open>start\<close>; and what an early
    deletion or a signal does. On Windows the same safety without \<open>terminate\<close>, and what \<open>terminate\<close> breaks.
  \<^item> Sockets: which descriptors every operation opens and closes, what is read, where the line ends
    when reading lines, and where it never returns. What is read from a connection decodes to the
    values that arrived whole. The Windows build agrees as long as calls succeed, and overlooks failures.
  \<^item> The server under concurrent calls: its functions are refined by the statements; no interleaving uses the
    deleted socket, every call ends, and no socket is lost while one thread listens; two that listen
    lose one, and \<open>close\<close> can hit a descriptor of another thread.
  \<^item> A socket under concurrent calls: a call that runs alone is the sequential function, every call but
    \<open>readLine\<close> ends, and the members that the mutex guards are free of data races; the error flag and text are
    not. Overlapping connections leak a descriptor, and a reader can be left with a closed one.

  \<^bold>\<open>Recursion.\<close> \<open>popValue\<close> runs with twice the unread bytes plus one as fuel, and \<open>popValue_terminates\<close> shows
  that the bound is never reached on arrays below 4 GiB: every nested call is preceded by a signature byte. The fuel of
  copying and clearing bounds the nesting depth of a value; the length of a program is enough for
  every value it makes. The restart loop of a timed wait and the loop of \<open>readLine\<close> may run for
  ever: they are partial functions, and the theorems say when they return.

  \<^bold>\<open>Not modelled.\<close> Allocation failure and the depth of
  the call stack; locales other than the classic one, hexadecimal, infinite and undefined reals in
  text; \<open>hostNameToIp\<close> and \<open>readLine\<close> of the Windows build,
  which differ in nothing but the calls below them; concurrent calls of the Windows build of the sockets, which
  guards the same statements.
  \<open>Makefile\<close> and the empty \<open>test.cpp\<close> hold no
  behaviour.
\<close>

end
